(* ===== verification/Prelude.thy ===== *)
theory Prelude
  imports Main "HOL-Library.Word" "HOL-Library.AList"
begin

text \<open>
  The prelude of the development: names for Go's unsigned integers, byte slices, the
  little-endian readers of \<^verbatim>\<open>encoding/binary\<close>, Go maps as association lists, and the
  generic lemmas the components share.

  \<^item> \<^verbatim>\<open>uint8\<close>, \<^verbatim>\<open>uint16\<close>, \<^verbatim>\<open>uint32\<close> and \<^verbatim>\<open>uint64\<close> are words of that width, so their
    arithmetic wraps around as Go's does. Go's \<^verbatim>\<open>int\<close> (64 bits) is \<open>nat\<close> or \<open>int\<close>
    where the values are bounded by slice lengths.
  \<^item> A slice expression \<^verbatim>\<open>b[lo:hi]\<close> is \<open>subslice lo hi b\<close>; the guards of the source
    that keep it in range are written out where the source has them.
  \<^item> A Go map is an association list with distinct keys; \<open>map_of\<close> reads it,
    \<open>AList.update\<close> stores and \<open>AList.delete\<close> removes.
\<close>

unbundle bit_operations_syntax

named_theorems gf_simps "the field laws of GF(256) as rewrite rules"
named_theorems len_simps "length facts of matrices, shards and slices"
named_theorems dec_simps "decoder equations on well-formed encodings"

type_synonym byte = "8 word"
type_synonym u16 = "16 word"
type_synonym u32 = "32 word"
type_synonym u64 = "64 word"

definition subslice :: "nat \<Rightarrow> nat \<Rightarrow> 'a list \<Rightarrow> 'a list" where
  "subslice lo hi b = take (hi - lo) (drop lo b)"

fun le_nat :: "byte list \<Rightarrow> nat" where
  "le_nat [] = 0"
| "le_nat (b # bs) = unat b + 256 * le_nat bs"

fun le_bytes :: "nat \<Rightarrow> nat \<Rightarrow> byte list" where
  "le_bytes 0 v = []"
| "le_bytes (Suc n) v = of_nat (v mod 256) # le_bytes n (v div 256)"

lemma length_subslice [simp]: "length (subslice lo hi b) = min (hi - lo) (length b - lo)"
  by (simp add: subslice_def)

lemma subslice_append_left [simp]: "hi \<le> length a \<Longrightarrow> subslice lo hi (a @ b) = subslice lo hi a"
  by (simp add: subslice_def)

lemma subslice_append_mid [simp]:
  "subslice (length a) (length a + n) (a @ b) = take n b"
  by (simp add: subslice_def)

lemma length_le_bytes [simp]: "length (le_bytes n v) = n"
  by (induction n arbitrary: v) simp_all

lemma le_nat_bound: "le_nat bs < 256 ^ length bs"
proof (induction bs)
  case (Cons b bs)
  have "unat b < 256" using unsigned_less [where ?w = b and ?'a = nat] by simp
  then show ?case using Cons.IH by simp
qed simp

lemma le_nat_le_bytes [simp]: "v < 256 ^ n \<Longrightarrow> le_nat (le_bytes n v) = v"
proof (induction n arbitrary: v)
  case (Suc n)
  from Suc.prems have "v div 256 < 256 ^ n"
    by (simp add: less_mult_imp_div_less mult.commute)
  moreover have "unat (of_nat (v mod 256) :: byte) = v mod 256"
    by (simp add: unat_of_nat)
  ultimately show ?case using Suc.IH by simp
qed simp

lemma byte_range_check:
  fixes b :: byte
  assumes "list_all P (map of_nat [m..<n])" and "m \<le> unat b" and "unat b < n"
  shows "P b"
proof -
  have "P (of_nat (unat b))" using assms unfolding list_all_iff by (simp del: of_nat_unat)
  then show ?thesis by simp
qed

text \<open>A \<^verbatim>\<open>for\<close> loop over indices whose body may return an error early.\<close>

fun for_each :: "('i \<Rightarrow> 's \<Rightarrow> 'e + 's) \<Rightarrow> 'i list \<Rightarrow> 's \<Rightarrow> 'e + 's" where
  "for_each f [] s = Inr s"
| "for_each f (i # is) s = (case f i s of Inl e \<Rightarrow> Inl e | Inr s' \<Rightarrow> for_each f is s')"

lemma for_each_append:
  "for_each f (xs @ ys) s =
     (case for_each f xs s of Inl e \<Rightarrow> Inl e | Inr s' \<Rightarrow> for_each f ys s')"
  by (induction xs arbitrary: s) (auto split: sum.splits)

lemma for_each_upt_Suc:
  "for_each f [0..<Suc n] s =
     (case for_each f [0..<n] s of Inl e \<Rightarrow> Inl e | Inr s' \<Rightarrow> f n s')"
  by (auto simp: for_each_append split: sum.splits)

lemma takeWhile_less_sorted:
  "sorted xs \<Longrightarrow> takeWhile (\<lambda>x. x < d) xs = filter (\<lambda>x. x < d) xs" for d :: "'a :: linorder"
proof (induction xs)
  case (Cons x xs)
  have "filter (\<lambda>x. x < d) xs = []" if "\<not> x < d"
    using that Cons.prems by (force simp: filter_empty_conv)
  then show ?case using Cons by simp
qed simp

lemma map_eq_replicateD: "map f xs = replicate n c \<Longrightarrow> x \<in> set xs \<Longrightarrow> f x = c"
  by (metis image_eqI in_set_replicate set_map)

text \<open>
  The unconditional loop \<^verbatim>\<open>for { ... }\<close>: each round returns whether to go on, and the state. The
  value \<open>None\<close> means that the loop, or a round of it, does not end.
\<close>

partial_function (option) go_loop :: "('s \<Rightarrow> (bool \<times> 's) option) \<Rightarrow> 's \<Rightarrow> 's option" where
  "go_loop body s = Option.bind (body s) (\<lambda>(again, s). if again then go_loop body s else Some s)"

lemma go_loop_invariant:
  assumes "go_loop body s = Some t" and "I s"
    and step: "\<And>s again t. I s \<Longrightarrow> body s = Some (again, t) \<Longrightarrow> I t"
  shows "I t"
proof -
  have "(\<forall>s again t. I s \<longrightarrow> body s = Some (again, t) \<longrightarrow> I t) \<longrightarrow> I s \<longrightarrow> I t"
  proof (rule go_loop.raw_induct [OF _ assms(1)], goal_cases)
    case (1 loop body s t)
    from 1(2) obtain again u where b: "body s = Some (again, u)"
      and r: "(if again then loop body u else Some u) = Some t"
      by (auto simp: bind_eq_Some_conv)
    then show ?case using 1(1) [of body u t] by (cases again) auto
  qed
  then show ?thesis using assms(2) step by blast
qed

lemma go_loop_terminates:
  fixes m :: "'s \<Rightarrow> nat"
  assumes "I s"
    and step: "\<And>s. I s \<Longrightarrow> \<exists>again t. body s = Some (again, t) \<and> (again \<longrightarrow> I t \<and> m t < m s)"
  shows "\<exists>t. go_loop body s = Some t"
  using assms(1)
proof (induction "m s" arbitrary: s rule: less_induct)
  case less
  obtain again t where b: "body s = Some (again, t)" "again \<longrightarrow> I t \<and> m t < m s"
    using step [OF less.prems] by blast
  show ?case
  proof (cases again)
    case True
    with b less.hyps [of t] show ?thesis by (subst go_loop.simps) simp
  next
    case False
    with b show ?thesis by (subst go_loop.simps) simp
  qed
qed

end
