(* ===== verification/Field_Interface.thy ===== *)
theory Field_Interface
  imports Prelude
begin

text \<open>
  The interface between \<^verbatim>\<open>gf256.go\<close> and its client \<^verbatim>\<open>matrix.go\<close>: a finite field of
  characteristic two, given by an addition, a multiplication and their neutral elements.
  The linear algebra the matrix code rests on is proved once, from the laws alone: dot
  products are bilinear, a homogeneous system with fewer equations than unknowns has a
  non-zero solution, and a polynomial with as many roots as coefficients is zero.
\<close>

locale char2_field =
  fixes add :: "'a::finite \<Rightarrow> 'a \<Rightarrow> 'a"
    and mul :: "'a \<Rightarrow> 'a \<Rightarrow> 'a"
    and zero :: 'a
    and one :: 'a
  assumes add_assoc: "add (add a b) c = add a (add b c)"
    and add_commute: "add a b = add b a"
    and add_zero: "add zero a = a"
    and add_self: "add a a = zero"
    and mul_assoc: "mul (mul a b) c = mul a (mul b c)"
    and mul_commute: "mul a b = mul b a"
    and mul_one: "mul one a = a"
    and distrib: "mul a (add b c) = add (mul a b) (mul a c)"
    and mul_inverse: "a \<noteq> zero \<Longrightarrow> \<exists>b. mul b a = one"
    and zero_neq_one: "zero \<noteq> one"
begin

lemma add_left_commute: "add a (add b c) = add b (add a c)"
  by (metis add_assoc add_commute)

lemma add_zero_right: "add a zero = a"
  by (metis add_zero add_commute)

lemma add_cancel: "add a (add a b) = b"
  by (metis add_assoc add_self add_zero)

lemma add_eq_zero_iff: "add a b = zero \<longleftrightarrow> a = b"
  by (metis add_cancel add_zero_right add_self)

lemma mul_zero: "mul a zero = zero"
  by (metis add_self distrib)

lemma mul_zero_left: "mul zero a = zero"
  by (metis mul_zero mul_commute)

lemma mul_eq_zero: "mul a b = zero \<Longrightarrow> a \<noteq> zero \<Longrightarrow> b = zero"
  by (metis mul_assoc mul_inverse mul_one mul_zero)

lemma mul_left_commute: "mul a (mul b c) = mul b (mul a c)"
  by (metis mul_assoc mul_commute)

lemma distrib_right: "mul (add b c) a = add (mul b a) (mul c a)"
  by (metis distrib mul_commute)

lemmas field_laws = add_assoc add_commute add_left_commute add_zero add_zero_right add_self
  add_cancel mul_assoc mul_commute mul_left_commute mul_one mul_zero mul_zero_left distrib
  distrib_right

fun ldot :: "'a list \<Rightarrow> 'a list \<Rightarrow> 'a" where
  "ldot (x # xs) (y # ys) = add (mul x y) (ldot xs ys)"
| "ldot _ _ = zero"

lemma ldot_Nil_right: "ldot xs [] = zero"
  by (cases xs) simp_all

lemma ldot_commute: "ldot xs ys = ldot ys xs"
  by (induction xs ys rule: ldot.induct) (auto simp: mul_commute ldot_Nil_right)

lemma ldot_add_left:
  "length u = length v \<Longrightarrow> ldot (map2 add u v) w = add (ldot u w) (ldot v w)"
proof (induction u v arbitrary: w rule: list_induct2)
  case (Cons x xs y ys)
  then show ?case by (cases w) (simp_all add: field_laws)
qed (simp add: add_self)

lemma ldot_add_right:
  "length u = length v \<Longrightarrow> ldot w (map2 add u v) = add (ldot w u) (ldot w v)"
  by (simp add: ldot_add_left ldot_commute [of w])

lemma ldot_scale_left: "ldot (map (mul c) u) w = mul c (ldot u w)"
  by (induction u w rule: ldot.induct) (simp_all add: field_laws)

lemma ldot_append:
  "length a = length c \<Longrightarrow> ldot (a @ b) (c @ d) = add (ldot a c) (ldot b d)"
  by (induction a c rule: list_induct2) (simp_all add: add_assoc add_zero)

lemma ldot_zeros: "ldot (replicate n zero) v = zero"
proof (induction n arbitrary: v)
  case (Suc n)
  then show ?case by (cases v) (simp_all add: mul_zero_left add_zero)
qed simp

lemma ldot_unit:
  "i < length v \<Longrightarrow> ldot ((replicate (length v) zero)[i := one]) v = v ! i"
proof (induction v arbitrary: i)
  case (Cons x v)
  then show ?case
    by (cases i) (simp_all add: ldot_zeros mul_one mul_zero_left add_zero add_zero_right)
qed simp

lemma map2_add_zeros:
  "length u = length v \<Longrightarrow> map2 add u v = replicate (length u) zero \<Longrightarrow> u = v"
  by (induction u v rule: list_induct2) (auto simp: add_eq_zero_iff)

text \<open>Fewer equations than unknowns: two vectors collide, their difference solves the system.\<close>

lemma kernel_exists:
  "\<exists>v. length v = Suc (length rows) \<and> v \<noteq> replicate (Suc (length rows)) zero \<and>
       (\<forall>row \<in> set rows. ldot row v = zero)"
proof -
  let ?n = "length rows"
  let ?V = "{v :: 'a list. set v \<subseteq> UNIV \<and> length v = Suc ?n}"
  let ?W = "{w :: 'a list. set w \<subseteq> UNIV \<and> length w = ?n}"
  let ?f = "\<lambda>v. map (\<lambda>row. ldot row v) rows"
  have two: "1 < card (UNIV :: 'a set)"
    using card_mono [of UNIV "{zero, one}"] zero_neq_one by simp
  have fin: "finite {v :: 'a list. set v \<subseteq> UNIV \<and> length v = k}" for k
    by (rule finite_lists_length_eq) simp
  have "card ?W < card ?V"
    using two by (subst (1 2) card_lists_length_eq) simp_all
  moreover have "?f ` ?V \<subseteq> ?W" by auto
  ultimately have "\<not> inj_on ?f ?V"
    using card_inj_on_le [of ?f ?V ?W] fin [of ?n] by linarith
  then obtain u v where uv: "length u = Suc ?n" "length v = Suc ?n" "u \<noteq> v" "?f u = ?f v"
    by (auto simp: inj_on_def)
  have "ldot row (map2 add u v) = zero" if "row \<in> set rows" for row
    using that uv by (simp add: ldot_add_right add_eq_zero_iff map_eq_conv)
  moreover have "map2 add u v \<noteq> replicate (Suc ?n) zero"
    using map2_add_zeros [of u v] uv by auto
  ultimately show ?thesis using uv by (intro exI [of _ "map2 add u v"]) auto
qed

text \<open>Polynomials as coefficient lists, lowest degree first, and division by a linear factor.\<close>

fun horner :: "'a list \<Rightarrow> 'a \<Rightarrow> 'a" where
  "horner [] x = zero"
| "horner (c # cs) x = add c (mul x (horner cs x))"

fun quot :: "'a list \<Rightarrow> 'a \<Rightarrow> 'a list" where
  "quot [] a = []"
| "quot (c # cs) a = (if cs = [] then [] else horner cs a # quot cs a)"

lemma length_quot: "length (quot cs a) = length cs - 1"
  by (induction cs) auto

lemma horner_quot:
  "add (horner cs x) (horner cs a) = mul (add x a) (horner (quot cs a) x)"
proof (induction cs)
  case (Cons c cs)
  show ?case
  proof (cases "cs = []")
    case False
    let ?r = "horner cs"
    have "add (horner (c # cs) x) (horner (c # cs) a) = add (mul x (?r x)) (mul a (?r a))"
      by (simp add: field_laws)
    also have "\<dots> = add (mul x (add (?r x) (?r a))) (mul (add x a) (?r a))"
      by (simp add: field_laws)
    also have "\<dots> = mul (add x a) (horner (quot (c # cs) a) x)"
      using False by (simp add: Cons.IH) (simp add: field_laws)
    finally show ?thesis .
  qed (simp add: field_laws)
qed (simp add: field_laws)

lemma quot_zero:
  "horner cs a = zero \<Longrightarrow> \<forall>q \<in> set (quot cs a). q = zero \<Longrightarrow> \<forall>c \<in> set cs. c = zero"
  by (induction cs) (auto simp: field_laws split: if_splits)

lemma many_roots_zero:
  "distinct xs \<Longrightarrow> length cs \<le> length xs \<Longrightarrow> \<forall>x \<in> set xs. horner cs x = zero \<Longrightarrow>
   \<forall>c \<in> set cs. c = zero"
proof (induction xs arbitrary: cs)
  case (Cons a xs)
  have "horner (quot cs a) x = zero" if x: "x \<in> set xs" for x
  proof -
    have "mul (add x a) (horner (quot cs a) x) = zero"
      using Cons.prems x horner_quot [of cs x a] by (simp add: add_zero)
    moreover have "add x a \<noteq> zero" using Cons.prems x by (auto simp: add_eq_zero_iff)
    ultimately show ?thesis by (rule mul_eq_zero)
  qed
  then have "\<forall>q \<in> set (quot cs a). q = zero"
    using Cons.prems Cons.IH [of "quot cs a"] by (simp add: length_quot)
  then show ?case using Cons.prems quot_zero [of cs a] by simp
qed simp

lemma ldot_powers:
  assumes "\<And>x. pow x 0 = one" and "\<And>x n. pow x (Suc n) = mul x (pow x n)"
  shows "ldot (map (pow x) [0..<length v]) v = horner v x"
proof -
  have shift: "map (pow x) [Suc 0..<Suc m] = map (mul x) (map (pow x) [0..<m])" for m
    by (rule nth_equalityI) (simp_all add: assms(2) del: upt_Suc)
  have "ldot (map (pow x) [0..<n]) v = horner (take n v) x" for n
  proof (induction v arbitrary: n)
    case (Cons c v)
    show ?case
    proof (cases n)
      case (Suc m)
      have "map (pow x) [0..<Suc m] = one # map (mul x) (map (pow x) [0..<m])"
        using shift [of m] by (simp add: upt_conv_Cons assms(1) del: upt_Suc)
      then show ?thesis using Suc Cons.IH [of m]
        by (simp add: ldot_scale_left mul_one del: upt_Suc map_map)
    qed simp
  qed (simp add: ldot_Nil_right)
  from this [of "length v"] show ?thesis by simp
qed

end

end
