(* ===== verification/Galois.thy ===== *)
theory Galois
  imports Field_Interface
begin

text \<open>
  The arithmetic of \<^verbatim>\<open>internal/galois/gf256.go\<close>: the tables that \<^verbatim>\<open>init\<close> builds and the
  table-driven operations of the field with 256 elements.
\<close>

section \<open>The model\<close>

definition PrimitivePoly :: nat where
  "PrimitivePoly = 0x11D"

text \<open>One turn of the first loop of \<^verbatim>\<open>init\<close>: the loop variable \<^verbatim>\<open>b\<close> is a Go \<^verbatim>\<open>int\<close>.\<close>

definition init_next :: "nat \<Rightarrow> nat" where
  "init_next b =
     (let b1 = push_bit 1 b
      in if b1 \<ge> 256 then (b1 XOR PrimitivePoly) AND 0xFF else b1)"

fun init_step :: "nat \<Rightarrow> nat \<times> byte list \<times> byte list \<Rightarrow> nat \<times> byte list \<times> byte list" where
  "init_step log (b, logT, expT) =
     (init_next b, logT[b := of_nat log], expT[log := of_nat b, log + 255 := of_nat b])"

definition init_tables :: "nat \<times> byte list \<times> byte list" where
  "init_tables = fold init_step [0..<255] (1, replicate 256 0, replicate 510 0)"

definition logTable :: "byte list" where
  "logTable = fst (snd init_tables)"

definition expTable :: "byte list" where
  "expTable = snd (snd init_tables)"

definition mulTable :: "byte list list" where
  "mulTable = map (\<lambda>a. map (\<lambda>c.
     if a = 0 \<or> c = 0 then 0 else expTable ! (unat (logTable ! a) + unat (logTable ! c)))
     [0..<256]) [0..<256]"

definition MulTable :: "byte \<Rightarrow> byte list" where
  "MulTable a = mulTable ! unat a"

definition Add :: "byte \<Rightarrow> byte \<Rightarrow> byte" where
  "Add a b = a XOR b"

definition Mul :: "byte \<Rightarrow> byte \<Rightarrow> byte" where
  "Mul a b = (if a = 0 \<or> b = 0 then 0
              else expTable ! (unat (logTable ! unat a) + unat (logTable ! unat b)))"

text \<open>\<open>None\<close> is the panic \<^verbatim>\<open>galois: division by zero\<close>.\<close>

definition Div :: "byte \<Rightarrow> byte \<Rightarrow> byte option" where
  "Div a b = (if a = 0 then Some 0
              else if b = 0 then None
              else let r = int (unat (logTable ! unat a)) - int (unat (logTable ! unat b));
                       r' = (if r < 0 then r + 255 else r)
                   in Some (expTable ! nat r'))"

text \<open>\<open>None\<close> is the panic \<^verbatim>\<open>galois: inverse of zero\<close>.\<close>

definition Inv :: "byte \<Rightarrow> byte option" where
  "Inv a = (if a = 0 then None else Some (expTable ! (255 - unat (logTable ! unat a))))"

definition Exp :: "byte \<Rightarrow> nat \<Rightarrow> byte" where
  "Exp a n = (if n = 0 then 1
              else if a = 0 then 0
              else expTable ! ((unat (logTable ! unat a) * n) mod 255))"

section \<open>Reference arithmetic\<close>

text \<open>Multiplication by the generator \<open>x\<close> modulo the primitive polynomial.\<close>

definition xtime :: "byte \<Rightarrow> byte" where
  "xtime a = (if bit a 7 then push_bit 1 a XOR 0x1D else push_bit 1 a)"

text \<open>Shift-and-add multiplication of polynomials modulo the primitive polynomial.\<close>

definition gf_mul :: "byte \<Rightarrow> byte \<Rightarrow> byte" where
  "gf_mul a b = fold (\<lambda>i acc. acc XOR (if bit a i then (xtime ^^ i) b else 0)) [0..<8] 0"

definition gpow :: "nat \<Rightarrow> byte" where
  "gpow i = (xtime ^^ i) 1"

fun xtimes :: "nat \<Rightarrow> byte \<Rightarrow> byte list" where
  "xtimes 0 a = []"
| "xtimes (Suc n) a = a # xtimes n (xtime a)"

section \<open>Multiplication by the generator is linear and invertible\<close>

lemma xtime_0 [simp]: "xtime 0 = 0"
  by (simp add: xtime_def)

lemma xtime_xor: "xtime (a XOR b) = xtime a XOR xtime b"
  by (simp add: xtime_def bit_xor_iff push_bit_xor xor.assoc xor.left_commute xor.commute)

lemma byte_less: "unat (a :: byte) < 256"
  using unsigned_less [where ?w = a and ?'a = nat] by simp

lemma byte_bit7: "bit (a :: byte) 7 \<longleftrightarrow> 128 \<le> unat a"
proof -
  have "bit a 7 \<longleftrightarrow> bit (unat a) 7" by (simp add: bit_unsigned_iff)
  also have "\<dots> \<longleftrightarrow> odd (unat a div 128)" by (simp add: bit_iff_odd)
  also have "\<dots> \<longleftrightarrow> 128 \<le> unat a"
  proof (cases "128 \<le> unat a")
    case True
    then have "unat a div 128 = 1" using byte_less [of a] by (simp add: div_nat_eqI)
    then show ?thesis using True by simp
  qed simp
  finally show ?thesis .
qed

lemma unat_double: "unat (a * 2 :: byte) = take_bit 8 (unat a * 2)"
  by (simp add: unat_word_ariths take_bit_eq_mod)

lemma xtime_zeroD:
  assumes "xtime a = 0"
  shows "a = 0"
proof -
  have e: "even (a * 2)" by simp
  have n: "\<not> bit a 7"
  proof
    assume "bit a 7"
    with assms have "a * 2 XOR 29 = 0" by (simp add: xtime_def)
    then have "odd (a * 2) \<longleftrightarrow> odd (29 :: byte)" by (metis even_xor_iff even_zero)
    with e show False by simp
  qed
  then have "a * 2 = 0" using assms by (simp add: xtime_def)
  moreover have "unat a < 128" using n by (simp add: byte_bit7)
  ultimately have "unat a * 2 = 0" using unat_double [of a] by (simp add: take_bit_eq_mod)
  then show ?thesis by (simp add: unsigned_eq_0_iff)
qed

lemma xtime_inj: "xtime a = xtime b \<Longrightarrow> a = b"
proof -
  assume "xtime a = xtime b"
  then have "xtime (a XOR b) = 0" by (simp add: xtime_xor)
  then have "a XOR b = 0" by (rule xtime_zeroD)
  then show "a = b" by (metis bit.xor_left_self xor.right_neutral)
qed

lemma xtime_pow_xor: "(xtime ^^ n) (a XOR b) = (xtime ^^ n) a XOR (xtime ^^ n) b"
  by (induction n) (simp_all add: xtime_xor)

lemma xtime_pow_0 [simp]: "(xtime ^^ n) 0 = 0"
  by (induction n) simp_all

lemma xtime_pow_inj: "(xtime ^^ n) a = (xtime ^^ n) b \<Longrightarrow> a = b"
  by (induction n) (auto dest: xtime_inj)

lemma init_next_xtime: "init_next (unat a) = unat (xtime a)"
proof -
  have m: "x AND 255 = take_bit 8 x" for x :: nat
    by (simp add: take_bit_eq_mask mask_eq_exp_minus_1)
  have x: "take_bit 8 (285 :: nat) = 29" by (simp add: take_bit_eq_mod)
  show ?thesis
  proof (cases "bit a 7")
    case True
    then show ?thesis using byte_bit7 [of a]
      by (simp add: init_next_def xtime_def PrimitivePoly_def Let_def push_bit_eq_mult m
          take_bit_xor x unsigned_xor_eq unat_double)
  next
    case False
    then have "unat a < 128" by (simp add: byte_bit7)
    then show ?thesis using False
      by (simp add: init_next_def xtime_def Let_def push_bit_eq_mult unat_double take_bit_eq_mod)
  qed
qed

section \<open>The generator has order 255\<close>

lemma xtimes_nth: "i < n \<Longrightarrow> xtimes n a ! i = (xtime ^^ i) a"
proof (induction n arbitrary: i a)
  case (Suc n)
  then show ?case by (cases i) (simp_all add: funpow_swap1)
qed simp

lemma length_xtimes [simp]: "length (xtimes n a) = n"
  by (induction n arbitrary: a) simp_all

lemma gpow_255: "gpow 255 = 1"
proof -
  have "last (xtimes 256 1) = 1" by code_simp
  moreover have "last (xtimes 256 1) = xtimes 256 1 ! 255"
    using last_conv_nth [of "xtimes 256 1"] length_xtimes [of 256 1] by fastforce
  ultimately show ?thesis using xtimes_nth [of 255 256 1] by (simp add: gpow_def)
qed

lemma gpow_neq_1:
  assumes "0 < k" "k < 255"
  shows "gpow k \<noteq> 1"
proof -
  have "1 \<notin> set (xtimes 254 (xtime 1))" by code_simp
  moreover have "xtimes 254 (xtime 1) ! (k - 1) \<in> set (xtimes 254 (xtime 1))"
    using assms by (intro nth_mem) simp
  moreover have "xtimes 254 (xtime 1) ! (k - 1) = gpow k"
    using assms by (cases k) (simp_all add: xtimes_nth gpow_def funpow_swap1)
  ultimately show ?thesis by auto
qed

lemma gpow_add: "(xtime ^^ m) (gpow n) = gpow (m + n)"
  by (simp add: gpow_def funpow_add)

lemma gpow_0 [simp]: "gpow 0 = 1"
  by (simp add: gpow_def)

lemma gpow_nonzero [simp]: "gpow n \<noteq> 0"
  using xtime_pow_inj [of n 1 0] by (auto simp: gpow_def)

lemma gpow_add_255 [simp]: "gpow (n + 255) = gpow n"
  by (metis gpow_255 gpow_add gpow_def)

lemma gpow_mod: "gpow (n mod 255) = gpow n"
proof (induction n rule: less_induct)
  case (less n)
  show ?case
  proof (cases "n < 255")
    case False
    then have "gpow (n - 255) = gpow n" using gpow_add_255 [of "n - 255"] by simp
    then show ?thesis using False less [of "n - 255"] by (simp add: le_mod_geq)
  qed simp
qed

lemma gpow_inj:
  assumes "gpow i = gpow j" "i < 255" "j < 255"
  shows "i = j"
proof -
  have *: False if "gpow i = gpow j" "i < j" "j < 255" for i j
  proof -
    have "(xtime ^^ i) (gpow (j - i)) = (xtime ^^ i) 1"
      using that by (simp add: gpow_add gpow_def [symmetric])
    then have "gpow (j - i) = 1" by (rule xtime_pow_inj)
    then show False using gpow_neq_1 [of "j - i"] that by simp
  qed
  show ?thesis using * [of i j] * [of j i] assms by (cases i j rule: linorder_cases) auto
qed

lemma gpow_surj:
  assumes "a \<noteq> 0"
  obtains i where "i < 255" "a = gpow i"
proof -
  have inj: "inj_on gpow {..<255}" by (auto intro!: inj_onI dest: gpow_inj)
  have "card (gpow ` {..<255}) = 255" using inj by (simp add: card_image)
  moreover have "card (UNIV - {0 :: byte}) = 255" by (simp add: card_word card_Diff_singleton)
  ultimately have "gpow ` {..<255} = UNIV - {0}"
    by (intro card_subset_eq) auto
  then have "a \<in> gpow ` {..<255}" using assms by simp
  then show ?thesis using that by auto
qed

section \<open>What the tables hold\<close>

lemma init_tables_inv:
  "n \<le> 255 \<Longrightarrow>
   (case fold init_step [0..<n] (1, replicate 256 0, replicate 510 0) of (b, logT, expT) \<Rightarrow>
      b = unat (gpow n) \<and> length logT = 256 \<and> length expT = 510 \<and>
      (\<forall>i<n. expT ! i = gpow i \<and> expT ! (i + 255) = gpow i \<and>
             logT ! unat (gpow i) = of_nat i))"
proof (induction n)
  case 0
  then show ?case by simp
next
  case (Suc n)
  obtain b logT expT where f:
    "fold init_step [0..<n] (1, replicate 256 0, replicate 510 0) = (b, logT, expT)"
    by (metis prod_cases3)
  have b: "b = unat (gpow n)" and l: "length logT = 256" "length expT = 510"
    and inv: "\<forall>i<n. expT ! i = gpow i \<and> expT ! (i + 255) = gpow i \<and>
                   logT ! unat (gpow i) = of_nat i"
    using Suc f by auto
  have ne: "unat (gpow i) \<noteq> unat (gpow n)" if "i < n" for i
    using that Suc.prems gpow_inj [of i n] by (auto simp: word_unat_eq_iff)
  have ne': "unat (gpow n) \<noteq> unat (gpow i)" if "i < n" for i
    using ne [OF that] by simp
  have g: "fold init_step [0..<Suc n] (1, replicate 256 0, replicate 510 0) =
    (unat (gpow (Suc n)), logT[b := of_nat n], expT[n := of_nat b, n + 255 := of_nat b])"
    using f b by (simp add: init_next_xtime gpow_def)
  show ?case unfolding g using l inv b Suc.prems ne ne'
    by (auto simp: nth_list_update less_Suc_eq byte_less)
qed

lemma tables:
  shows length_logTable: "length logTable = 256"
    and length_expTable: "length expTable = 510"
    and expTable_nth: "i < 510 \<Longrightarrow> expTable ! i = gpow i"
    and logTable_gpow: "i < 255 \<Longrightarrow> unat (logTable ! unat (gpow i)) = i"
proof -
  have inv: "length logTable = 256 \<and> length expTable = 510 \<and>
      (\<forall>i<255. expTable ! i = gpow i \<and> expTable ! (i + 255) = gpow i \<and>
             logTable ! unat (gpow i) = of_nat i)"
    using init_tables_inv [of 255, folded init_tables_def]
    by (simp add: case_prod_beta logTable_def expTable_def)
  then show "length logTable = 256" "length expTable = 510" by simp_all
  show "unat (logTable ! unat (gpow i)) = i" if "i < 255"
    using inv that by (simp add: unat_of_nat)
  have e: "expTable ! i = gpow i" "expTable ! (i + 255) = gpow i" if "i < 255" for i
    using inv that by simp_all
  show "expTable ! i = gpow i" if "i < 510"
    using e [of i] e [of "i - 255"] gpow_add_255 [of "i - 255"] that by (cases "i < 255") auto
qed

lemma Mul_gpow: "i < 255 \<Longrightarrow> j < 255 \<Longrightarrow> Mul (gpow i) (gpow j) = gpow (i + j)"
  by (simp add: Mul_def logTable_gpow expTable_nth)

lemma Mul_gpow_mod: "Mul (gpow i) (gpow j) = gpow (i + j)"
  using Mul_gpow [of "i mod 255" "j mod 255"]
  by (metis gpow_mod mod_add_eq mod_less_divisor zero_less_numeral)

section \<open>The laws of the field\<close>

lemma Mul_zero [simp, gf_simps]: "Mul 0 a = 0" "Mul a 0 = 0"
  by (simp_all add: Mul_def)

lemma Mul_xtime: "Mul (gpow i) b = (xtime ^^ i) b"
proof (cases "b = 0")
  case False
  then obtain j where "b = gpow j" by (metis gpow_surj)
  then show ?thesis by (simp add: Mul_gpow_mod gpow_add)
qed simp

lemma Mul_commute [gf_simps]: "Mul a b = Mul b a"
  by (simp add: Mul_def add.commute disj_commute)

lemma Mul_one [simp, gf_simps]: "Mul 1 a = a" "Mul a 1 = a"
  using Mul_xtime [of 0 a] Mul_commute [of a 1] by simp_all

lemma Mul_eq_0 [simp]: "Mul a b = 0 \<longleftrightarrow> a = 0 \<or> b = 0"
  by (metis Mul_gpow_mod Mul_zero gpow_nonzero gpow_surj)

lemma Mul_assoc [gf_simps]: "Mul (Mul a b) c = Mul a (Mul b c)"
proof (cases "a = 0 \<or> b = 0 \<or> c = 0")
  case False
  then obtain i j k where "a = gpow i" "b = gpow j" "c = gpow k" by (metis gpow_surj)
  then show ?thesis by (simp add: Mul_gpow_mod add.assoc)
qed auto

lemma Mul_distrib [gf_simps]: "Mul a (b XOR c) = Mul a b XOR Mul a c"
proof (cases "a = 0")
  case False
  then obtain i where "a = gpow i" by (metis gpow_surj)
  then show ?thesis by (simp add: Mul_xtime xtime_pow_xor)
qed simp

lemma Inv_correct:
  assumes "a \<noteq> 0"
  obtains b where "Inv a = Some b" "Mul a b = 1"
proof -
  obtain i where i: "i < 255" "a = gpow i" using assms by (metis gpow_surj)
  have "Inv a = Some (gpow (255 - i))"
    using i by (simp add: Inv_def logTable_gpow expTable_nth)
  moreover have "Mul a (gpow (255 - i)) = 1"
    using i by (simp add: Mul_gpow_mod gpow_255)
  ultimately show ?thesis by (rule that)
qed

lemma Div_correct:
  assumes "b \<noteq> 0"
  obtains q where "Div a b = Some q" "Mul q b = a"
proof (cases "a = 0")
  case True
  then have "Div a b = Some 0" by (simp add: Div_def)
  then show ?thesis using True that by simp
next
  case False
  obtain i j where ij: "i < 255" "a = gpow i" "j < 255" "b = gpow j"
    using False assms by (metis gpow_surj)
  have d: "Div a b = Some (gpow (if i < j then i + 255 - j else i - j))"
    using ij by (auto simp: Div_def logTable_gpow expTable_nth Let_def nat_diff_distrib
        nat_int_add intro!: arg_cong [where f = gpow])
  have "Mul (gpow (if i < j then i + 255 - j else i - j)) b = a"
    using ij by (auto simp: Mul_gpow_mod)
  with d show ?thesis by (rule that)
qed

lemma Exp_0 [simp]: "Exp a 0 = 1"
  by (simp add: Exp_def)

lemma Exp_Suc: "Exp a (Suc n) = Mul a (Exp a n)"
proof (cases "a = 0")
  case False
  then obtain i where i: "i < 255" "a = gpow i" by (metis gpow_surj)
  have e: "Exp a n = gpow (i * n)" for n
    using i by (simp add: Exp_def logTable_gpow expTable_nth gpow_mod less_trans
        [OF mod_less_divisor])
  show ?thesis using e [of "Suc n"] e [of n] i by (simp add: Mul_gpow_mod)
qed (simp add: Exp_def)

section \<open>The tables compute polynomial multiplication\<close>

lemma take_bit_Suc_xor:
  "take_bit (Suc n) a = take_bit n a XOR (if bit a n then 2 ^ n else 0)" for a :: byte
  by (rule bit_eqI) (auto simp: bit_take_bit_iff bit_xor_iff bit_exp_iff less_Suc_eq)

lemma take_bit_fold:
  "take_bit n a = fold (\<lambda>i acc. acc XOR (if bit a i then 2 ^ i else 0)) [0..<n] 0" for a :: byte
  by (induction n) (simp_all add: take_bit_Suc_xor)

lemma gpow_small:
  assumes "i < 8"
  shows "gpow i = 2 ^ i"
proof -
  have "xtimes 8 1 = map (\<lambda>i. 2 ^ i) [0..<8]" by code_simp
  then have "xtimes 8 1 ! i = 2 ^ i" using assms by simp
  then show ?thesis using assms by (simp add: xtimes_nth gpow_def)
qed

lemma Mul_fold:
  "n \<le> 8 \<Longrightarrow> Mul (fold (\<lambda>i acc. acc XOR (if bit a i then 2 ^ i else 0)) [0..<n] 0) b =
     fold (\<lambda>i acc. acc XOR (if bit a i then (xtime ^^ i) b else 0)) [0..<n] 0"
proof (induction n)
  case (Suc n)
  have "Mul (2 ^ n) b = (xtime ^^ n) b"
    using Suc.prems by (simp add: gpow_small [symmetric] Mul_xtime)
  then show ?case using Suc by (simp add: Mul_distrib Mul_commute [of _ b])
qed simp

lemma Mul_eq_gf_mul [code]: "Mul a b = gf_mul a b"
proof -
  have "take_bit 8 a = a" by (rule bit_eqI) (auto simp: bit_take_bit_iff dest: bit_imp_le_length)
  then show ?thesis using Mul_fold [of 8 a b] take_bit_fold [of 8 a] by (simp add: gf_mul_def)
qed

lemma MulTable_Mul: "MulTable a ! unat b = Mul a b" "length (MulTable a) = 256"
proof -
  have "unat a = 0 \<longleftrightarrow> a = 0" "unat b = 0 \<longleftrightarrow> b = 0" by (simp_all add: unsigned_eq_0_iff)
  then show "MulTable a ! unat b = Mul a b" "length (MulTable a) = 256"
    by (simp_all add: MulTable_def mulTable_def Mul_def byte_less)
qed

lemma Exp_add: "Exp a (m + n) = Mul (Exp a m) (Exp a n)"
  by (induction m) (simp_all add: Exp_Suc Mul_assoc)

lemma Exp_255:
  assumes "a \<noteq> 0"
  shows "Exp a 255 = 1"
proof -
  obtain i where "i < 255" "a = gpow i" using assms by (metis gpow_surj)
  then show ?thesis by (simp add: Exp_def logTable_gpow expTable_nth)
qed

text \<open>Equations that evaluate without the tables.\<close>

lemma Exp_code [code]: "Exp a 0 = 1" "Exp a (Suc n) = Mul a (Exp a n)"
  by (simp_all add: Exp_Suc)

definition pow254 :: "byte \<Rightarrow> byte" where
  "pow254 b = (let b2 = Mul b b; b4 = Mul b2 b2; b8 = Mul b4 b4; b16 = Mul b8 b8;
                   b32 = Mul b16 b16; b64 = Mul b32 b32; b128 = Mul b64 b64
               in Mul b128 (Mul b64 (Mul b32 (Mul b16 (Mul b8 (Mul b4 b2))))))"

lemma pow254_Exp: "pow254 b = Exp b 254"
proof -
  have sq: "Mul (Exp b n) (Exp b n) = Exp b (2 * n)" for n
    by (simp add: Exp_add [symmetric] mult_2)
  have "Mul b b = Exp b 2" using Exp_Suc [of b 1] Exp_Suc [of b 0] by (simp add: numeral_2_eq_2)
  then show ?thesis by (simp add: pow254_def Let_def sq Exp_add [symmetric])
qed

lemma Div_code [code]:
  "Div a b = (if a = 0 then Some 0 else if b = 0 then None else Some (Mul a (pow254 b)))"
proof (cases "b = 0")
  case True
  then show ?thesis by (simp add: Div_def)
next
  case False
  obtain q where q: "Div a b = Some q" "Mul q b = a" using False by (rule Div_correct)
  have "q = Mul q (Exp b 255)" using False by (simp add: Exp_255)
  also have "Exp b 255 = Mul b (Exp b 254)" using Exp_Suc [of b 254] by simp
  finally have "q = Mul a (Exp b 254)" using q(2) by (simp add: Mul_assoc [symmetric])
  then show ?thesis using q(1) False by (simp add: Div_def pow254_Exp)
qed

section \<open>The code's arithmetic provides the field interface\<close>

interpretation gf: char2_field "(XOR) :: byte \<Rightarrow> byte \<Rightarrow> byte" Mul 0 1
proof (unfold_locales, goal_cases)
  case (2 a b)
  show ?case by (rule xor.commute)
next
  case (6 a b)
  show ?case by (rule Mul_commute)
next
  case (9 a)
  then show ?case by (metis Inv_correct Mul_commute)
qed (simp_all add: xor.assoc Mul_assoc Mul_distrib)

section \<open>Properties\<close>

text \<open>Division and inverse panic exactly on a zero divisor and are otherwise unique.\<close>

lemma Div_Inv_correct:
  "(Div a b = None \<longleftrightarrow> a \<noteq> 0 \<and> b = 0) \<and> (Inv b = None \<longleftrightarrow> b = 0) \<and>
   (b \<noteq> 0 \<longrightarrow> (\<forall>q. Div a b = Some q \<longleftrightarrow> Mul q b = a) \<and> Inv b = Div 1 b)"
proof (cases "b = 0")
  case True
  then show ?thesis by (simp add: Div_def Inv_def)
next
  case False
  have unique: "q = q'" if "Mul q b = Mul q' b" for q q'
  proof -
    have "Mul b (q XOR q') = Mul q b XOR Mul q' b"
      by (simp only: Mul_distrib Mul_commute [of b])
    then have "q XOR q' = 0" using that False by simp
    then show ?thesis by (simp add: gf.add_eq_zero_iff)
  qed
  obtain q where q: "Div a b = Some q" "Mul q b = a" using False by (rule Div_correct)
  obtain r where r: "Div 1 b = Some r" "Mul r b = 1" using False by (rule Div_correct)
  obtain s where s: "Inv b = Some s" "Mul b s = 1" using False by (rule Inv_correct)
  have "s = r" using unique [of s r] r(2) s(2) Mul_commute [of b s] by simp
  moreover have "Div a b = Some q' \<longleftrightarrow> Mul q' b = a" for q'
    using q unique [of q' q] by auto
  ultimately show ?thesis using False q r(1) s(1) by simp
qed

text \<open>
  Property C17. The log/exp tables that \<^verbatim>\<open>init\<close> builds make \<^verbatim>\<open>Mul\<close>, and every row
  that \<^verbatim>\<open>MulTable\<close> hands out, compute the product of two bytes as polynomials over
  GF(2) modulo the primitive polynomial 0x11D, for all 65536 pairs of bytes. \<^verbatim>\<open>Div\<close> and
  \<^verbatim>\<open>Inv\<close> are the division and the inverse of that product: \<^verbatim>\<open>Inv\<close> panics exactly on zero and \<^verbatim>\<open>Div\<close>
  exactly on a zero divisor of a non-zero dividend. Zero divided by anything, by zero too, is zero. By
  any other divisor, the quotient times the divisor is the dividend, and no other byte has that
  property.
\<close>

theorem field_operations:
  "Mul a b = gf_mul a b \<and> MulTable a ! unat b = gf_mul a b \<and> length (MulTable a) = 256 \<and>
   (Div a b = None \<longleftrightarrow> a \<noteq> 0 \<and> b = 0) \<and> Div 0 b = Some 0 \<and> (Inv b = None \<longleftrightarrow> b = 0) \<and>
   (b \<noteq> 0 \<longrightarrow> (\<forall>q. Div a b = Some q \<longleftrightarrow> gf_mul q b = a) \<and> Inv b = Div 1 b)"
proof -
  have "Div 0 b = Some 0" by (simp add: Div_def)
  then show ?thesis using Mul_eq_gf_mul MulTable_Mul Div_Inv_correct [of a b] by metis
qed

theorem field_operations_witness:
  "(0x53 :: byte) \<noteq> 0 \<and> (\<forall>q. Div 0xCA 0x53 = Some q \<longleftrightarrow> gf_mul q 0x53 = 0xCA) \<and>
   Inv 0x53 = Div 1 0x53"
  using field_operations [of "0xCA" "0x53"] by simp

end
