(* ===== verification/Gf_Matrix.thy ===== *)
theory Gf_Matrix
  imports Galois
begin

text \<open>
  \<^verbatim>\<open>internal/galois/matrix.go\<close>: matrices over GF(256) as lists of rows, Gauss-Jordan
  elimination and inversion. Every \<^verbatim>\<open>Matrix\<close> of the code is built by \<^verbatim>\<open>NewMatrix\<close>, so all
  its rows have the same length; \<open>is_mat\<close> states it.
\<close>

section \<open>The model\<close>

type_synonym Matrix = "byte list list"

datatype mat_error =
    ErrSingular
  | PanicDimMismatch
  | PanicRowMismatch
  | PanicNonSquare
  | PanicIndex
  | PanicDivZero

definition NewMatrix :: "nat \<Rightarrow> nat \<Rightarrow> Matrix" where
  "NewMatrix rows cols = replicate rows (replicate cols 0)"

definition Identity :: "nat \<Rightarrow> Matrix" where
  "Identity n = map (\<lambda>i. (NewMatrix n n ! i)[i := 1]) [0..<n]"

definition NewVandermonde :: "nat \<Rightarrow> nat \<Rightarrow> Matrix" where
  "NewVandermonde rows cols = map (\<lambda>r. map (\<lambda>c. Exp (of_nat r) c) [0..<cols]) [0..<rows]"

definition Rows :: "Matrix \<Rightarrow> nat" where
  "Rows m = length m"

definition Cols :: "Matrix \<Rightarrow> nat" where
  "Cols m = (if m = [] then 0 else length (m ! 0))"

definition Clone :: "Matrix \<Rightarrow> Matrix" where
  "Clone m = map (\<lambda>r. m ! r) [0..<Rows m]"

definition Multiply :: "Matrix \<Rightarrow> Matrix \<Rightarrow> mat_error + Matrix" where
  "Multiply m rhs =
     (if Cols m \<noteq> Rows rhs then Inl PanicDimMismatch
      else Inr (map (\<lambda>r. map (\<lambda>c.
             fold (\<lambda>i v. v XOR Mul (m ! r ! i) (rhs ! i ! c)) [0..<Cols m] 0)
             [0..<Cols rhs]) [0..<Rows m]))"

definition Augment :: "Matrix \<Rightarrow> Matrix \<Rightarrow> mat_error + Matrix" where
  "Augment m rhs =
     (if Rows m \<noteq> Rows rhs then Inl PanicRowMismatch
      else Inr (map (\<lambda>r. m ! r @ rhs ! r) [0..<Rows m]))"

definition SubMatrix :: "Matrix \<Rightarrow> nat \<Rightarrow> nat \<Rightarrow> nat \<Rightarrow> nat \<Rightarrow> mat_error + Matrix" where
  "SubMatrix m r0 c0 r1 c1 =
     (if r1 < r0 then Inl PanicIndex
      else if r0 = r1 then Inr []
      else if c1 < c0 \<or> Rows m < r1 \<or> Cols m < c1 then Inl PanicIndex
      else Inr (map (\<lambda>r. subslice c0 c1 (m ! r)) [r0..<r1]))"

definition SwapRows :: "Matrix \<Rightarrow> nat \<Rightarrow> nat \<Rightarrow> Matrix" where
  "SwapRows m r1 r2 = (if r1 = r2 then m else m[r1 := m ! r2, r2 := m ! r1])"

text \<open>The search for a pivot row (lines 102 to 109).\<close>

definition pivot_swap :: "nat \<Rightarrow> Matrix \<Rightarrow> Matrix" where
  "pivot_swap r m =
     (if m ! r ! r = 0
      then (case find (\<lambda>rb. m ! rb ! r \<noteq> 0) [r + 1..<Rows m] of
              None \<Rightarrow> m
            | Some rb \<Rightarrow> SwapRows m r rb)
      else m)"

text \<open>Scaling the pivot row (lines 113 to 118).\<close>

definition scale_row :: "nat \<Rightarrow> Matrix \<Rightarrow> mat_error + Matrix" where
  "scale_row r m =
     (if m ! r ! r \<noteq> 1
      then (case Div 1 (m ! r ! r) of
              None \<Rightarrow> Inl PanicDivZero
            | Some scale \<Rightarrow> Inr (m[r := map (Mul scale) (m ! r)]))
      else Inr m)"

text \<open>
  Clearing column \<open>p\<close> of row \<open>dst\<close> with the pivot row \<open>p\<close>: the body of both inner
  loops (lines 120 to 125 and 130 to 135).
\<close>

definition clear_row :: "nat \<Rightarrow> nat \<Rightarrow> Matrix \<Rightarrow> Matrix" where
  "clear_row p dst m =
     (if m ! dst ! p \<noteq> 0
      then let scale = m ! dst ! p
           in m[dst := map2 (\<lambda>x y. x XOR Mul scale y) (m ! dst) (m ! p)]
      else m)"

definition forward_step :: "nat \<Rightarrow> Matrix \<Rightarrow> mat_error + Matrix" where
  "forward_step r m =
     (if Cols m \<le> r then Inl PanicIndex
      else let m1 = pivot_swap r m
           in if m1 ! r ! r = 0 then Inl ErrSingular
              else case scale_row r m1 of
                     Inl e \<Rightarrow> Inl e
                   | Inr m2 \<Rightarrow> Inr (fold (clear_row r) [r + 1..<Rows m2] m2))"

definition GaussianElim :: "Matrix \<Rightarrow> mat_error + Matrix" where
  "GaussianElim m =
     (case for_each forward_step [0..<Rows m] m of
        Inl e \<Rightarrow> Inl e
      | Inr m1 \<Rightarrow> Inr (fold (\<lambda>d m. fold (clear_row d) [0..<d] m) [0..<Rows m] m1))"

definition Inverse :: "Matrix \<Rightarrow> mat_error + Matrix" where
  "Inverse m =
     (if Rows m \<noteq> Cols m then Inl PanicNonSquare
      else let n = Rows m
           in case Augment m (Identity n) of
                Inl e \<Rightarrow> Inl e
              | Inr work \<Rightarrow>
                  (case GaussianElim work of
                     Inl e \<Rightarrow> Inl e
                   | Inr w \<Rightarrow> SubMatrix w 0 n n (2 * n)))"

section \<open>Matrices as linear maps\<close>

definition is_mat :: "nat \<Rightarrow> nat \<Rightarrow> Matrix \<Rightarrow> bool" where
  "is_mat r c m \<longleftrightarrow> length m = r \<and> (\<forall>row \<in> set m. length row = c)"

fun dot :: "byte list \<Rightarrow> byte list \<Rightarrow> byte" where
  "dot (x # xs) (y # ys) = Mul x y XOR dot xs ys"
| "dot _ _ = 0"

definition mv :: "Matrix \<Rightarrow> byte list \<Rightarrow> byte list" where
  "mv m v = map (\<lambda>row. dot row v) m"

definition orth :: "Matrix \<Rightarrow> byte list \<Rightarrow> bool" where
  "orth m x \<longleftrightarrow> (\<forall>i < length m. dot (m ! i) x = 0)"

lemma ldot_dot: "gf.ldot xs ys = dot xs ys"
  by (induction xs ys rule: dot.induct) (simp_all add: gf.ldot_Nil_right)

lemmas dot_commute = gf.ldot_commute [unfolded ldot_dot]
lemmas dot_add_left = gf.ldot_add_left [unfolded ldot_dot]
lemmas dot_add_right = gf.ldot_add_right [unfolded ldot_dot]
lemmas dot_scale_left = gf.ldot_scale_left [unfolded ldot_dot]
lemmas dot_append = gf.ldot_append [unfolded ldot_dot]
lemmas dot_zeros = gf.ldot_zeros [unfolded ldot_dot]
lemmas dot_unit = gf.ldot_unit [unfolded ldot_dot]
lemmas dot_kernel_exists = gf.kernel_exists [unfolded ldot_dot]

lemma xor_eq_0_iff: "a XOR b = 0 \<longleftrightarrow> a = b" for a b :: byte
  by (rule gf.add_eq_zero_iff)

lemma length_mv [simp, len_simps]: "length (mv m v) = length m"
  by (simp add: mv_def)

lemma mv_nth [simp]: "i < length m \<Longrightarrow> mv m v ! i = dot (m ! i) v"
  by (simp add: mv_def)

lemma is_mat_nth: "is_mat r c m \<Longrightarrow> i < r \<Longrightarrow> length (m ! i) = c"
  by (auto simp: is_mat_def)

lemma is_mat_update:
  "is_mat r c m \<Longrightarrow> length row = c \<Longrightarrow> is_mat r c (m[i := row])"
  by (auto simp: is_mat_def dest: set_update_subset_insert [THEN subsetD])

lemma is_mat_Cols: "is_mat r c m \<Longrightarrow> 0 < r \<Longrightarrow> Cols m = c"
  by (auto simp: is_mat_def Cols_def)

lemma is_mat_Rows: "is_mat r c m \<Longrightarrow> Rows m = r"
  by (auto simp: is_mat_def Rows_def)

section \<open>Row operations keep the solution space\<close>

lemma orth_set: "orth m x \<longleftrightarrow> (\<forall>row \<in> set m. dot row x = 0)"
  by (simp add: orth_def all_set_conv_all_nth)

lemma orth_update:
  "k < length m \<Longrightarrow> orth (m[k := row]) x \<longleftrightarrow>
     dot row x = 0 \<and> (\<forall>i < length m. i \<noteq> k \<longrightarrow> dot (m ! i) x = 0)"
  by (auto simp: orth_def nth_list_update)

lemma orth_split:
  "k < length m \<Longrightarrow>
   orth m x \<longleftrightarrow> dot (m ! k) x = 0 \<and> (\<forall>i < length m. i \<noteq> k \<longrightarrow> dot (m ! i) x = 0)"
  by (auto simp: orth_def)

lemma orth_SwapRows:
  "i < length m \<Longrightarrow> j < length m \<Longrightarrow> orth (SwapRows m i j) x \<longleftrightarrow> orth m x"
  by (simp add: orth_set SwapRows_def)

lemma dot_map2_clear:
  "length u = length v \<Longrightarrow>
   dot (map2 (\<lambda>x y. x XOR Mul c y) u v) w = dot u w XOR Mul c (dot v w)"
  using dot_add_left [of u "map (Mul c) v" w] dot_scale_left [of c v w]
  by (simp add: zip_map2 case_prod_beta' comp_def)

lemma orth_clear_row:
  assumes "is_mat r c m" "p < r" "dst < r" "p \<noteq> dst"
  shows "orth (clear_row p dst m) x \<longleftrightarrow> orth m x"
proof -
  have l: "length (m ! dst) = length (m ! p)" "length m = r"
    using assms by (auto simp: is_mat_nth is_mat_def)
  have d: "dot (map2 (\<lambda>x y. x XOR Mul k y) (m ! dst) (m ! p)) x =
           dot (m ! dst) x XOR Mul k (dot (m ! p) x)" for k
    using l by (simp add: dot_map2_clear)
  have p: "dot (m ! p) x = 0" if "\<forall>i < r. i \<noteq> dst \<longrightarrow> dot (m ! i) x = 0"
    using that assms by blast
  show ?thesis
    using assms(3) l d p by (auto simp: clear_row_def Let_def orth_update orth_split [of dst m])
qed

section \<open>Elimination\<close>

definition tri :: "nat \<Rightarrow> Matrix \<Rightarrow> bool" where
  "tri k m \<longleftrightarrow> (\<forall>c < k. m ! c ! c = 1 \<and> (\<forall>i. c < i \<longrightarrow> i < length m \<longrightarrow> m ! i ! c = 0))"

lemma length_clear_row [simp, len_simps]: "length (clear_row p dst m) = length m"
  by (simp add: clear_row_def Let_def)

lemma is_mat_clear_row:
  "is_mat r c m \<Longrightarrow> p < r \<Longrightarrow> dst < r \<Longrightarrow> is_mat r c (clear_row p dst m)"
  by (auto simp: clear_row_def Let_def is_mat_nth intro!: is_mat_update)

lemma clear_row_entry:
  assumes "is_mat r w m" "p < r" "dst < r" "c < w" "i < r"
  shows "clear_row p dst m ! i ! c =
           (if i = dst then m ! i ! c XOR Mul (m ! i ! p) (m ! p ! c) else m ! i ! c)"
proof -
  have l: "length (m ! dst) = w" "length (m ! p) = w" "length m = r"
    using assms by (auto simp: is_mat_nth is_mat_def)
  show ?thesis using assms l by (auto simp: clear_row_def Let_def nth_list_update)
qed

lemma fold_clear:
  assumes "is_mat r w m" "p < r" "distinct ks" "p \<notin> set ks" "\<forall>k \<in> set ks. k < r" "p < w"
  shows "is_mat r w (fold (clear_row p) ks m) \<and>
         (\<forall>x. orth (fold (clear_row p) ks m) x \<longleftrightarrow> orth m x) \<and>
         (\<forall>i < r. \<forall>c < w. fold (clear_row p) ks m ! i ! c =
            (if i \<in> set ks then m ! i ! c XOR Mul (m ! i ! p) (m ! p ! c) else m ! i ! c))"
  using assms
proof (induction ks arbitrary: m)
  case (Cons k ks)
  let ?m = "clear_row p k m"
  have m: "is_mat r w ?m" using Cons.prems by (intro is_mat_clear_row) auto
  have e: "?m ! i ! c = (if i = k then m ! i ! c XOR Mul (m ! i ! p) (m ! p ! c) else m ! i ! c)"
    if "i < r" "c < w" for i c
    using Cons.prems that by (intro clear_row_entry) auto
  have "orth ?m x \<longleftrightarrow> orth m x" for x
    using Cons.prems by (intro orth_clear_row) auto
  then show ?case using Cons.IH [of ?m] m e Cons.prems by auto
qed simp

lemma pivot_swap_props:
  assumes "is_mat n w m" "r < n" "n \<le> w" "tri r m"
  shows "is_mat n w (pivot_swap r m)" "tri r (pivot_swap r m)"
    and "orth (pivot_swap r m) x \<longleftrightarrow> orth m x"
    and "pivot_swap r m ! r ! r = 0 \<Longrightarrow> r \<le> i \<Longrightarrow> i < n \<Longrightarrow> m ! i ! r = 0"
proof -
  have ln: "length m = n" using assms by (simp add: is_mat_def)
  have *: "is_mat n w (pivot_swap r m) \<and> tri r (pivot_swap r m) \<and>
    (\<forall>x. orth (pivot_swap r m) x \<longleftrightarrow> orth m x) \<and>
    (pivot_swap r m ! r ! r = 0 \<longrightarrow> (\<forall>i. r \<le> i \<longrightarrow> i < n \<longrightarrow> m ! i ! r = 0))"
  proof (cases "find (\<lambda>rb. m ! rb ! r \<noteq> 0) [r + 1..<Rows m]")
    case None
    then have "\<forall>i. r < i \<longrightarrow> i < n \<longrightarrow> m ! i ! r = 0"
      by (auto simp: find_None_iff Rows_def ln)
    moreover have "pivot_swap r m = m" using None by (simp add: pivot_swap_def)
    ultimately show ?thesis using assms by (auto simp: le_less)
  next
    case (Some rb)
    then have rb: "r < rb" "rb < n" "m ! rb ! r \<noteq> 0"
      by (auto simp: find_Some_iff Rows_def ln)
    have t: "tri r (SwapRows m r rb)"
      using assms rb by (auto simp: tri_def SwapRows_def nth_list_update ln)
    have "is_mat n w (SwapRows m r rb)"
      using assms rb by (auto simp: SwapRows_def is_mat_nth intro!: is_mat_update)
    moreover have "SwapRows m r rb ! r ! r \<noteq> 0"
      using rb assms by (simp add: SwapRows_def nth_list_update ln)
    ultimately show ?thesis
      using assms rb Some t orth_SwapRows [of r m rb] by (auto simp: pivot_swap_def ln)
  qed
  then show "is_mat n w (pivot_swap r m)" "tri r (pivot_swap r m)"
    "orth (pivot_swap r m) x \<longleftrightarrow> orth m x"
    "pivot_swap r m ! r ! r = 0 \<Longrightarrow> r \<le> i \<Longrightarrow> i < n \<Longrightarrow> m ! i ! r = 0"
    by auto
qed

lemma scale_row_props:
  assumes "is_mat n w m" "r < n" "n \<le> w" "tri r m" "m ! r ! r \<noteq> 0"
  obtains m2 where "scale_row r m = Inr m2" "is_mat n w m2" "tri r m2" "m2 ! r ! r = 1"
    "\<And>x. orth m2 x \<longleftrightarrow> orth m x"
proof (cases "m ! r ! r = 1")
  case True
  then show ?thesis using assms that [of m] by (simp add: scale_row_def)
next
  case False
  have l: "length m = n" "length (m ! r) = w" using assms by (auto simp: is_mat_nth is_mat_def)
  obtain s where s: "Div 1 (m ! r ! r) = Some s" "Mul s (m ! r ! r) = 1"
    using assms(5) by (metis Div_correct)
  then have "s \<noteq> 0" by auto
  let ?m = "m[r := map (Mul s) (m ! r)]"
  have "orth ?m x \<longleftrightarrow> orth m x" for x
    using assms l \<open>s \<noteq> 0\<close> by (auto simp: orth_update orth_split [of r m] dot_scale_left)
  moreover have "tri r ?m" using assms l by (auto simp: tri_def nth_list_update)
  moreover have "is_mat n w ?m" using assms l by (intro is_mat_update) auto
  moreover have "?m ! r ! r = 1" using assms l s by simp
  ultimately show ?thesis using that [of ?m] s False by (simp add: scale_row_def)
qed

lemma forward_step_props:
  assumes "is_mat n w m" "r < n" "n \<le> w" "tri r m"
  shows "case forward_step r m of
           Inl e \<Rightarrow> e = ErrSingular \<and> (\<forall>i. r \<le> i \<longrightarrow> i < n \<longrightarrow> m ! i ! r = 0)
         | Inr m' \<Rightarrow> is_mat n w m' \<and> tri (Suc r) m' \<and> (\<forall>x. orth m' x \<longleftrightarrow> orth m x)"
proof -
  note ps = pivot_swap_props [OF assms]
  have c: "Cols m = w" using is_mat_Cols [OF assms(1)] assms(2) by simp
  show ?thesis
  proof (cases "pivot_swap r m ! r ! r = 0")
    case True
    then show ?thesis using assms c ps(4) by (auto simp: forward_step_def)
  next
    case False
    then obtain m2 where m2: "scale_row r (pivot_swap r m) = Inr m2" "is_mat n w m2" "tri r m2"
      "m2 ! r ! r = 1" "\<And>x. orth m2 x \<longleftrightarrow> orth (pivot_swap r m) x"
      using scale_row_props [OF ps(1) assms(2,3) ps(2)] by metis
    define m' where "m' = fold (clear_row r) [r + 1..<Rows m2] m2"
    have ln: "length m2 = n" using m2 by (simp add: is_mat_def)
    have f: "is_mat n w m'" "\<And>x. orth m' x \<longleftrightarrow> orth m2 x"
      "\<And>i c. i < n \<Longrightarrow> c < w \<Longrightarrow> m' ! i ! c =
          (if r < i then m2 ! i ! c XOR Mul (m2 ! i ! r) (m2 ! r ! c) else m2 ! i ! c)"
      using fold_clear [OF m2(2) assms(2), of "[r + 1..<Rows m2]"] assms
      by (auto simp: m'_def Rows_def ln)
    have ln': "length m' = n" using f(1) by (simp add: is_mat_def)
    have "tri (Suc r) m'" unfolding tri_def
    proof (intro allI impI conjI)
      fix c assume c: "c < Suc r"
      then show "m' ! c ! c = 1" using m2(3,4) assms by (auto simp: tri_def f(3) less_Suc_eq)
      fix i assume "c < i" "i < length m'"
      then show "m' ! i ! c = 0"
        using c m2(3,4) assms ln ln' by (auto simp: tri_def f(3) less_Suc_eq)
    qed
    then show ?thesis using f(1,2) False c assms m2(1,5) ps(3)
      by (simp add: forward_step_def Let_def m'_def)
  qed
qed

definition nonzero :: "byte list \<Rightarrow> bool" where
  "nonzero v \<longleftrightarrow> (\<exists>x \<in> set v. x \<noteq> 0)"

lemma nonzero_replicate: "\<not> nonzero v \<longleftrightarrow> v = replicate (length v) 0"
  by (induction v) (auto simp: nonzero_def)

lemma dot_zero_prefix:
  "(\<And>j. j < length v \<Longrightarrow> j < length row \<Longrightarrow> row ! j = 0) \<Longrightarrow> dot row v = 0"
proof (induction row v rule: dot.induct)
  case (1 x xs y ys)
  have "x = 0" using "1.prems" [of 0] by simp
  moreover have "dot xs ys = 0" using "1.prems" [of "Suc _"] by (intro "1.IH") auto
  ultimately show ?case by simp
qed simp_all

lemma dot_zeros_right: "dot v (replicate n 0) = 0"
  by (simp add: dot_commute [of v] dot_zeros)

lemma dot_pad: "dot row (v @ replicate k 0) = dot row v"
  by (induction row v rule: dot.induct) (simp_all add: dot_zeros_right)

text \<open>A zero column below the pivot position leaves the system with a non-zero solution.\<close>

lemma singular_kernel:
  assumes "is_mat n w m" "r < n" "n \<le> w" "tri r m"
    and z: "\<And>i. r \<le> i \<Longrightarrow> i < n \<Longrightarrow> m ! i ! r = 0"
  obtains v where "length v = n" "nonzero v" "orth m (v @ replicate (w - n) 0)"
proof -
  have l: "length m = n" using assms by (simp add: is_mat_def)
  obtain u where u: "length u = Suc r" "u \<noteq> replicate (Suc r) 0"
    "\<forall>row \<in> set (take r m). dot row u = 0"
    using dot_kernel_exists [of "take r m"] assms(2) l by auto
  let ?v = "u @ replicate (n - Suc r) 0"
  have "dot (m ! i) u = 0" if i: "i < n" for i
  proof (cases "i < r")
    case True
    then have "m ! i \<in> set (take r m)" using l i by (auto simp: in_set_conv_nth)
    then show ?thesis using u(3) by blast
  next
    case False
    have "m ! i ! j = 0" if "j < length u" for j
      using that False i assms(4) z [of i] u(1) l by (auto simp: tri_def less_Suc_eq)
    then show ?thesis by (intro dot_zero_prefix)
  qed
  then have "orth m (?v @ replicate (w - n) 0)"
    using l by (simp add: orth_def dot_pad replicate_add [symmetric])
  moreover have "nonzero ?v"
    using u(1,2) nonzero_replicate [of u] by (auto simp: nonzero_def)
  ultimately show ?thesis using that [of ?v] u(1) assms(2) by simp
qed

lemma forward_props:
  assumes "is_mat n w m" "n \<le> w" "k \<le> n"
  shows "case for_each forward_step [0..<k] m of
           Inl e \<Rightarrow> e = ErrSingular \<and>
             (\<exists>v. length v = n \<and> nonzero v \<and> orth m (v @ replicate (w - n) 0))
         | Inr m' \<Rightarrow> is_mat n w m' \<and> tri k m' \<and> (\<forall>x. orth m' x \<longleftrightarrow> orth m x)"
  using assms(3)
proof (induction k)
  case 0
  then show ?case using assms by (simp add: tri_def)
next
  case (Suc k)
  show ?case
  proof (cases "for_each forward_step [0..<k] m")
    case (Inl e)
    then show ?thesis using Suc by (simp add: for_each_append)
  next
    case (Inr m1)
    then have m1: "is_mat n w m1" "tri k m1" "\<And>x. orth m1 x \<longleftrightarrow> orth m x" using Suc by auto
    have k: "k < n" using Suc.prems by simp
    note step = forward_step_props [OF m1(1) k assms(2) m1(2)]
    show ?thesis
    proof (cases "forward_step k m1")
      case (Inl e)
      then have "e = ErrSingular" and "\<And>i. k \<le> i \<Longrightarrow> i < n \<Longrightarrow> m1 ! i ! k = 0"
        using step by auto
      then show ?thesis using Inl Inr m1(3) singular_kernel [OF m1(1) k assms(2) m1(2)]
        by (simp add: for_each_append) metis
    next
      case (Inr m2)
      then show ?thesis using step m1(3) \<open>for_each forward_step [0..<k] m = Inr m1\<close>
        by (simp add: for_each_append)
    qed
  qed
qed

lemma backward_props:
  assumes "is_mat n w m" "n \<le> w" "tri n m" "k \<le> n"
  shows "is_mat n w (fold (\<lambda>d m. fold (clear_row d) [0..<d] m) [0..<k] m) \<and>
         tri n (fold (\<lambda>d m. fold (clear_row d) [0..<d] m) [0..<k] m) \<and>
         (\<forall>x. orth (fold (\<lambda>d m. fold (clear_row d) [0..<d] m) [0..<k] m) x \<longleftrightarrow> orth m x) \<and>
         (\<forall>c < k. \<forall>i < n. fold (\<lambda>d m. fold (clear_row d) [0..<d] m) [0..<k] m ! i ! c =
            (if i = c then 1 else 0))"
  using assms(4)
proof (induction k)
  case 0
  then show ?case using assms by simp
next
  case (Suc d)
  let ?m = "fold (\<lambda>d m. fold (clear_row d) [0..<d] m) [0..<d] m"
  let ?m' = "fold (clear_row d) [0..<d] ?m"
  have IH: "is_mat n w ?m" "tri n ?m" "\<And>x. orth ?m x \<longleftrightarrow> orth m x"
    "\<And>c i. c < d \<Longrightarrow> i < n \<Longrightarrow> ?m ! i ! c = (if i = c then 1 else 0)"
    using Suc by simp_all
  have d: "d < n" "d < w" using Suc.prems assms by simp_all
  have f: "is_mat n w ?m'" "\<And>x. orth ?m' x \<longleftrightarrow> orth ?m x"
    "\<And>i c. i < n \<Longrightarrow> c < w \<Longrightarrow> ?m' ! i ! c =
       (if i < d then ?m ! i ! c XOR Mul (?m ! i ! d) (?m ! d ! c) else ?m ! i ! c)"
    using fold_clear [OF IH(1) d(1), of "[0..<d]"] d by auto
  have ln: "length ?m = n" "length ?m' = n" using IH(1) f(1) by (simp_all add: is_mat_def)
  have u: "?m' ! i ! c = (if i = c then 1 else 0)" if "c < Suc d" "i < n" for i c
    using that d IH(2,4) ln assms(2) by (auto simp: f(3) tri_def less_Suc_eq)
  have t: "tri n ?m'"
    using d IH(2) ln assms(2) by (auto simp: f(3) tri_def)
  show ?case using f(1,2) IH(3) u t by simp
qed

section \<open>Inversion\<close>

lemma Identity_nth: "i < n \<Longrightarrow> Identity n ! i = (replicate n 0)[i := 1]"
  by (simp add: Identity_def NewMatrix_def)

lemma length_Identity [simp]: "length (Identity n) = n"
  by (simp add: Identity_def)

lemma mv_unit_rows:
  assumes "length v = n" "\<And>i. i < n \<Longrightarrow> rows ! i = (replicate n 0)[i := 1]" "length rows = n"
  shows "mv rows v = v"
  using assms dot_unit [of _ v] by - (rule nth_equalityI, simp_all)

lemma orth_augment:
  assumes "length m = n" "length rhs = n" "\<And>i. i < n \<Longrightarrow> length (m ! i) = length v"
  shows "orth (map (\<lambda>r. m ! r @ rhs ! r) [0..<n]) (v @ u) \<longleftrightarrow> mv m v = mv rhs u"
  using assms by (simp add: orth_def dot_append xor_eq_0_iff list_eq_iff_nth_eq)

lemma GaussianElim_props:
  assumes "is_mat n w m" "n \<le> w"
  shows "case GaussianElim m of
           Inl e \<Rightarrow> e = ErrSingular \<and>
             (\<exists>v. length v = n \<and> nonzero v \<and> orth m (v @ replicate (w - n) 0))
         | Inr m' \<Rightarrow> is_mat n w m' \<and> (\<forall>x. orth m' x \<longleftrightarrow> orth m x) \<and>
             (\<forall>i < n. take n (m' ! i) = (replicate n 0)[i := 1])"
proof -
  have rows: "Rows m = n" using assms(1) by (rule is_mat_Rows)
  note fw = forward_props [OF assms le_refl]
  show ?thesis
  proof (cases "for_each forward_step [0..<n] m")
    case (Inl e)
    then show ?thesis using fw rows by (simp add: GaussianElim_def)
  next
    case (Inr m1)
    then have m1: "is_mat n w m1" "tri n m1" "\<And>x. orth m1 x \<longleftrightarrow> orth m x" using fw by auto
    define m' where "m' = fold (\<lambda>d m. fold (clear_row d) [0..<d] m) [0..<n] m1"
    have bw: "is_mat n w m'" "\<And>x. orth m' x \<longleftrightarrow> orth m1 x"
      "\<And>i c. c < n \<Longrightarrow> i < n \<Longrightarrow> m' ! i ! c = (if i = c then 1 else 0)"
      using backward_props [OF m1(1) assms(2) m1(2) le_refl] by (simp_all add: m'_def)
    have "take n (m' ! i) = (replicate n 0)[i := 1]" if "i < n" for i
      using that bw(3) is_mat_nth [OF bw(1) that] assms(2)
      by - (rule nth_equalityI, auto simp: nth_list_update)
    then show ?thesis using Inr rows bw(1,2) m1(3) by (simp add: GaussianElim_def m'_def)
  qed
qed

definition inverse_of :: "nat \<Rightarrow> Matrix \<Rightarrow> Matrix \<Rightarrow> bool" where
  "inverse_of n m b \<longleftrightarrow> is_mat n n b \<and>
     (\<forall>v. length v = n \<longrightarrow> mv b (mv m v) = v \<and> mv m (mv b v) = v)"

definition singular :: "nat \<Rightarrow> Matrix \<Rightarrow> bool" where
  "singular n m \<longleftrightarrow> (\<exists>v. length v = n \<and> nonzero v \<and> mv m v = replicate n 0)"

lemma Inverse_cases:
  assumes "is_mat n n m"
  shows "case Inverse m of
           Inl e \<Rightarrow> e = ErrSingular \<and> singular n m
         | Inr b \<Rightarrow> inverse_of n m b"
proof -
  have l: "length m = n" "Rows m = n" "Cols m = n"
    using assms by (auto simp: is_mat_def Rows_def Cols_def)
  let ?w = "map (\<lambda>r. m ! r @ Identity n ! r) [0..<n]"
  have w: "is_mat n (2 * n) ?w"
    using assms l by (auto simp: is_mat_def Identity_nth)
  have ow: "orth ?w (v @ u) \<longleftrightarrow> mv m v = u" if "length v = n" "length u = n" for u v
    using that l is_mat_nth [OF assms] mv_unit_rows [of u n "Identity n"]
    by (simp add: orth_augment Identity_nth)
  have aug: "Augment m (Identity n) = Inr ?w" by (simp add: Augment_def Rows_def l)
  have "n \<le> 2 * n" by simp
  note el = GaussianElim_props [OF w this]
  show ?thesis
  proof (cases "GaussianElim ?w")
    case (Inl e)
    then obtain v where v: "e = ErrSingular" "length v = n" "nonzero v"
      "orth ?w (v @ replicate n 0)" using el by (auto simp: mult_2)
    then have "singular n m" using ow [of v "replicate n 0"] by (auto simp: singular_def)
    then show ?thesis using v(1) Inl l aug by (simp add: Inverse_def Let_def)
  next
    case (Inr w')
    define b where "b = map (\<lambda>r. subslice n (2 * n) (w' ! r)) [0..<n]"
    have w': "is_mat n (2 * n) w'" "\<And>x. orth w' x \<longleftrightarrow> orth ?w x"
      "\<And>i. i < n \<Longrightarrow> take n (w' ! i) = (replicate n 0)[i := 1]"
      using el Inr by auto
    have lw: "length (w' ! i) = 2 * n" if "i < n" for i using is_mat_nth [OF w'(1) that] .
    have sub: "SubMatrix w' 0 n n (2 * n) = Inr b"
      using w'(1) is_mat_Cols [OF w'(1)] by (auto simp: SubMatrix_def b_def Rows_def is_mat_def)
    have b: "is_mat n n b" using lw by (auto simp: is_mat_def b_def)
    have "w' ! i = take n (w' ! i) @ b ! i" if "i < n" for i
      using that lw [OF that] by (simp add: b_def subslice_def)
    then have eq: "w' = map (\<lambda>r. map (take n) w' ! r @ b ! r) [0..<n]"
      using w'(1) by - (rule nth_equalityI, auto simp: is_mat_def)
    have ob: "orth w' (v @ u) \<longleftrightarrow> v = mv b u" if "length v = n" "length u = n" for u v
    proof -
      have "orth w' (v @ u) \<longleftrightarrow> mv (map (take n) w') v = mv b u"
        using that w'(1) lw b by (subst eq, subst orth_augment) (auto simp: is_mat_def)
      also have "mv (map (take n) w') v = v"
        using that w'(1,3) by (intro mv_unit_rows [of v n]) (auto simp: is_mat_def)
      finally show ?thesis .
    qed
    have "mv b (mv m v) = v \<and> mv m (mv b v) = v" if v: "length v = n" for v
      using ow [of v "mv m v"] ob [of v "mv m v"] ow [of "mv b v" v] ob [of "mv b v" v]
        w'(2) v l b by (simp add: is_mat_def)
    then have "inverse_of n m b" using b by (simp add: inverse_of_def)
    then show ?thesis using Inr l aug sub by (simp add: Inverse_def Let_def)
  qed
qed

section \<open>Products and Vandermonde matrices\<close>

lemma fold_dot:
  "n \<le> length u \<Longrightarrow> n \<le> length w \<Longrightarrow>
   fold (\<lambda>i v. v XOR Mul (u ! i) (w ! i)) [0..<n] 0 = dot (take n u) (take n w)"
proof (induction n)
  case (Suc n)
  then show ?case
    by (simp add: take_Suc_conv_app_nth dot_append)
qed simp

lemma dot_columns:
  "length u = length rhs \<Longrightarrow> \<forall>row \<in> set rhs. length row = c \<Longrightarrow>
   dot (map (\<lambda>j. dot u (map (\<lambda>row. row ! j) rhs)) [0..<c]) v = dot u (mv rhs v)"
proof (induction u rhs rule: list_induct2)
  case Nil
  have "map (\<lambda>j. 0 :: byte) [0..<c] = replicate c 0" by (simp add: map_replicate_const)
  then show ?case by (simp add: dot_zeros mv_def)
next
  case (Cons a u row rhs)
  let ?t = "map (\<lambda>j. dot u (map (\<lambda>row. row ! j) rhs)) [0..<c]"
  have "map (\<lambda>j. dot (a # u) (map (\<lambda>row. row ! j) (row # rhs))) [0..<c] =
        map2 (XOR) (map (Mul a) row) ?t"
    using Cons.prems by - (rule nth_equalityI, auto)
  then show ?case using Cons by (simp add: dot_add_left dot_scale_left mv_def)
qed

lemma Multiply_props:
  assumes "is_mat r k m" "is_mat k c rhs" "0 < k" "0 < r"
  obtains p where "Multiply m rhs = Inr p" "is_mat r c p"
    "\<And>i v. i < r \<Longrightarrow> dot (p ! i) v = dot (m ! i) (mv rhs v)"
proof -
  have l: "Cols m = k" "Rows rhs = k" "Cols rhs = c" "Rows m = r" "length rhs = k"
    using assms by (auto simp: is_mat_Cols Rows_def is_mat_def)
  define p where "p = map (\<lambda>i. map (\<lambda>j. dot (m ! i) (map (\<lambda>row. row ! j) rhs)) [0..<c]) [0..<r]"
  have "fold (\<lambda>i v. v XOR Mul (m ! i' ! i) (rhs ! i ! j)) [0..<k] 0 =
        dot (m ! i') (map (\<lambda>row. row ! j) rhs)" if "i' < r" for i' j
  proof -
    have "fold (\<lambda>i v. v XOR Mul (m ! i' ! i) (rhs ! i ! j)) [0..<k] 0 =
          fold (\<lambda>i v. v XOR Mul (m ! i' ! i) (map (\<lambda>row. row ! j) rhs ! i)) [0..<k] 0"
      using l by (intro fold_cong) auto
    then show ?thesis using fold_dot [of k "m ! i'" "map (\<lambda>row. row ! j) rhs"]
        is_mat_nth [OF assms(1) that] l by simp
  qed
  then have "Multiply m rhs = Inr p" by (simp add: Multiply_def l p_def)
  moreover have "is_mat r c p" by (auto simp: is_mat_def p_def)
  moreover have "dot (p ! i) v = dot (m ! i) (mv rhs v)" if "i < r" for i v
    using that assms(2) l is_mat_nth [OF assms(1) that]
    by (simp add: p_def dot_columns is_mat_def)
  ultimately show ?thesis by (rule that)
qed

lemma is_mat_Vandermonde: "is_mat rows cols (NewVandermonde rows cols)"
  by (auto simp: is_mat_def NewVandermonde_def)

lemma dot_Vandermonde:
  "r < rows \<Longrightarrow> length v = cols \<Longrightarrow>
   dot (NewVandermonde rows cols ! r) v = gf.horner v (of_nat r)"
  using gf.ldot_powers [of Exp "of_nat r" v] by (simp add: NewVandermonde_def ldot_dot Exp_Suc)

text \<open>Rows of a Vandermonde matrix at distinct points are jointly injective.\<close>

lemma Vandermonde_kernel:
  assumes "rows \<le> 256" "distinct idx" "\<forall>i \<in> set idx. i < rows" "length idx = cols"
    and "length v = cols" "\<And>i. i \<in> set idx \<Longrightarrow> dot (NewVandermonde rows cols ! i) v = 0"
  shows "v = replicate cols 0"
proof -
  let ?xs = "map (\<lambda>i. of_nat i :: byte) idx"
  have "inj_on (\<lambda>i. of_nat i :: byte) (set idx)"
  proof (rule inj_onI)
    fix i j assume "i \<in> set idx" "j \<in> set idx" and eq: "(of_nat i :: byte) = of_nat j"
    then have "i < 256" "j < 256" using assms(1,3) by (meson less_le_trans)+
    then show "i = j" using arg_cong [OF eq, of unat] by (simp only: unat_of_nat) simp
  qed
  then have dist: "distinct ?xs" using assms(2) by (simp add: distinct_map)
  have "gf.horner v (of_nat i) = 0" if "i \<in> set idx" for i
    using assms(3,5) assms(6) [OF that] dot_Vandermonde [of i rows v cols] that by simp
  then have roots: "\<forall>x \<in> set ?xs. gf.horner v x = 0" by simp
  have "length v \<le> length ?xs" using assms(4,5) by simp
  from dist this roots have "\<forall>c \<in> set v. c = 0" by (rule gf.many_roots_zero)
  then show ?thesis using assms(5) by (intro replicate_eqI) simp_all
qed

section \<open>Properties\<close>

text \<open>
  Property C16. \<^verbatim>\<open>Inverse\<close> on a square matrix never panics. It returns \<^verbatim>\<open>ErrSingular\<close>
  exactly when a non-zero vector is mapped to zero, and otherwise a square matrix that is
  a left and a right inverse of its argument as a linear map.
\<close>

theorem Inverse_correct:
  assumes "is_mat n n m"
  shows "(Inverse m = Inl ErrSingular \<longleftrightarrow> singular n m) \<and>
         (\<not> singular n m \<longrightarrow> (\<exists>b. Inverse m = Inr b \<and> inverse_of n m b))"
proof -
  have excl: "\<not> singular n m" if "inverse_of n m b" for b
  proof
    assume "singular n m"
    then obtain v where v: "length v = n" "nonzero v" "mv m v = replicate n 0"
      by (auto simp: singular_def)
    have z: "mv b (replicate n 0) = replicate n 0"
      using that dot_zeros by - (rule nth_equalityI,
        auto simp: inverse_of_def is_mat_def dot_commute [of _ "replicate n 0"])
    have "v = replicate n 0" using that v(1,3) z by (auto simp: inverse_of_def)
    then show False using v(2) by (simp add: nonzero_def)
  qed
  show ?thesis using Inverse_cases [OF assms] excl by (cases "Inverse m") auto
qed

theorem Inverse_correct_witness:
  "is_mat 2 2 [[2, 3], [1, 1]] \<and> (\<exists>b. Inverse [[2, 3], [1, 1]] = Inr b \<and> inverse_of 2 [[2, 3], [1, 1]] b) \<and>
   is_mat 2 2 [[1, 2], [1, 2]] \<and> singular 2 [[1, 2], [1, 2]]"
proof -
  have m: "is_mat 2 2 [[2, 3], [1, 1]]" "is_mat 2 2 [[1, 2], [1, 2]]" by (simp_all add: is_mat_def)
  have "Inverse [[2, 3], [1, 1]] \<noteq> Inl ErrSingular" "Inverse [[1, 2], [1, 2]] = Inl ErrSingular"
    by code_simp+
  then show ?thesis using m Inverse_correct [OF m(1)] Inverse_correct [OF m(2)] by simp
qed

end
