(* ===== verification/Fec.thy ===== *)
theory Fec
  imports Gf_Matrix
begin

text \<open>
  \<^verbatim>\<open>fec.go\<close>: the systematic Reed-Solomon code built from a Vandermonde matrix, its
  encoder, its erasure decoder and the cache of codecs. Shards that the code mutates in
  place are returned updated; a nil shard is the empty list.
\<close>

section \<open>The model\<close>

definition SizeOfSignature :: nat where "SizeOfSignature = 64"
definition SizeOfCodingShredHeaders :: nat where "SizeOfCodingShredHeaders = 89"
definition SizeOfMerkleRoot :: nat where "SizeOfMerkleRoot = 32"
definition SizeOfMerkleProofEntry :: nat where "SizeOfMerkleProofEntry = 20"
definition DataShredPayloadLen :: nat where "DataShredPayloadLen = 1203"
definition CodeShredPayloadLen :: nat where "CodeShredPayloadLen = 1228"
definition cacheCapacity :: nat where "cacheCapacity = 32"

definition ShardSize :: "byte \<Rightarrow> bool \<Rightarrow> int" where
  "ShardSize proofSize resigned =
     (let n = int CodeShredPayloadLen - int SizeOfCodingShredHeaders - int SizeOfMerkleRoot
              - int (unat proofSize) * int SizeOfMerkleProofEntry
      in if resigned then n - int SizeOfSignature else n)"

datatype fec_error =
    ErrTooFewShards
  | ErrShardSizeMismatch
  | ErrShardCount
  | ErrInvalidCounts
  | ErrTooManyShards
  | ErrEmptyPresent
  | PanicSlice
  | MatError mat_error

record reedSolomon =
  dataShards :: nat
  totalShards :: nat
  rsMatrix :: Matrix
  parityRows :: "byte list list"

text \<open>
  The counts are Go \<^verbatim>\<open>int\<close>s and their sum is taken without wrap-around: the callers pass 16-bit counts.
  Beyond them, two counts whose sum exceeds 2^63 would panic in the source where this is an error.
\<close>

definition newReedSolomon :: "int \<Rightarrow> int \<Rightarrow> fec_error + reedSolomon" where
  "newReedSolomon data coding =
     (if data \<le> 0 \<or> coding < 0 then Inl ErrInvalidCounts
      else let total = data + coding
           in if total > 256 then Inl ErrTooManyShards
              else let vand = NewVandermonde (nat total) (nat data)
                   in case SubMatrix vand 0 0 (nat data) (nat data) of
                        Inl e \<Rightarrow> Inl (MatError e)
                      | Inr topM \<Rightarrow>
                          (case Inverse topM of
                             Inl e \<Rightarrow> Inl (MatError e)
                           | Inr topInv \<Rightarrow>
                               (case Multiply vand topInv of
                                  Inl e \<Rightarrow> Inl (MatError e)
                                | Inr m \<Rightarrow>
                                    Inr \<lparr>dataShards = nat data, totalShards = nat total,
                                         rsMatrix = m,
                                         parityRows = map (\<lambda>i. m ! (nat data + i))
                                           [0..<nat coding]\<rparr>)))"

definition mulSlice :: "byte \<Rightarrow> byte list \<Rightarrow> byte list \<Rightarrow> fec_error + byte list" where
  "mulSlice c inp out =
     (if c = 0 then Inr (map (\<lambda>_. 0) out)
      else if c = 1 then Inr (take (length out) inp @ drop (length inp) out)
      else if length out < length inp then Inl PanicSlice
      else let t = MulTable c
           in Inr (map (\<lambda>b. t ! unat b) inp @ drop (length inp) out))"

definition mulSliceXor :: "byte \<Rightarrow> byte list \<Rightarrow> byte list \<Rightarrow> fec_error + byte list" where
  "mulSliceXor c inp out =
     (if c = 0 then Inr out
      else if length out < length inp then Inl PanicSlice
      else if c = 1 then Inr (map2 (\<lambda>o' b. o' XOR b) out inp @ drop (length inp) out)
      else let t = MulTable c
           in Inr (map2 (\<lambda>o' b. o' XOR t ! unat b) out inp @ drop (length inp) out))"

definition codeRow :: "byte list \<Rightarrow> byte list list \<Rightarrow> byte list \<Rightarrow> fec_error + byte list" where
  "codeRow row inputs out =
     for_each (\<lambda>iIn out. let c = row ! iIn; inp = inputs ! iIn
                          in if iIn = 0 then mulSlice c inp out else mulSliceXor c inp out)
       [0..<length inputs] out"

definition codeSomeSlices ::
    "byte list list \<Rightarrow> byte list list \<Rightarrow> byte list list \<Rightarrow> fec_error + byte list list" where
  "codeSomeSlices matrixRows inputs outputs =
     for_each (\<lambda>iRow outs. case codeRow (matrixRows ! iRow) inputs (outs ! iRow) of
                              Inl e \<Rightarrow> Inl e
                            | Inr out \<Rightarrow> Inr (outs[iRow := out]))
       [0..<length outputs] outputs"

text \<open>
  All shards must have the length of the first. The source replaces an empty parity shard by a
  new one of that length, which is then empty as well, so this step has no effect.
\<close>

definition Encode :: "reedSolomon \<Rightarrow> byte list list \<Rightarrow> fec_error + byte list list" where
  "Encode rs shards =
     (if length shards \<noteq> totalShards rs then Inl ErrShardCount
      else if \<exists>s \<in> set shards. length s \<noteq> length (shards ! 0) then Inl ErrShardSizeMismatch
      else case codeSomeSlices (parityRows rs) (take (dataShards rs) shards)
                  (drop (dataShards rs) shards) of
             Inl e \<Rightarrow> Inl e
           | Inr parity \<Rightarrow> Inr (take (dataShards rs) shards @ parity))"

text \<open>The scan of the present shards (lines 134 to 148): shard length and count.\<close>

definition scan_present ::
    "byte list list \<Rightarrow> bool list \<Rightarrow> fec_error + nat \<times> nat" where
  "scan_present shards present =
     for_each (\<lambda>i (shardLen, numPresent).
        if present ! i
        then (let s = shards ! i
              in if length s = 0 then Inl ErrEmptyPresent
                 else if shardLen = 0 then Inr (length s, numPresent + 1)
                 else if length s \<noteq> shardLen then Inl ErrShardSizeMismatch
                 else Inr (shardLen, numPresent + 1))
        else Inr (shardLen, numPresent))
       [0..<length shards] (0, 0)"

text \<open>Lines 156 to 164.\<close>

definition split_idx :: "nat \<Rightarrow> nat \<Rightarrow> bool list \<Rightarrow> nat list \<times> nat list" where
  "split_idx data tot present =
     fold (\<lambda>i (validIdx, invalidIdx).
        if present ! i \<and> length validIdx < data then (validIdx @ [i], invalidIdx)
        else if \<not> present ! i then (validIdx, invalidIdx @ [i])
        else (validIdx, invalidIdx)) [0..<tot] ([], [])"

text \<open>Zeroing the missing shards and filling them through \<^verbatim>\<open>codeSomeSlices\<close>: the slices
  alias the entries of \<^verbatim>\<open>shards\<close>, so the results are written back.\<close>

definition fill_missing ::
    "byte list list \<Rightarrow> nat list \<Rightarrow> byte list list \<Rightarrow> nat \<Rightarrow> byte list list
     \<Rightarrow> fec_error + byte list list" where
  "fill_missing rows missing inputs shardLen shards =
     (let zeroed = fold (\<lambda>mi sh. sh[mi := replicate shardLen 0]) missing shards
      in if missing = [] then Inr zeroed
         else case codeSomeSlices rows inputs (map (\<lambda>mi. zeroed ! mi) missing) of
                Inl e \<Rightarrow> Inl e
              | Inr outs \<Rightarrow> Inr (fold (\<lambda>(mi, out) sh. sh[mi := out]) (zip missing outs) zeroed))"

definition reconstructInternal ::
    "reedSolomon \<Rightarrow> byte list list \<Rightarrow> bool list \<Rightarrow> bool \<Rightarrow>
     fec_error + byte list list \<times> bool list" where
  "reconstructInternal rs shards present dataOnly =
     (if length shards \<noteq> totalShards rs \<or> length present \<noteq> totalShards rs then Inl ErrShardCount
      else case scan_present shards present of
        Inl e \<Rightarrow> Inl e
      | Inr (shardLen, numPresent) \<Rightarrow>
          if numPresent = totalShards rs then Inr (shards, present)
          else if numPresent < dataShards rs then Inl ErrTooFewShards
          else
            (let (validIdx, invalidIdx) = split_idx (dataShards rs) (totalShards rs) present;
                 subMatrix = map (\<lambda>vi. take (dataShards rs) (rsMatrix rs ! vi)) validIdx
             in case Inverse subMatrix of
                  Inl e \<Rightarrow> Inl (MatError e)
                | Inr decodeMatrix \<Rightarrow>
                    (let subShards = map (\<lambda>vi. shards ! vi) validIdx;
                         missingData = takeWhile (\<lambda>mi. mi < dataShards rs) invalidIdx
                     in case fill_missing (map (\<lambda>mi. decodeMatrix ! mi) missingData) missingData
                               subShards shardLen shards of
                          Inl e \<Rightarrow> Inl e
                        | Inr shards1 \<Rightarrow>
                            if dataOnly
                            then Inr (shards1, replicate (dataShards rs) True
                                                 @ drop (dataShards rs) present)
                            else
                              (let missingParity =
                                     filter (\<lambda>mi. \<not> mi < dataShards rs) invalidIdx
                               in case fill_missing
                                         (map (\<lambda>mi. parityRows rs ! (mi - dataShards rs))
                                            missingParity) missingParity
                                         (take (dataShards rs) shards1) shardLen shards1 of
                                    Inl e \<Rightarrow> Inl e
                                  | Inr shards2 \<Rightarrow>
                                      Inr (shards2, replicate (totalShards rs) True)))))"

definition Reconstruct ::
    "reedSolomon \<Rightarrow> byte list list \<Rightarrow> bool list \<Rightarrow> fec_error + byte list list \<times> bool list" where
  "Reconstruct rs shards present = reconstructInternal rs shards present False"

definition ReconstructData ::
    "reedSolomon \<Rightarrow> byte list list \<Rightarrow> bool list \<Rightarrow> fec_error + byte list list \<times> bool list" where
  "ReconstructData rs shards present = reconstructInternal rs shards present True"

text \<open>The cache of codecs, least recently used first.\<close>

record reedSolomonCache =
  rc_keys :: "(u16 \<times> u16) list"
  rc_values :: "reedSolomon list"
  rc_capacity :: nat

definition newReedSolomonCache :: reedSolomonCache where
  "newReedSolomonCache = \<lparr>rc_keys = [], rc_values = [], rc_capacity = cacheCapacity\<rparr>"

fun index_of :: "'a \<Rightarrow> 'a list \<Rightarrow> nat option" where
  "index_of x [] = None"
| "index_of x (y # ys) = (if y = x then Some 0 else map_option Suc (index_of x ys))"

definition GetOrBuild ::
    "reedSolomonCache \<Rightarrow> u16 \<Rightarrow> u16 \<Rightarrow> (fec_error + reedSolomon) \<times> reedSolomonCache" where
  "GetOrBuild c numData numCoding =
     (let key = (numData, numCoding)
      in case index_of key (rc_keys c) of
           Some i \<Rightarrow>
             (let rs = rc_values c ! i
              in (Inr rs, c\<lparr>rc_keys := take i (rc_keys c) @ drop (i + 1) (rc_keys c) @ [key],
                            rc_values := take i (rc_values c) @ drop (i + 1) (rc_values c) @ [rs]\<rparr>))
         | None \<Rightarrow>
             (case newReedSolomon (int (unat numData)) (int (unat numCoding)) of
                Inl e \<Rightarrow> (Inl e, c)
              | Inr rs \<Rightarrow>
                  (let c1 = (if rc_capacity c \<le> length (rc_keys c)
                             then c\<lparr>rc_keys := drop 1 (rc_keys c),
                                    rc_values := drop 1 (rc_values c)\<rparr>
                             else c)
                   in (Inr rs, c1\<lparr>rc_keys := rc_keys c1 @ [key],
                                  rc_values := rc_values c1 @ [rs]\<rparr>))))"

section \<open>The code that newReedSolomon builds\<close>

definition rs_ok :: "reedSolomon \<Rightarrow> bool" where
  "rs_ok rs \<longleftrightarrow>
     0 < dataShards rs \<and> dataShards rs \<le> totalShards rs \<and>
     is_mat (totalShards rs) (dataShards rs) (rsMatrix rs) \<and>
     parityRows rs = drop (dataShards rs) (rsMatrix rs) \<and>
     (\<forall>i v. i < dataShards rs \<longrightarrow> length v = dataShards rs \<longrightarrow> dot (rsMatrix rs ! i) v = v ! i) \<and>
     (\<forall>idx v. distinct idx \<longrightarrow> length idx = dataShards rs \<longrightarrow> (\<forall>i \<in> set idx. i < totalShards rs) \<longrightarrow>
        length v = dataShards rs \<longrightarrow> (\<forall>i \<in> set idx. dot (rsMatrix rs ! i) v = 0) \<longrightarrow>
        v = replicate (dataShards rs) 0)"

lemma newReedSolomon_ok:
  assumes "0 < data" "0 \<le> coding" "data + coding \<le> 256"
  obtains rs where "newReedSolomon data coding = Inr rs" "rs_ok rs"
    "dataShards rs = nat data" "totalShards rs = nat (data + coding)"
proof -
  define n where "n = nat data"
  define t where "t = nat (data + coding)"
  let ?V = "NewVandermonde t n"
  let ?T = "take n ?V"
  have nt: "0 < n" "n \<le> t" "t \<le> 256" "nat coding = t - n" using assms by (auto simp: n_def t_def)
  have V: "is_mat t n ?V" by (rule is_mat_Vandermonde)
  then have lV: "length ?V = t" "\<And>i. i < t \<Longrightarrow> length (?V ! i) = n"
    by (auto simp: is_mat_def)
  have top: "SubMatrix ?V 0 0 n n = Inr ?T"
  proof -
    have "map (\<lambda>r. subslice 0 n (?V ! r)) [0..<n] = ?T"
      using lV nt by - (rule nth_equalityI, auto simp: subslice_def)
    then show ?thesis
      using nt lV(1) is_mat_Cols [OF V] by (simp add: SubMatrix_def Rows_def)
  qed
  have T: "is_mat n n ?T" using V nt by (auto simp: is_mat_def dest: in_set_takeD)
  have "\<not> singular n ?T"
  proof
    assume "singular n ?T"
    then obtain v where v: "length v = n" "nonzero v" "mv ?T v = replicate n 0"
      by (auto simp: singular_def)
    have "dot (?V ! i) v = 0" if "i < n" for i
      using arg_cong [OF v(3), of "\<lambda>x. x ! i"] that nt lV(1) by simp
    then have "v = replicate n 0"
      using nt v(1) by (intro Vandermonde_kernel [of t "[0..<n]"]) auto
    then show False using v(2) by (simp add: nonzero_def)
  qed
  then obtain B where B: "Inverse ?T = Inr B" "inverse_of n ?T B"
    using Inverse_cases [OF T] by (auto split: sum.splits)
  then have Bm: "is_mat n n B" and inv: "\<And>v. length v = n \<Longrightarrow> mv ?T (mv B v) = v"
    "\<And>v. length v = n \<Longrightarrow> mv B (mv ?T v) = v"
    by (auto simp: inverse_of_def)
  obtain m where m: "Multiply ?V B = Inr m" "is_mat t n m"
    "\<And>i v. i < t \<Longrightarrow> dot (m ! i) v = dot (?V ! i) (mv B v)"
    using Multiply_props [OF V Bm] nt by auto
  let ?rs = "\<lparr>dataShards = n, totalShards = t, rsMatrix = m,
              parityRows = map (\<lambda>i. m ! (n + i)) [0..<t - n]\<rparr>"
  have lm: "length m = t" using m(2) by (simp add: is_mat_def)
  have new: "newReedSolomon data coding = Inr ?rs"
    using assms top B(1) m(1) nt(4)
    by (simp add: newReedSolomon_def Let_def n_def [symmetric] t_def [symmetric])
  have sys: "dot (m ! i) v = v ! i" if "i < n" "length v = n" for i v
  proof -
    have "dot (m ! i) v = mv ?T (mv B v) ! i" using that nt m(3) lV(1) by simp
    then show ?thesis using inv(1) that by simp
  qed
  have mds: "v = replicate n 0"
    if "distinct idx" "length idx = n" "\<forall>i \<in> set idx. i < t" "length v = n"
      "\<forall>i \<in> set idx. dot (m ! i) v = 0" for idx v
  proof -
    have "mv B v = replicate n 0"
      using that nt Bm m(3) by (intro Vandermonde_kernel [of t idx]) (auto simp: is_mat_def)
    then have "v = mv ?T (replicate n 0)" using inv(1) [of v] that(4) by simp
    also have "\<dots> = replicate n 0"
      using T dot_zeros by - (rule nth_equalityI, auto simp: is_mat_def dot_commute [of _ "replicate n 0"])
    finally show ?thesis .
  qed
  have "parityRows ?rs = drop n m" using lm by - (rule nth_equalityI, auto)
  then have "rs_ok ?rs" using nt m(2) sys mds by (simp add: rs_ok_def)
  then show ?thesis using that new by (simp add: n_def t_def)
qed

section \<open>Slices as linear combinations\<close>

definition column :: "nat \<Rightarrow> byte list list \<Rightarrow> byte list" where
  "column k shards = map (\<lambda>s. s ! k) shards"

definition lincomb :: "nat \<Rightarrow> byte list \<Rightarrow> byte list list \<Rightarrow> byte list" where
  "lincomb L row inputs = map (\<lambda>k. dot row (column k inputs)) [0..<L]"

lemma length_lincomb [simp, len_simps]: "length (lincomb L row inputs) = L"
  by (simp add: lincomb_def)

lemma length_column [simp, len_simps]: "length (column k shards) = length shards"
  by (simp add: column_def)

lemma mulSlice_Mul:
  assumes "length inp = length out"
  shows "mulSlice c inp out = Inr (map (Mul c) inp)"
proof -
  have "map (\<lambda>_. 0) out = map (Mul 0) inp"
    using assms by - (rule nth_equalityI, simp_all)
  moreover have "map (Mul 1) inp = inp" by (simp add: map_idI)
  ultimately show ?thesis using assms by (simp add: mulSlice_def Let_def MulTable_Mul)
qed

lemma mulSliceXor_Mul:
  assumes "length inp = length out"
  shows "mulSliceXor c inp out = Inr (map2 (\<lambda>o' b. o' XOR Mul c b) out inp)"
proof -
  have "map2 (\<lambda>o' b. o') out inp = out" using assms by - (rule nth_equalityI, simp_all)
  then show ?thesis using assms by (simp add: mulSliceXor_def Let_def MulTable_Mul)
qed

lemma codeRow_lincomb:
  assumes "inputs \<noteq> []" "\<forall>s \<in> set inputs. length s = L" "length out = L"
    and "length row = length inputs"
  shows "codeRow row inputs out = Inr (lincomb L row inputs)"
proof -
  let ?f = "\<lambda>iIn out. let c = row ! iIn; inp = inputs ! iIn
              in if iIn = 0 then mulSlice c inp out else mulSliceXor c inp out"
  have "for_each ?f [0..<Suc n] out = Inr (lincomb L (take (Suc n) row) (take (Suc n) inputs))"
    if "Suc n \<le> length inputs" for n
    using that
  proof (induction n)
    case 0
    have "map (Mul (row ! 0)) (inputs ! 0) = lincomb L (take 1 row) (take 1 inputs)"
      using 0 assms by - (rule nth_equalityI, auto simp: lincomb_def column_def take_Suc_conv_app_nth)
    then show ?case using 0 assms by (simp add: mulSlice_Mul)
  next
    case (Suc n)
    let ?o = "lincomb L (take (Suc n) row) (take (Suc n) inputs)"
    have n: "Suc n < length inputs" "Suc n < length row" using Suc.prems assms(4) by simp_all
    have li: "length (inputs ! Suc n) = L" using n assms(2) by simp
    have "map2 (\<lambda>o' b. o' XOR Mul (row ! Suc n) b) ?o (inputs ! Suc n) =
          lincomb L (take (Suc (Suc n)) row) (take (Suc (Suc n)) inputs)"
      using n li by - (rule nth_equalityI, simp_all add: lincomb_def column_def take_Suc_conv_app_nth [of "Suc n"] dot_append)
    then show ?case using Suc.IH n li
      by (subst for_each_upt_Suc) (simp add: mulSliceXor_Mul del: upt_Suc)
  qed
  from this [of "length inputs - 1"] show ?thesis
    using assms by (simp add: codeRow_def)
qed

lemma codeSomeSlices_lincomb:
  assumes "inputs \<noteq> []" "\<forall>s \<in> set inputs. length s = L" "\<forall>s \<in> set outputs. length s = L"
    and "\<forall>row \<in> set rows. length row = length inputs" "length rows = length outputs"
  shows "codeSomeSlices rows inputs outputs = Inr (map (\<lambda>row. lincomb L row inputs) rows)"
proof -
  let ?g = "\<lambda>iRow outs. case codeRow (rows ! iRow) inputs (outs ! iRow) of
              Inl e \<Rightarrow> Inl e | Inr out \<Rightarrow> Inr (outs[iRow := out])"
  have "for_each ?g [0..<n] outputs =
        Inr (map (\<lambda>row. lincomb L row inputs) (take n rows) @ drop n outputs)"
    if "n \<le> length outputs" for n
    using that
  proof (induction n)
    case (Suc n)
    let ?o = "map (\<lambda>row. lincomb L row inputs) (take n rows) @ drop n outputs"
    have n: "n < length rows" "n < length outputs" using Suc.prems assms(5) by simp_all
    have "codeRow (rows ! n) inputs (?o ! n) = Inr (lincomb L (rows ! n) inputs)"
      using n assms by (intro codeRow_lincomb) (auto simp: nth_append)
    moreover have "?o[n := lincomb L (rows ! n) inputs] =
        map (\<lambda>row. lincomb L row inputs) (take (Suc n) rows) @ drop (Suc n) outputs"
      using n by (simp add: take_Suc_conv_app_nth list_update_append Cons_nth_drop_Suc [symmetric])
    ultimately show ?case using Suc by (simp add: for_each_append)
  qed simp
  from this [of "length outputs"] show ?thesis using assms(5) by (simp add: codeSomeSlices_def)
qed

definition codeword :: "reedSolomon \<Rightarrow> nat \<Rightarrow> byte list list \<Rightarrow> bool" where
  "codeword rs L cw \<longleftrightarrow> length cw = totalShards rs \<and> (\<forall>s \<in> set cw. length s = L) \<and>
     (\<forall>i < totalShards rs. cw ! i = lincomb L (rsMatrix rs ! i) (take (dataShards rs) cw))"

lemma lincomb_systematic:
  assumes "rs_ok rs" "i < dataShards rs" "length inputs = dataShards rs"
    and "length (inputs ! i) = L"
  shows "lincomb L (rsMatrix rs ! i) inputs = inputs ! i"
  using assms by - (rule nth_equalityI, auto simp: lincomb_def rs_ok_def column_def)

lemma Encode_codeword:
  assumes "rs_ok rs" "length shards = totalShards rs" "\<forall>s \<in> set shards. length s = L"
  obtains cw where "Encode rs shards = Inr cw" "codeword rs L cw"
    "take (dataShards rs) cw = take (dataShards rs) shards"
proof -
  let ?d = "dataShards rs" and ?t = "totalShards rs"
  let ?in = "take ?d shards"
  have d: "0 < ?d" "?d \<le> ?t" "is_mat ?t ?d (rsMatrix rs)" "parityRows rs = drop ?d (rsMatrix rs)"
    using assms(1) by (auto simp: rs_ok_def)
  have lm: "length (rsMatrix rs) = ?t" "\<forall>row \<in> set (rsMatrix rs). length row = ?d"
    using d(3) by (auto simp: is_mat_def)
  let ?par = "map (\<lambda>row. lincomb L row ?in) (drop ?d (rsMatrix rs))"
  have "codeSomeSlices (parityRows rs) ?in (drop ?d shards) = Inr ?par"
    unfolding d(4) using d lm assms by (intro codeSomeSlices_lincomb)
      (auto dest: in_set_takeD in_set_dropD)
  moreover have "\<not> (\<exists>s \<in> set shards. length s \<noteq> length (shards ! 0))"
    using assms d by (metis gr_zeroI le_zero_eq nth_mem)
  ultimately have enc: "Encode rs shards = Inr (?in @ ?par)"
    using assms(2) by (simp add: Encode_def)
  have lin: "length ?in = ?d" using assms(2) d by simp
  have "(?in @ ?par) ! i = lincomb L (rsMatrix rs ! i) ?in" if "i < ?t" for i
  proof (cases "i < ?d")
    case True
    then show ?thesis using assms lin d lincomb_systematic [OF assms(1) True lin, of L]
      by (simp add: nth_append)
  next
    case False
    then show ?thesis using that lin lm d by (simp add: nth_append)
  qed
  then have "codeword rs L (?in @ ?par)"
    using assms d lm lin by (auto simp: codeword_def dest: in_set_takeD)
  moreover have "take ?d (?in @ ?par) = ?in" using lin by simp
  ultimately show ?thesis using that [OF enc] by blast
qed

section \<open>Erasure decoding\<close>

lemma scan_present_count:
  assumes "\<forall>i < length shards. present ! i \<longrightarrow> length (shards ! i) = L" "0 < L"
  shows "scan_present shards present =
     (let n = length (filter (\<lambda>i. present ! i) [0..<length shards])
      in Inr (if n = 0 then 0 else L, n))"
proof -
  let ?f = "\<lambda>i (shardLen, numPresent).
        if present ! i
        then (let s = shards ! i
              in if length s = 0 then Inl ErrEmptyPresent
                 else if shardLen = 0 then Inr (length s, numPresent + 1)
                 else if length s \<noteq> shardLen then Inl ErrShardSizeMismatch
                 else Inr (shardLen, numPresent + 1))
        else Inr (shardLen, numPresent)"
  have "for_each ?f [0..<n] (0, 0) =
     (let c = length (filter (\<lambda>i. present ! i) [0..<n]) in Inr (if c = 0 then 0 else L, c))"
    if "n \<le> length shards" for n
    using that
  proof (induction n)
    case (Suc n)
    have "present ! n \<Longrightarrow> length (shards ! n) = L" using Suc.prems assms(1) by simp
    with Suc assms(2) show ?case
      by (subst for_each_upt_Suc) (auto simp: Let_def del: upt_Suc simp: upt_Suc_append)
  qed simp
  then show ?thesis by (simp add: scan_present_def)
qed

lemma split_idx_filter:
  "split_idx d t present =
     (take d (filter (\<lambda>i. present ! i) [0..<t]), filter (\<lambda>i. \<not> present ! i) [0..<t])"
proof (induction t)
  case (Suc t)
  then show ?case by (auto simp: split_idx_def min_def)
qed (simp add: split_idx_def)

lemma fold_zero_nth:
  "fold (\<lambda>mi sh. sh[mi := z]) ms sh =
     map (\<lambda>i. if i \<in> set ms then z else sh ! i) [0..<length sh]"
proof (induction ms arbitrary: sh)
  case Nil
  then show ?case by (simp add: map_nth)
next
  case (Cons m ms)
  show ?case by (simp add: Cons.IH)
qed

lemma fold_write_nth:
  assumes "distinct ms" "length outs = length ms"
  shows "fold (\<lambda>(mi, out) sh. sh[mi := out]) (zip ms outs) sh =
     map (\<lambda>i. case map_of (zip ms outs) i of None \<Rightarrow> sh ! i | Some out \<Rightarrow> out) [0..<length sh]"
  using assms(2,1)
proof (induction outs ms arbitrary: sh rule: list_induct2)
  case Nil
  then show ?case by (simp add: map_nth)
next
  case (Cons out outs m ms)
  have "map_of (zip ms outs) m = None" using Cons by simp
  then have "(case map_of (zip ms outs) i of None \<Rightarrow> sh[m := out] ! i | Some o' \<Rightarrow> o') =
      (case map_of (zip (m # ms) (out # outs)) i of None \<Rightarrow> sh ! i | Some o' \<Rightarrow> o')"
    if "i < length sh" for i
    using that by (cases "i = m") (auto split: option.splits)
  then show ?case using Cons.IH [of "sh[m := out]"] Cons.prems
    by (simp del: map_of_zip_is_None)
qed

lemma fill_missing_lincomb:
  assumes "distinct ms" "\<forall>i \<in> set ms. i < length sh" "inputs \<noteq> []"
    and "\<forall>s \<in> set inputs. length s = L" "\<forall>i \<in> set ms. length (f i) = length inputs"
  shows "fill_missing (map f ms) ms inputs L sh =
     Inr (map (\<lambda>i. if i \<in> set ms then lincomb L (f i) inputs else sh ! i) [0..<length sh])"
proof (cases "ms = []")
  case True
  then show ?thesis by (simp add: fill_missing_def map_nth)
next
  case False
  let ?z = "fold (\<lambda>mi sh. sh[mi := replicate L 0]) ms sh"
  have z: "map (\<lambda>mi. ?z ! mi) ms = map (\<lambda>_. replicate L 0) ms"
    using assms(2) by (auto simp: fold_zero_nth)
  have c: "codeSomeSlices (map f ms) inputs (map (\<lambda>mi. ?z ! mi) ms) =
           Inr (map (\<lambda>i. lincomb L (f i) inputs) ms)"
    unfolding z using assms by (subst codeSomeSlices_lincomb) auto
  have m: "map_of (zip ms (map (\<lambda>i. lincomb L (f i) inputs) ms)) i =
           (if i \<in> set ms then Some (lincomb L (f i) inputs) else None)" for i
    by (simp add: map_of_zip_map)
  show ?thesis
    using False c assms(1) by (simp add: fill_missing_def fold_write_nth m fold_zero_nth)
qed

lemma sub_decode:
  assumes ok: "rs_ok rs" and cw: "codeword rs L cw"
    and idx: "distinct idx" "length idx = dataShards rs" "\<forall>i \<in> set idx. i < totalShards rs"
  obtains D where "Inverse (map (\<lambda>vi. take (dataShards rs) (rsMatrix rs ! vi)) idx) = Inr D"
    "is_mat (dataShards rs) (dataShards rs) D"
    "\<And>i. i < dataShards rs \<Longrightarrow> lincomb L (D ! i) (map (\<lambda>vi. cw ! vi) idx) = cw ! i"
proof -
  let ?d = "dataShards rs" and ?t = "totalShards rs"
  let ?S = "map (\<lambda>vi. take ?d (rsMatrix rs ! vi)) idx"
  have M: "is_mat ?t ?d (rsMatrix rs)" "?d \<le> ?t" using ok by (auto simp: rs_ok_def)
  have row: "take ?d (rsMatrix rs ! i) = rsMatrix rs ! i" if "i < ?t" for i
    using is_mat_nth [OF M(1) that] by simp
  have S: "is_mat ?d ?d ?S" using idx is_mat_nth [OF M(1)] by (auto simp: is_mat_def)
  have mvS: "mv ?S v = map (\<lambda>vi. dot (rsMatrix rs ! vi) v) idx" for v
    using idx(3) row by (simp add: mv_def)
  have "\<not> singular ?d ?S"
  proof
    assume "singular ?d ?S"
    then obtain v where v: "length v = ?d" "nonzero v" "mv ?S v = replicate ?d 0"
      by (auto simp: singular_def)
    have "\<forall>i \<in> set idx. dot (rsMatrix rs ! i) v = 0"
      using v(3) unfolding mvS by (blast dest: map_eq_replicateD)
    then have "v = replicate ?d 0" using ok idx v(1) unfolding rs_ok_def by blast
    then show False using v(2) by (simp add: nonzero_def)
  qed
  then obtain D where D: "Inverse ?S = Inr D" "inverse_of ?d ?S D"
    using Inverse_cases [OF S] by (auto split: sum.splits)
  have Dm: "is_mat ?d ?d D" using D(2) by (simp add: inverse_of_def)
  have "lincomb L (D ! i) (map (\<lambda>vi. cw ! vi) idx) = cw ! i" if i: "i < ?d" for i
  proof (rule nth_equalityI)
    have li: "i < length cw" "length (cw ! i) = L"
      using cw i M(2) by (auto simp: codeword_def)
    then show "length (lincomb L (D ! i) (map (\<lambda>vi. cw ! vi) idx)) = length (cw ! i)" by simp
    fix k assume "k < length (lincomb L (D ! i) (map (\<lambda>vi. cw ! vi) idx))"
    then have k: "k < L" by simp
    let ?c = "column k (take ?d cw)"
    have lc: "length ?c = ?d" using cw M(2) by (simp add: codeword_def)
    have ent: "cw ! vi ! k = dot (rsMatrix rs ! vi) ?c" if "vi \<in> set idx" for vi
    proof -
      have "cw ! vi = lincomb L (rsMatrix rs ! vi) (take ?d cw)"
        using cw idx(3) that by (auto simp: codeword_def)
      then show ?thesis using k by (simp add: lincomb_def)
    qed
    then have col: "column k (map (\<lambda>vi. cw ! vi) idx) = mv ?S ?c"
      unfolding mvS by (simp add: column_def)
    have "lincomb L (D ! i) (map (\<lambda>vi. cw ! vi) idx) ! k = dot (D ! i) (mv ?S ?c)"
      using k col by (simp add: lincomb_def)
    also have "\<dots> = mv D (mv ?S ?c) ! i" using Dm i by (simp add: is_mat_def)
    also have "\<dots> = ?c ! i" using D(2) lc by (simp add: inverse_of_def)
    also have "\<dots> = cw ! i ! k" using i li by (simp add: column_def)
    finally show "lincomb L (D ! i) (map (\<lambda>vi. cw ! vi) idx) ! k = cw ! i ! k" .
  qed
  then show ?thesis using that [OF D(1) Dm] by blast
qed

definition present_count :: "bool list \<Rightarrow> nat" where
  "present_count present = length (filter (\<lambda>p. p) present)"

text \<open>The received shards: those marked present are shards of the codeword \<open>cw\<close>.\<close>

definition received :: "reedSolomon \<Rightarrow> byte list list \<Rightarrow> byte list list \<Rightarrow> bool list \<Rightarrow> bool" where
  "received rs cw shards present \<longleftrightarrow>
     length shards = totalShards rs \<and> length present = totalShards rs \<and>
     (\<forall>i < totalShards rs. present ! i \<longrightarrow> shards ! i = cw ! i)"

lemma present_count_filter:
  assumes "length present = n"
  shows "length (filter (\<lambda>i. present ! i) [0..<n]) = present_count present"
proof -
  have "map (\<lambda>i. present ! i) [0..<n] = present" using assms map_nth [of present] by simp
  then have "present_count present = length (filter (\<lambda>p. p) (map (\<lambda>i. present ! i) [0..<n]))"
    by (simp only: present_count_def)
  then show ?thesis by (simp only: filter_map length_map comp_def)
qed

lemma received_scan:
  assumes "codeword rs L cw" "0 < L" "received rs cw shards present"
  shows "scan_present shards present =
     Inr (if present_count present = 0 then 0 else L, present_count present)"
proof -
  have "\<forall>i < length shards. present ! i \<longrightarrow> length (shards ! i) = L"
    using assms by (auto simp: received_def codeword_def)
  moreover have "length (filter (\<lambda>i. present ! i) [0..<length shards]) = present_count present"
    using assms(3) by (simp only: received_def present_count_filter)
  ultimately show ?thesis
    using scan_present_count [of shards present L] assms(2) by (simp only: Let_def)
qed

lemma all_present:
  "present_count present = length present \<Longrightarrow> i < length present \<Longrightarrow> present ! i"
  by (metis present_count_def filter_id_conv length_filter_less nth_mem order_less_irrefl)

text \<open>The decoding step proper: every missing data shard is restored.\<close>

lemma restore_data:
  assumes ok: "rs_ok rs" and cw: "codeword rs L cw" and rec: "received rs cw shards present"
    and enough: "dataShards rs \<le> present_count present"
  defines "idx \<equiv> take (dataShards rs) (filter (\<lambda>i. present ! i) [0..<totalShards rs])"
  obtains D shards1 where
    "Inverse (map (\<lambda>vi. take (dataShards rs) (rsMatrix rs ! vi)) idx) = Inr D"
    "fill_missing (map (\<lambda>mi. D ! mi)
        (takeWhile (\<lambda>mi. mi < dataShards rs) (filter (\<lambda>i. \<not> present ! i) [0..<totalShards rs])))
        (takeWhile (\<lambda>mi. mi < dataShards rs) (filter (\<lambda>i. \<not> present ! i) [0..<totalShards rs]))
        (map (\<lambda>vi. shards ! vi) idx) L shards = Inr shards1"
    "length shards1 = totalShards rs"
    "\<And>i. i < dataShards rs \<Longrightarrow> shards1 ! i = cw ! i"
    "\<And>i. dataShards rs \<le> i \<Longrightarrow> i < totalShards rs \<Longrightarrow> shards1 ! i = shards ! i"
proof -
  let ?d = "dataShards rs" and ?t = "totalShards rs"
  let ?ms = "takeWhile (\<lambda>mi. mi < ?d) (filter (\<lambda>i. \<not> present ! i) [0..<?t])"
  have d: "0 < ?d" "?d \<le> ?t" using ok by (auto simp: rs_ok_def)
  have len: "length shards = ?t" "length present = ?t" using rec by (auto simp: received_def)
  have idx: "distinct idx" "length idx = ?d" "\<forall>i \<in> set idx. i < ?t" "\<forall>i \<in> set idx. present ! i"
    using enough len present_count_filter [of present ?t]
    by (auto simp: idx_def dest: in_set_takeD)
  obtain D where D: "Inverse (map (\<lambda>vi. take ?d (rsMatrix rs ! vi)) idx) = Inr D" "is_mat ?d ?d D"
    "\<And>i. i < ?d \<Longrightarrow> lincomb L (D ! i) (map (\<lambda>vi. cw ! vi) idx) = cw ! i"
    using sub_decode [OF ok cw idx(1-3)] by metis
  have inp: "map (\<lambda>vi. shards ! vi) idx = map (\<lambda>vi. cw ! vi) idx"
    using idx rec by (auto simp: received_def)
  have "sorted (filter (\<lambda>i. \<not> present ! i) [0..<?t])"
    by (intro sorted_wrt_filter) simp
  then have ms: "set ?ms = {i. i < ?d \<and> \<not> present ! i}"
    using d(2) by (auto simp: takeWhile_less_sorted)
  have fill: "fill_missing (map (\<lambda>mi. D ! mi) ?ms) ?ms (map (\<lambda>vi. cw ! vi) idx) L shards =
     Inr (map (\<lambda>i. if i \<in> set ?ms then lincomb L (D ! i) (map (\<lambda>vi. cw ! vi) idx)
                     else shards ! i) [0..<?t])"
    using d idx cw len D(2) ms
    by (subst fill_missing_lincomb) (auto simp: codeword_def is_mat_nth intro!: distinct_takeWhile)
  show ?thesis
  proof (rule that [OF D(1)])
    show "fill_missing (map (\<lambda>mi. D ! mi) ?ms) ?ms (map (\<lambda>vi. shards ! vi) idx) L shards =
      Inr (map (\<lambda>i. if i \<in> set ?ms then lincomb L (D ! i) (map (\<lambda>vi. cw ! vi) idx)
                     else shards ! i) [0..<?t])"
      using fill by (simp only: inp)
  qed (use d rec D(3) ms in \<open>auto simp: received_def\<close>)
qed

lemma ReconstructData_ok:
  assumes ok: "rs_ok rs" and cw: "codeword rs L cw" "0 < L" and rec: "received rs cw shards present"
    and enough: "dataShards rs \<le> present_count present"
  obtains sh pr where "ReconstructData rs shards present = Inr (sh, pr)"
    "length sh = totalShards rs" "take (dataShards rs) sh = take (dataShards rs) cw"
    "\<And>i. i < dataShards rs \<Longrightarrow> pr ! i"
proof (cases "present_count present = totalShards rs")
  case True
  have len: "length shards = totalShards rs" "length present = totalShards rs" "length cw = totalShards rs"
    using rec cw by (auto simp: received_def codeword_def)
  have p: "present ! i" if "i < totalShards rs" for i
    using all_present [of present i] True len that by simp
  then have "shards = cw" using rec len by - (rule nth_equalityI, auto simp: received_def)
  moreover have "ReconstructData rs shards present = Inr (shards, present)"
    using True len received_scan [OF cw rec] by (simp add: ReconstructData_def reconstructInternal_def)
  ultimately show ?thesis using that p len ok by (auto simp: rs_ok_def)
next
  case False
  let ?d = "dataShards rs"
  obtain D sh where D:
    "Inverse (map (\<lambda>vi. take ?d (rsMatrix rs ! vi))
       (take ?d (filter (\<lambda>i. present ! i) [0..<totalShards rs]))) = Inr D"
    "fill_missing (map (\<lambda>mi. D ! mi)
        (takeWhile (\<lambda>mi. mi < ?d) (filter (\<lambda>i. \<not> present ! i) [0..<totalShards rs])))
        (takeWhile (\<lambda>mi. mi < ?d) (filter (\<lambda>i. \<not> present ! i) [0..<totalShards rs]))
        (map (\<lambda>vi. shards ! vi) (take ?d (filter (\<lambda>i. present ! i) [0..<totalShards rs])))
        L shards = Inr sh"
    "length sh = totalShards rs" "\<And>i. i < ?d \<Longrightarrow> sh ! i = cw ! i"
    "\<And>i. ?d \<le> i \<Longrightarrow> i < totalShards rs \<Longrightarrow> sh ! i = shards ! i"
    by (rule restore_data [OF ok cw(1) rec enough]) (rule that)
  have d: "0 < ?d" "?d \<le> totalShards rs" using ok by (auto simp: rs_ok_def)
  have len: "length shards = totalShards rs" "length present = totalShards rs" "length cw = totalShards rs"
    using rec cw by (auto simp: received_def codeword_def)
  have "ReconstructData rs shards present =
      Inr (sh, replicate ?d True @ drop ?d present)"
    using D(1,2) len False enough d received_scan [OF cw rec]
    by (simp add: ReconstructData_def reconstructInternal_def split_idx_filter Let_def)
  moreover have "take ?d sh = take ?d cw" using D(3,4) len d by - (rule nth_equalityI, auto)
  ultimately show ?thesis using that D(3) by (auto simp: nth_append)
qed

lemma Reconstruct_ok:
  assumes ok: "rs_ok rs" and cw: "codeword rs L cw" "0 < L" and rec: "received rs cw shards present"
    and enough: "dataShards rs \<le> present_count present"
  shows "Reconstruct rs shards present = Inr (cw, replicate (totalShards rs) True)"
proof (cases "present_count present = totalShards rs")
  case True
  have len: "length shards = totalShards rs" "length present = totalShards rs" "length cw = totalShards rs"
    using rec cw by (auto simp: received_def codeword_def)
  have p: "present ! i" if "i < totalShards rs" for i
    using all_present [of present i] True len that by simp
  then have "shards = cw" using rec len by - (rule nth_equalityI, auto simp: received_def)
  moreover have "present = replicate (totalShards rs) True"
    using p len by - (rule nth_equalityI, auto)
  ultimately show ?thesis
    using True len received_scan [OF cw rec] by (simp add: Reconstruct_def reconstructInternal_def)
next
  case False
  let ?d = "dataShards rs" and ?t = "totalShards rs"
  obtain D sh where D:
    "Inverse (map (\<lambda>vi. take ?d (rsMatrix rs ! vi))
       (take ?d (filter (\<lambda>i. present ! i) [0..<?t]))) = Inr D"
    "fill_missing (map (\<lambda>mi. D ! mi)
        (takeWhile (\<lambda>mi. mi < ?d) (filter (\<lambda>i. \<not> present ! i) [0..<?t])))
        (takeWhile (\<lambda>mi. mi < ?d) (filter (\<lambda>i. \<not> present ! i) [0..<?t]))
        (map (\<lambda>vi. shards ! vi) (take ?d (filter (\<lambda>i. present ! i) [0..<?t])))
        L shards = Inr sh"
    "length sh = ?t" "\<And>i. i < ?d \<Longrightarrow> sh ! i = cw ! i"
    "\<And>i. ?d \<le> i \<Longrightarrow> i < ?t \<Longrightarrow> sh ! i = shards ! i"
    by (rule restore_data [OF ok cw(1) rec enough]) (rule that)
  have d: "0 < ?d" "?d \<le> ?t" "is_mat ?t ?d (rsMatrix rs)" "parityRows rs = drop ?d (rsMatrix rs)"
    using ok by (auto simp: rs_ok_def)
  have len: "length shards = ?t" "length present = ?t" "length cw = ?t" "\<forall>s \<in> set cw. length s = L"
    using rec cw by (auto simp: received_def codeword_def)
  have td: "take ?d sh = take ?d cw" using D(3,4) len d by - (rule nth_equalityI, auto)
  let ?ms = "filter (\<lambda>mi. \<not> mi < ?d) (filter (\<lambda>i. \<not> present ! i) [0..<?t])"
  have lm: "length (rsMatrix rs) = ?t" using d(3) by (simp add: is_mat_def)
  have rows: "map (\<lambda>mi. parityRows rs ! (mi - ?d)) ?ms = map (\<lambda>mi. rsMatrix rs ! mi) ?ms"
    using d lm by simp
  have "fill_missing (map (\<lambda>mi. rsMatrix rs ! mi) ?ms) ?ms (take ?d cw) L sh =
        Inr (map (\<lambda>i. if i \<in> set ?ms then lincomb L (rsMatrix rs ! i) (take ?d cw) else sh ! i)
               [0..<length sh])"
  proof (rule fill_missing_lincomb)
    show "distinct ?ms" "\<forall>i \<in> set ?ms. i < length sh" "take ?d cw \<noteq> []" using D(3) d(1,2) len by auto
    show "\<forall>s \<in> set (take ?d cw). length s = L" using len(4) by (blast dest: in_set_takeD)
    show "\<forall>i \<in> set ?ms. length (rsMatrix rs ! i) = length (take ?d cw)"
      using is_mat_nth [OF d(3)] d(2) len(3) by simp
  qed
  also have "map (\<lambda>i. if i \<in> set ?ms then lincomb L (rsMatrix rs ! i) (take ?d cw) else sh ! i)
               [0..<length sh] = cw"
  proof -
    have "(if i \<in> set ?ms then lincomb L (rsMatrix rs ! i) (take ?d cw) else sh ! i) = cw ! i"
      if i: "i < ?t" for i
    proof (cases "i \<in> set ?ms")
      case True
      then show ?thesis using cw(1) i by (auto simp: codeword_def)
    next
      case False
      then have "i < ?d \<or> present ! i" using i by auto
      then show ?thesis using False D(4,5) rec i by (cases "i < ?d") (auto simp: received_def)
    qed
    then have "map (\<lambda>i. if i \<in> set ?ms then lincomb L (rsMatrix rs ! i) (take ?d cw) else sh ! i)
        [0..<length sh] = map (\<lambda>i. cw ! i) [0..<length cw]"
      using D(3) len by (intro map_cong) (simp_all only: atLeastLessThan_iff set_upt)
    then show ?thesis by (simp only: map_nth)
  qed
  finally have fill: "fill_missing (map (\<lambda>mi. parityRows rs ! (mi - ?d)) ?ms) ?ms (take ?d sh) L sh = Inr cw"
    by (simp only: rows td)
  show ?thesis
    using D(1,2) len False enough d(1,2) received_scan [OF cw rec] fill
    by (simp add: Reconstruct_def reconstructInternal_def split_idx_filter Let_def)
qed

section \<open>The cache is transparent\<close>

definition cache_ok :: "reedSolomonCache \<Rightarrow> bool" where
  "cache_ok c \<longleftrightarrow> length (rc_values c) = length (rc_keys c) \<and> distinct (rc_keys c) \<and>
     length (rc_keys c) \<le> rc_capacity c \<and> 0 < rc_capacity c \<and>
     (\<forall>i < length (rc_keys c). case rc_keys c ! i of (d, k) \<Rightarrow>
        newReedSolomon (int (unat d)) (int (unat k)) = Inr (rc_values c ! i))"

lemma index_of_None: "index_of x xs = None \<longleftrightarrow> x \<notin> set xs"
  by (induction xs) auto

lemma index_of_Some: "index_of x xs = Some i \<Longrightarrow> i < length xs \<and> xs ! i = x"
  by (induction xs arbitrary: i) (auto split: if_splits)

lemma cache_ok_zip:
  "cache_ok c \<longleftrightarrow> length (rc_values c) = length (rc_keys c) \<and> distinct (rc_keys c) \<and>
     length (rc_keys c) \<le> rc_capacity c \<and> 0 < rc_capacity c \<and>
     (\<forall>((d, k), rs) \<in> set (zip (rc_keys c) (rc_values c)).
        newReedSolomon (int (unat d)) (int (unat k)) = Inr rs)"
  by (auto simp: cache_ok_def set_zip split: prod.splits) metis+

lemma distinct_move_last:
  "distinct xs \<Longrightarrow> i < length xs \<Longrightarrow> distinct (take i xs @ drop (Suc i) xs @ [xs ! i])"
proof -
  assume d: "distinct xs" and i: "i < length xs"
  then have "distinct (take i xs @ [xs ! i] @ drop (Suc i) xs)"
    by (metis append_Cons append_Nil id_take_nth_drop)
  then show ?thesis by auto
qed

lemma GetOrBuild_ok:
  assumes "cache_ok c"
  shows "cache_ok (snd (GetOrBuild c d k)) \<and>
         fst (GetOrBuild c d k) = newReedSolomon (int (unat d)) (int (unat k)) \<and>
         rc_capacity (snd (GetOrBuild c d k)) = rc_capacity c"
proof (cases "index_of (d, k) (rc_keys c)")
  case (Some i)
  then have i: "i < length (rc_keys c)" "rc_keys c ! i = (d, k)" by (auto dest: index_of_Some)
  have rs: "newReedSolomon (int (unat d)) (int (unat k)) = Inr (rc_values c ! i)"
    using assms i by (auto simp: cache_ok_def)
  have "distinct (take i (rc_keys c) @ drop (Suc i) (rc_keys c) @ [(d, k)])"
    using distinct_move_last [of "rc_keys c" i] assms i by (simp add: cache_ok_def)
  then show ?thesis using assms Some i rs
    by (auto simp: GetOrBuild_def Let_def cache_ok_zip zip_append take_zip [symmetric]
        drop_zip [symmetric] dest: in_set_takeD in_set_dropD)
next
  case None
  show ?thesis
  proof (cases "newReedSolomon (int (unat d)) (int (unat k))")
    case (Inl e)
    then show ?thesis using None assms by (simp add: GetOrBuild_def)
  next
    case (Inr rs)
    have new: "(d, k) \<notin> set (rc_keys c)" using None by (simp add: index_of_None)
    then show ?thesis using None assms Inr
      by (cases "rc_keys c"; cases "rc_values c")
        (auto simp: GetOrBuild_def Let_def cache_ok_zip)
  qed
qed

lemma mulSlice_code [code]:
  "mulSlice c inp out =
     (if c = 0 then Inr (map (\<lambda>_. 0) out)
      else if c = 1 then Inr (take (length out) inp @ drop (length inp) out)
      else if length out < length inp then Inl PanicSlice
      else Inr (map (Mul c) inp @ drop (length inp) out))"
  by (simp add: mulSlice_def MulTable_Mul Let_def)

lemma mulSliceXor_code [code]:
  "mulSliceXor c inp out =
     (if c = 0 then Inr out
      else if length out < length inp then Inl PanicSlice
      else if c = 1 then Inr (map2 (\<lambda>o' b. o' XOR b) out inp @ drop (length inp) out)
      else Inr (map2 (\<lambda>o' b. o' XOR Mul c b) out inp @ drop (length inp) out))"
  by (simp add: mulSliceXor_def MulTable_Mul Let_def)

section \<open>Properties\<close>

lemma newReedSolomon_Inr:
  assumes "newReedSolomon data coding = Inr rs"
  shows "rs_ok rs \<and> dataShards rs = nat data \<and> totalShards rs = nat (data + coding)"
proof -
  have "0 < data" "0 \<le> coding" "data + coding \<le> 256"
    using assms by (auto simp: newReedSolomon_def Let_def split: if_splits)
  then show ?thesis using newReedSolomon_ok [of data coding] assms by (metis sum.inject(2))
qed

text \<open>
  Property C3. The erasure code does its job. For any shard counts that \<^verbatim>\<open>newReedSolomon\<close>
  accepts and any equally long, non-empty shards: after \<^verbatim>\<open>Encode\<close>, whichever shards
  are lost, as long as at least as many shards arrive as there are data shards,
  \<^verbatim>\<open>ReconstructData\<close> returns without an error and its first shards are the original
  data shards.
\<close>

theorem reed_solomon_recovers:
  assumes "newReedSolomon data coding = Inr rs"
    and "length shards = totalShards rs" "\<forall>s \<in> set shards. length s = L" "0 < L"
    and "Encode rs shards = Inr cw"
    and "received rs cw got present" "dataShards rs \<le> present_count present"
  shows "\<exists>sh pr. ReconstructData rs got present = Inr (sh, pr) \<and>
           take (nat data) sh = take (nat data) shards \<and> (\<forall>i < nat data. pr ! i)"
proof -
  have ok: "rs_ok rs" "dataShards rs = nat data" using newReedSolomon_Inr [OF assms(1)] by auto
  have cw: "codeword rs L cw" "take (dataShards rs) cw = take (dataShards rs) shards"
    using Encode_codeword [OF ok(1) assms(2,3)] assms(5) by auto
  obtain sh pr where "ReconstructData rs got present = Inr (sh, pr)"
    "take (dataShards rs) sh = take (dataShards rs) cw" "\<And>i. i < dataShards rs \<Longrightarrow> pr ! i"
    using ReconstructData_ok [OF ok(1) cw(1) assms(4,6,7)] by metis
  then show ?thesis using cw(2) ok(2) by auto
qed

theorem reed_solomon_recovers_witness:
  "\<exists>rs sh pr. newReedSolomon 2 1 = Inr rs \<and>
     ReconstructData rs [[], [3, 4], [5, 14]] [False, True, True] = Inr (sh, pr) \<and>
     take 2 sh = [[1, 2], [3, 4]]"
proof -
  let ?rs = "\<lparr>dataShards = 2, totalShards = 3, rsMatrix = [[1, 0], [0, 1], [3, 2]],
              parityRows = [[3, 2]]\<rparr>"
  have rs: "newReedSolomon 2 1 = Inr ?rs" by code_simp
  have enc: "Encode ?rs [[1, 2], [3, 4], [0, 0]] = Inr [[1, 2], [3, 4], [5, 14]]" by code_simp
  have rec: "received ?rs [[1, 2], [3, 4], [5, 14]] [[], [3, 4], [5, 14]] [False, True, True]"
    by (auto simp: received_def less_Suc_eq numeral_eq_Suc)
  show ?thesis
    using reed_solomon_recovers [OF rs _ _ _ enc rec] rs by (auto simp: present_count_def)
qed

text \<open>With fewer present shards than data shards nothing is guessed.\<close>

lemma too_few_shards_reported:
  assumes "newReedSolomon data coding = Inr rs"
    and "length shards = totalShards rs" "length present = totalShards rs"
    and "\<forall>i < totalShards rs. present ! i \<longrightarrow> length (shards ! i) = L" "0 < L"
    and "present_count present < dataShards rs"
  shows "ReconstructData rs shards present = Inl ErrTooFewShards \<and>
         Reconstruct rs shards present = Inl ErrTooFewShards"
proof -
  have "rs_ok rs" using newReedSolomon_Inr [OF assms(1)] by simp
  then have "present_count present \<noteq> totalShards rs" using assms(6) by (auto simp: rs_ok_def)
  moreover have "scan_present shards present =
      Inr (if present_count present = 0 then 0 else L, present_count present)"
    using scan_present_count [of shards present L] assms(2-5)
    by (simp only: Let_def present_count_filter)
  ultimately show ?thesis using assms(2,3,6)
    by (simp add: ReconstructData_def Reconstruct_def reconstructInternal_def)
qed

text \<open>
  Property C20. \<^verbatim>\<open>Reconstruct\<close> restores the whole codeword or says that it cannot. With at least
  as many present shards as data shards it returns exactly the encoded shards, parity included, all
  marked present; with fewer, it and \<^verbatim>\<open>ReconstructData\<close> return \<^verbatim>\<open>ErrTooFewShards\<close>,
  never a wrong shard.
\<close>

theorem Reconstruct_restores_codeword:
  assumes "newReedSolomon data coding = Inr rs"
    and "length shards = totalShards rs" "\<forall>s \<in> set shards. length s = L" "0 < L"
    and "Encode rs shards = Inr cw" and "received rs cw got present"
  shows "(dataShards rs \<le> present_count present \<longrightarrow>
      Reconstruct rs got present = Inr (cw, replicate (nat (data + coding)) True)) \<and>
    (present_count present < dataShards rs \<longrightarrow>
      Reconstruct rs got present = Inl ErrTooFewShards \<and> ReconstructData rs got present = Inl ErrTooFewShards)"
proof -
  have ok: "rs_ok rs" "totalShards rs = nat (data + coding)"
    using newReedSolomon_Inr [OF assms(1)] by auto
  have cw: "codeword rs L cw" using Encode_codeword [OF ok(1) assms(2,3)] assms(5) by auto
  then have "\<forall>i < totalShards rs. present ! i \<longrightarrow> length (got ! i) = L"
    using assms(6) by (auto simp: received_def codeword_def)
  then show ?thesis
    using Reconstruct_ok [OF ok(1) cw assms(4,6)] too_few_shards_reported [OF assms(1), of got present L]
      assms(4,6) ok(2) by (simp add: received_def)
qed

theorem Reconstruct_restores_codeword_witness:
  "\<exists>rs. newReedSolomon 2 1 = Inr rs \<and>
     Reconstruct rs [[1, 2], [3, 4], []] [True, True, False] =
       Inr ([[1, 2], [3, 4], [5, 14]], [True, True, True])"
proof -
  let ?rs = "\<lparr>dataShards = 2, totalShards = 3, rsMatrix = [[1, 0], [0, 1], [3, 2]],
              parityRows = [[3, 2]]\<rparr>"
  have rs: "newReedSolomon 2 1 = Inr ?rs" by code_simp
  have enc: "Encode ?rs [[1, 2], [3, 4], [0, 0]] = Inr [[1, 2], [3, 4], [5, 14]]" by code_simp
  have rec: "received ?rs [[1, 2], [3, 4], [5, 14]] [[1, 2], [3, 4], []] [True, True, False]"
    by (auto simp: received_def less_Suc_eq numeral_eq_Suc)
  show ?thesis
    using Reconstruct_restores_codeword [OF rs _ _ _ enc rec] rs
    by (auto simp: present_count_def numeral_eq_Suc)
qed

text \<open>
  Property C21. \<^verbatim>\<open>newReedSolomon\<close> builds a codec exactly for a positive number of data
  shards, a non-negative number of coding shards and at most 256 shards in all; the
  inversion of the top Vandermonde block never fails.
\<close>

theorem newReedSolomon_domain:
  "(\<exists>rs. newReedSolomon data coding = Inr rs) \<longleftrightarrow> 0 < data \<and> 0 \<le> coding \<and> data + coding \<le> 256"
proof
  assume "\<exists>rs. newReedSolomon data coding = Inr rs"
  then show "0 < data \<and> 0 \<le> coding \<and> data + coding \<le> 256"
    by (auto simp: newReedSolomon_def Let_def split: if_splits)
next
  assume "0 < data \<and> 0 \<le> coding \<and> data + coding \<le> 256"
  then show "\<exists>rs. newReedSolomon data coding = Inr rs"
    using newReedSolomon_ok [of data coding] by blast
qed

text \<open>
  Property C22. The codec cache is transparent: from a consistent cache (at most
  \<^verbatim>\<open>capacity\<close> entries, each the codec of its key), \<^verbatim>\<open>GetOrBuild\<close> returns what
  \<^verbatim>\<open>newReedSolomon\<close> would return, and leaves a consistent cache with the same capacity.
\<close>

theorem GetOrBuild_transparent:
  assumes "cache_ok c"
  shows "fst (GetOrBuild c d k) = newReedSolomon (int (unat d)) (int (unat k)) \<and>
         cache_ok (snd (GetOrBuild c d k)) \<and>
         length (rc_keys (snd (GetOrBuild c d k))) \<le> rc_capacity c"
proof -
  from GetOrBuild_ok [OF assms, of d k]
  have 1: "cache_ok (snd (GetOrBuild c d k))"
    "fst (GetOrBuild c d k) = newReedSolomon (int (unat d)) (int (unat k))"
    "rc_capacity (snd (GetOrBuild c d k)) = rc_capacity c" by auto
  from 1(1) have "length (rc_keys (snd (GetOrBuild c d k))) \<le> rc_capacity (snd (GetOrBuild c d k))"
    by (simp add: cache_ok_def)
  with 1 show ?thesis by simp
qed

theorem GetOrBuild_transparent_witness:
  "cache_ok newReedSolomonCache \<and>
   fst (GetOrBuild newReedSolomonCache 2 1) = newReedSolomon 2 1"
proof -
  have c: "cache_ok newReedSolomonCache"
    by (simp add: cache_ok_def newReedSolomonCache_def cacheCapacity_def)
  show ?thesis using GetOrBuild_transparent [OF c, of 2 1] c by simp
qed

end
