(* ===== verification/Variant.thy ===== *)
theory Variant
  imports Prelude
begin

text \<open>
  Shred variants, \<^verbatim>\<open>src/variant.go\<close>: the classification of the variant byte and the sizes
  derived from it. The integer constants \<^verbatim>\<open>KindDataLegacy\<close> to \<^verbatim>\<open>KindCodeMerkle\<close> are the
  constructors of a datatype; \<^verbatim>\<open>VariantKind\<close> is a record of the same name.
\<close>

section \<open>Data and operations\<close>

definition ProofNodeSize :: nat where "ProofNodeSize = 20"

definition ResignedExtra :: nat where "ResignedExtra = 64"

datatype shred_class = KindDataLegacy | KindCodeLegacy | KindDataMerkle | KindCodeMerkle

record VariantKind =
  kind :: shred_class
  proofSize :: byte
  resigned :: bool

definition Kind :: "VariantKind \<Rightarrow> shred_class" where
  "Kind v = kind v"

definition IsData :: "VariantKind \<Rightarrow> bool" where
  "IsData v \<longleftrightarrow> kind v = KindDataLegacy \<or> kind v = KindDataMerkle"

definition IsCode :: "VariantKind \<Rightarrow> bool" where
  "IsCode v \<longleftrightarrow> kind v = KindCodeLegacy \<or> kind v = KindCodeMerkle"

definition MerkleSuffix :: "VariantKind \<Rightarrow> nat" where
  "MerkleSuffix v =
     (if kind v = KindDataLegacy \<or> kind v = KindCodeLegacy then 0
      else (let proof = unat (proofSize v) * ProofNodeSize;
                merkleRoot = 32;
                resignedSig = (if resigned v then ResignedExtra else 0)
            in proof + merkleRoot + resignedSig))"

definition ProofSize :: "VariantKind \<Rightarrow> byte" where
  "ProofSize v = (if kind v = KindDataMerkle \<or> kind v = KindCodeMerkle then proofSize v else 0)"

definition Resigned :: "VariantKind \<Rightarrow> bool" where
  "Resigned v = (if kind v = KindDataMerkle \<or> kind v = KindCodeMerkle then resigned v else False)"

definition Equal :: "VariantKind \<Rightarrow> VariantKind \<Rightarrow> bool" where
  "Equal a b \<longleftrightarrow> kind a = kind b \<and> proofSize a = proofSize b \<and> resigned a = resigned b"

definition ClassifyVariant :: "byte \<Rightarrow> VariantKind option" where
  "ClassifyVariant b =
     (if b = 0xA5 then Some \<lparr>kind = KindDataLegacy, proofSize = 0, resigned = False\<rparr>
      else if b = 0x5A then Some \<lparr>kind = KindCodeLegacy, proofSize = 0, resigned = False\<rparr>
      else if b \<ge> 0x60 \<and> b \<le> 0x6F then
        Some \<lparr>kind = KindCodeMerkle, proofSize = b AND 0x0F, resigned = False\<rparr>
      else if b \<ge> 0x70 \<and> b \<le> 0x7F then
        Some \<lparr>kind = KindCodeMerkle, proofSize = b AND 0x0F, resigned = True\<rparr>
      else if b \<ge> 0x90 \<and> b \<le> 0x9F then
        Some \<lparr>kind = KindDataMerkle, proofSize = b AND 0x0F, resigned = False\<rparr>
      else if b \<ge> 0xB0 \<and> b \<le> 0xBF then
        Some \<lparr>kind = KindDataMerkle, proofSize = b AND 0x0F, resigned = True\<rparr>
      else None)"

section \<open>The wire encoding of a variant\<close>

text \<open>
  The specification side: the variant byte of a kind, and the kinds that have one. The
  classification is its exact inverse.
\<close>

fun class_tag :: "shred_class \<Rightarrow> bool \<Rightarrow> byte" where
  "class_tag KindDataLegacy r = 0xA5"
| "class_tag KindCodeLegacy r = 0x5A"
| "class_tag KindCodeMerkle r = (if r then 0x70 else 0x60)"
| "class_tag KindDataMerkle r = (if r then 0xB0 else 0x90)"

definition variant_byte :: "VariantKind \<Rightarrow> byte" where
  "variant_byte v = class_tag (kind v) (resigned v) OR proofSize v"

definition wf_variant :: "VariantKind \<Rightarrow> bool" where
  "wf_variant v \<longleftrightarrow>
     (if kind v = KindDataLegacy \<or> kind v = KindCodeLegacy then proofSize v = 0 \<and> \<not> resigned v
      else proofSize v < 16)"

lemma Equal_iff: "Equal a b \<longleftrightarrow> a = b"
  by (auto simp: Equal_def intro: VariantKind.equality)

lemma IsCode_not_IsData: "IsCode v \<longleftrightarrow> \<not> IsData v"
  by (cases "kind v") (simp_all add: IsCode_def IsData_def)

abbreviation classify_ok :: "byte \<Rightarrow> bool" where
  "classify_ok b \<equiv>
     (case ClassifyVariant b of None \<Rightarrow> True | Some v \<Rightarrow> wf_variant v \<and> variant_byte v = b)"

lemma classify_then_encode: "classify_ok b"
proof -
  have "b = 0xA5 \<or> b = 0x5A \<or> 0x60 \<le> b \<and> b \<le> 0x6F \<or> 0x70 \<le> b \<and> b \<le> 0x7F \<or>
      0x90 \<le> b \<and> b \<le> 0x9F \<or> 0xB0 \<le> b \<and> b \<le> 0xBF \<or> ClassifyVariant b = None"
    by (simp add: ClassifyVariant_def)
  then show ?thesis
  proof (elim disjE)
    assume "b = 0xA5"
    then show ?thesis by (simp add: ClassifyVariant_def wf_variant_def variant_byte_def)
  next
    assume "b = 0x5A"
    then show ?thesis by (simp add: ClassifyVariant_def wf_variant_def variant_byte_def)
  next
    assume "0x60 \<le> b \<and> b \<le> 0x6F"
    then show ?thesis
      by - (rule byte_range_check [where P = classify_ok and m = 96 and n = 112 and b = b], code_simp,
          simp_all add: word_le_nat_alt)
  next
    assume "0x70 \<le> b \<and> b \<le> 0x7F"
    then show ?thesis
      by - (rule byte_range_check [where P = classify_ok and m = 112 and n = 128 and b = b], code_simp,
          simp_all add: word_le_nat_alt)
  next
    assume "0x90 \<le> b \<and> b \<le> 0x9F"
    then show ?thesis
      by - (rule byte_range_check [where P = classify_ok and m = 144 and n = 160 and b = b], code_simp,
          simp_all add: word_le_nat_alt)
  next
    assume "0xB0 \<le> b \<and> b \<le> 0xBF"
    then show ?thesis
      by - (rule byte_range_check [where P = classify_ok and m = 176 and n = 192 and b = b], code_simp,
          simp_all add: word_le_nat_alt)
  qed simp
qed

lemma ClassifyVariant_SomeD:
  "ClassifyVariant b = Some v \<Longrightarrow> wf_variant v \<and> variant_byte v = b"
  using classify_then_encode [of b] by simp

lemma encode_then_classify: "wf_variant v \<Longrightarrow> ClassifyVariant (variant_byte v) = Some v"
proof -
  assume wf: "wf_variant v"
  have nibble: "ClassifyVariant (class_tag k r OR p) = Some \<lparr>kind = k, proofSize = p, resigned = r\<rparr>"
    if "k = KindDataMerkle \<or> k = KindCodeMerkle" "p < 16" for k r and p :: byte
  proof -
    have "list_all (\<lambda>p. ClassifyVariant (class_tag KindDataMerkle False OR p) = Some \<lparr>kind = KindDataMerkle, proofSize = p, resigned = False\<rparr>
      \<and> ClassifyVariant (class_tag KindDataMerkle True OR p) = Some \<lparr>kind = KindDataMerkle, proofSize = p, resigned = True\<rparr>
      \<and> ClassifyVariant (class_tag KindCodeMerkle False OR p) = Some \<lparr>kind = KindCodeMerkle, proofSize = p, resigned = False\<rparr>
      \<and> ClassifyVariant (class_tag KindCodeMerkle True OR p) = Some \<lparr>kind = KindCodeMerkle, proofSize = p, resigned = True\<rparr>) (map of_nat [0..<16])"
      by code_simp
    note byte_range_check [OF this, of p]
    with that show ?thesis by (cases r) (auto simp: word_less_nat_alt)
  qed
  show ?thesis
  proof (cases v)
    case (fields k p r)
    then show ?thesis
      using wf nibble [of k p r]
      by (cases k) (simp_all add: wf_variant_def variant_byte_def ClassifyVariant_def)
  qed
qed

text \<open>
  Property C25. ClassifyVariant is the inverse of the wire encoding of variants: it accepts a byte
  exactly when the byte encodes a well-formed variant, and then returns that variant; an
  accepted variant is either data or code and its Merkle suffix is at most 396 bytes.\<close>

theorem ClassifyVariant_inverse:
  "(ClassifyVariant b = Some v \<longleftrightarrow> wf_variant v \<and> variant_byte v = b) \<and>
   (wf_variant v \<longrightarrow> MerkleSuffix v \<le> 396) \<and> (IsCode v \<longleftrightarrow> \<not> IsData v)"
proof -
  have "MerkleSuffix v \<le> 396" if "wf_variant v"
    using that
    by (auto simp: MerkleSuffix_def wf_variant_def ProofNodeSize_def ResignedExtra_def
        word_less_nat_alt split: if_splits)
  then show ?thesis
    using ClassifyVariant_SomeD encode_then_classify IsCode_not_IsData by blast
qed

theorem ClassifyVariant_inverse_witness:
  "ClassifyVariant 0xB5 = Some \<lparr>kind = KindDataMerkle, proofSize = 5, resigned = True\<rparr> \<and>
   MerkleSuffix \<lparr>kind = KindDataMerkle, proofSize = 5, resigned = True\<rparr> \<le> 396"
  using ClassifyVariant_inverse [of "0xB5" "\<lparr>kind = KindDataMerkle, proofSize = 5, resigned = True\<rparr>"]
  by (simp add: wf_variant_def variant_byte_def)

end
