(* ===== verification/Parser.thy ===== *)
theory Parser
  imports Variant
begin

text \<open>
  The shred parser, \<^verbatim>\<open>src/parser.go\<close> and the parse errors of \<^verbatim>\<open>src/error.go\<close>: the offsets of
  the wire format, the little-endian readers, \<^verbatim>\<open>ParseKind\<close> with its data, code and legacy
  branches, and \<^verbatim>\<open>ParseShred\<close>. Errors are the left values of a sum. The specification side is
  the wire encoding of a data and of a coding shred; parsing inverts it, every parsed shred
  meets the bounds its users rely on, and each error value is characterised.
\<close>

section \<open>Wire offsets, records and errors\<close>

definition VariantOffset :: nat where "VariantOffset = 0x40"
definition SlotOffset :: nat where "SlotOffset = 0x41"
definition IndexOffset :: nat where "IndexOffset = 0x49"
definition VersionOffset :: nat where "VersionOffset = 0x4D"
definition FecSetIndexOffset :: nat where "FecSetIndexOffset = 0x4F"
definition DataParentOffset :: nat where "DataParentOffset = 0x53"
definition DataFlagsOffset :: nat where "DataFlagsOffset = 0x55"
definition DataSizeOffset :: nat where "DataSizeOffset = 0x56"
definition DataHeaderSize :: nat where "DataHeaderSize = 0x58"
definition CodeNumDataOffset :: nat where "CodeNumDataOffset = 0x53"
definition CodeNumCodingOffset :: nat where "CodeNumCodingOffset = 0x55"
definition CodePositionOffset :: nat where "CodePositionOffset = 0x57"
definition CodeHeaderSize :: nat where "CodeHeaderSize = 0x59"

definition dataComplete :: byte where "dataComplete = 0x40"
definition lastInSlot :: byte where "lastInSlot = 0xC0"

definition MaxDataShredSize :: nat where "MaxDataShredSize = 1203"

lemmas parser_consts =
  VariantOffset_def SlotOffset_def IndexOffset_def VersionOffset_def FecSetIndexOffset_def
  DataParentOffset_def DataFlagsOffset_def DataSizeOffset_def DataHeaderSize_def
  CodeNumDataOffset_def CodeNumCodingOffset_def CodePositionOffset_def CodeHeaderSize_def
  MaxDataShredSize_def

datatype parse_error = ErrTooShort | ErrUnknownVariant | ErrPayloadInvalid

record DataShred =
  ds_Slot :: u64
  ds_Index :: u32
  ds_Version :: u16
  ds_FecSetIndex :: u32
  ds_ParentOffset :: u16
  ds_Payload :: "byte list"
  ds_BatchComplete :: bool
  ds_LastInSlot :: bool
  ds_Variant :: VariantKind
  ds_RawLen :: nat

record CodeShred =
  cs_Slot :: u64
  cs_Index :: u32
  cs_Version :: u16
  cs_FecSetIndex :: u32
  cs_NumDataShreds :: u16
  cs_NumCodingShreds :: u16
  cs_Position :: u16
  cs_Coded :: "byte list"
  cs_Variant :: VariantKind

datatype ShredKind = DataKind DataShred | CodeKind CodeShred

record ParsedShred =
  ps_Slot :: u64
  ps_Index :: u32
  ps_Payload :: "byte list"
  ps_BatchComplete :: bool
  ps_LastInSlot :: bool

section \<open>Readers and parsers\<close>

text \<open>
  The offsets the callers pass are the constants above, so \<^verbatim>\<open>offset + n\<close> cannot overflow an
  \<^verbatim>\<open>int\<close> and the source's \<^verbatim>\<open>offset < 0\<close> test never holds; offsets are natural numbers.
\<close>

definition readU16 :: "byte list \<Rightarrow> nat \<Rightarrow> u16 option" where
  "readU16 raw offset =
     (if offset + 2 > length raw then None
      else Some (of_nat (le_nat (subslice offset (offset + 2) raw))))"

definition readU32 :: "byte list \<Rightarrow> nat \<Rightarrow> u32 option" where
  "readU32 raw offset =
     (if offset + 4 > length raw then None
      else Some (of_nat (le_nat (subslice offset (offset + 4) raw))))"

definition readU64 :: "byte list \<Rightarrow> nat \<Rightarrow> u64 option" where
  "readU64 raw offset =
     (if offset + 8 > length raw then None
      else Some (of_nat (le_nat (subslice offset (offset + 8) raw))))"

definition parseDataLegacyFallback :: "byte list \<Rightarrow> u64 \<Rightarrow> u32 \<Rightarrow> parse_error + ShredKind" where
  "parseDataLegacyFallback raw slot index =
     (if DataFlagsOffset \<ge> length raw then Inl ErrPayloadInvalid
      else (let flags = raw ! DataFlagsOffset in
        case readU16 raw DataSizeOffset of
          None \<Rightarrow> Inl ErrPayloadInvalid
        | Some sizeU \<Rightarrow>
           (let size = unat sizeU in
            if size > length raw then Inl ErrPayloadInvalid
            else (let payload = (if size > DataHeaderSize then subslice DataHeaderSize size raw else []) in
              Inr (DataKind
                \<lparr>ds_Slot = slot, ds_Index = index, ds_Version = 0, ds_FecSetIndex = index,
                 ds_ParentOffset = 0, ds_Payload = payload,
                 ds_BatchComplete = (flags AND dataComplete \<noteq> 0),
                 ds_LastInSlot = (flags AND lastInSlot = lastInSlot),
                 ds_Variant = \<lparr>kind = KindDataLegacy, proofSize = 0, resigned = False\<rparr>,
                 ds_RawLen = length raw\<rparr>)))))"

definition parseDataWithKind ::
  "byte list \<Rightarrow> u64 \<Rightarrow> u32 \<Rightarrow> u16 \<Rightarrow> u32 \<Rightarrow> VariantKind \<Rightarrow> parse_error + ShredKind" where
  "parseDataWithKind raw slot index version fecSetIndex variant =
     (if fecSetIndex > index then parseDataLegacyFallback raw slot index
      else case readU16 raw DataParentOffset of
        None \<Rightarrow> Inl ErrPayloadInvalid
      | Some parentOffset \<Rightarrow>
         (if DataFlagsOffset \<ge> length raw then Inl ErrPayloadInvalid
          else (let flags = raw ! DataFlagsOffset in
            case readU16 raw DataSizeOffset of
              None \<Rightarrow> Inl ErrPayloadInvalid
            | Some sizeU \<Rightarrow>
               (let size = unat sizeU in
                if size > MaxDataShredSize then parseDataLegacyFallback raw slot index
                else if size > length raw then Inl ErrPayloadInvalid
                else (let payload = (if size > DataHeaderSize then subslice DataHeaderSize size raw else []) in
                  Inr (DataKind
                    \<lparr>ds_Slot = slot, ds_Index = index, ds_Version = version,
                     ds_FecSetIndex = fecSetIndex, ds_ParentOffset = parentOffset,
                     ds_Payload = payload,
                     ds_BatchComplete = (flags AND dataComplete \<noteq> 0),
                     ds_LastInSlot = (flags AND lastInSlot = lastInSlot),
                     ds_Variant = variant, ds_RawLen = length raw\<rparr>))))))"

definition parseCodeWithKind ::
  "byte list \<Rightarrow> u64 \<Rightarrow> u32 \<Rightarrow> u16 \<Rightarrow> u32 \<Rightarrow> VariantKind \<Rightarrow> parse_error + ShredKind" where
  "parseCodeWithKind raw slot index version fecSetIndex variant =
     (if length raw < CodeHeaderSize then Inl ErrTooShort
      else case readU16 raw CodeNumDataOffset of
        None \<Rightarrow> Inl ErrPayloadInvalid
      | Some numData \<Rightarrow>
         (case readU16 raw CodeNumCodingOffset of
            None \<Rightarrow> Inl ErrPayloadInvalid
          | Some numCoding \<Rightarrow>
             (case readU16 raw CodePositionOffset of
                None \<Rightarrow> Inl ErrPayloadInvalid
              | Some position \<Rightarrow>
                 (if numData = 0 \<or> numCoding = 0 \<or> position \<ge> numCoding then Inl ErrPayloadInvalid
                  else (let suffix = MerkleSuffix variant in
                    if suffix \<ge> length raw then Inl ErrPayloadInvalid
                    else (let codedEnd = length raw - suffix in
                      if codedEnd > length raw then Inl ErrPayloadInvalid
                      else Inr (CodeKind
                        \<lparr>cs_Slot = slot, cs_Index = index, cs_Version = version,
                         cs_FecSetIndex = fecSetIndex, cs_NumDataShreds = numData,
                         cs_NumCodingShreds = numCoding, cs_Position = position,
                         cs_Coded = subslice 0 codedEnd raw, cs_Variant = variant\<rparr>)))))))"

definition ParseKind :: "byte list \<Rightarrow> parse_error + ShredKind" where
  "ParseKind raw =
     (if length raw < DataHeaderSize then Inl ErrTooShort
      else (let variantByte = raw ! VariantOffset in
        case readU64 raw SlotOffset of None \<Rightarrow> Inl ErrPayloadInvalid | Some slot \<Rightarrow>
       (case readU32 raw IndexOffset of None \<Rightarrow> Inl ErrPayloadInvalid | Some index \<Rightarrow>
       (case readU16 raw VersionOffset of None \<Rightarrow> Inl ErrPayloadInvalid | Some version \<Rightarrow>
       (case readU32 raw FecSetIndexOffset of None \<Rightarrow> Inl ErrPayloadInvalid | Some fecSetIndex \<Rightarrow>
       (let fallback = (case parseDataLegacyFallback raw slot index of
                          Inl _ \<Rightarrow> Inl ErrUnknownVariant
                        | Inr res \<Rightarrow> Inr res) in
        case ClassifyVariant variantByte of
          Some kd \<Rightarrow>
            (if IsData kd then parseDataWithKind raw slot index version fecSetIndex kd
             else if IsCode kd then parseCodeWithKind raw slot index version fecSetIndex kd
             else fallback)
        | None \<Rightarrow> fallback))))))"

definition ParseShred :: "byte list \<Rightarrow> ParsedShred option" where
  "ParseShred raw =
     (case ParseKind raw of
        Inl _ \<Rightarrow> None
      | Inr (CodeKind _) \<Rightarrow> None
      | Inr (DataKind d) \<Rightarrow>
          Some \<lparr>ps_Slot = ds_Slot d, ps_Index = ds_Index d, ps_Payload = ds_Payload d,
                ps_BatchComplete = ds_BatchComplete d, ps_LastInSlot = ds_LastInSlot d\<rparr>)"

section \<open>Reading fixed-width fields\<close>

lemma readU16_Some: "offset + 2 \<le> length raw \<Longrightarrow>
    readU16 raw offset = Some (of_nat (le_nat (subslice offset (offset + 2) raw)))"
  by (simp add: readU16_def)

lemma readU32_Some: "offset + 4 \<le> length raw \<Longrightarrow>
    readU32 raw offset = Some (of_nat (le_nat (subslice offset (offset + 4) raw)))"
  by (simp add: readU32_def)

lemma readU64_Some: "offset + 8 \<le> length raw \<Longrightarrow>
    readU64 raw offset = Some (of_nat (le_nat (subslice offset (offset + 8) raw)))"
  by (simp add: readU64_def)

lemma unat_less_pow: "unat (v :: 'a :: len word) < 2 ^ LENGTH('a)"
  by (rule unsigned_less)

lemma readU16_field:
  "length a = offset \<Longrightarrow> readU16 (a @ le_bytes 2 (unat v) @ b) offset = Some v"
  using unat_less_pow [of v] by (auto simp: readU16_def subslice_def)

lemma readU32_field:
  "length a = offset \<Longrightarrow> readU32 (a @ le_bytes 4 (unat v) @ b) offset = Some v"
  using unat_less_pow [of v] by (auto simp: readU32_def subslice_def)

lemma readU64_field:
  "length a = offset \<Longrightarrow> readU64 (a @ le_bytes 8 (unat v) @ b) offset = Some v"
  using unat_less_pow [of v] by (auto simp: readU64_def subslice_def)

section \<open>The wire format\<close>

definition common_header :: "byte list \<Rightarrow> byte \<Rightarrow> u64 \<Rightarrow> u32 \<Rightarrow> u16 \<Rightarrow> u32 \<Rightarrow> byte list" where
  "common_header sig vb slot index version fec =
     sig @ [vb] @ le_bytes 8 (unat slot) @ le_bytes 4 (unat index) @ le_bytes 2 (unat version)
     @ le_bytes 4 (unat fec)"

definition data_packet :: "byte list \<Rightarrow> VariantKind \<Rightarrow> u64 \<Rightarrow> u32 \<Rightarrow> u16 \<Rightarrow> u32 \<Rightarrow> u16 \<Rightarrow> byte
    \<Rightarrow> byte list \<Rightarrow> byte list \<Rightarrow> byte list" where
  "data_packet sig v slot index version fec parent flags payload trailer =
     common_header sig (variant_byte v) slot index version fec
     @ le_bytes 2 (unat parent) @ [flags] @ le_bytes 2 (88 + length payload) @ payload @ trailer"

definition code_packet :: "byte list \<Rightarrow> VariantKind \<Rightarrow> u64 \<Rightarrow> u32 \<Rightarrow> u16 \<Rightarrow> u32 \<Rightarrow> u16 \<Rightarrow> u16 \<Rightarrow> u16
    \<Rightarrow> byte list \<Rightarrow> byte list \<Rightarrow> byte list" where
  "code_packet sig v slot index version fec numData numCoding position coded suffix =
     common_header sig (variant_byte v) slot index version fec
     @ le_bytes 2 (unat numData) @ le_bytes 2 (unat numCoding) @ le_bytes 2 (unat position)
     @ coded @ suffix"

lemma length_common_header [simp]:
  "length (common_header sig vb slot index version fec) = length sig + 19"
  by (simp add: common_header_def)

lemma common_header_reads:
  assumes "length sig = 64"
    and p_def: "p = common_header sig vb slot index version fec @ rest"
  shows "p ! VariantOffset = vb" "readU64 p SlotOffset = Some slot"
    "readU32 p IndexOffset = Some index" "readU16 p VersionOffset = Some version"
    "readU32 p FecSetIndexOffset = Some fec"
proof -
  let ?a = "sig @ [vb]" and ?b = "le_bytes 8 (unat slot)" and ?c = "le_bytes 4 (unat index)"
    and ?d = "le_bytes 2 (unat version)" and ?e = "le_bytes 4 (unat fec)"
  show "p ! VariantOffset = vb"
    using assms by (simp add: p_def common_header_def parser_consts nth_append)
  have "readU64 (?a @ ?b @ (?c @ ?d @ ?e @ rest)) SlotOffset = Some slot"
    by (rule readU64_field) (simp add: assms parser_consts)
  then show "readU64 p SlotOffset = Some slot" by (simp add: p_def common_header_def)
  have "readU32 ((?a @ ?b) @ ?c @ (?d @ ?e @ rest)) IndexOffset = Some index"
    by (rule readU32_field) (simp add: assms parser_consts)
  then show "readU32 p IndexOffset = Some index" by (simp add: p_def common_header_def)
  have "readU16 ((?a @ ?b @ ?c) @ ?d @ (?e @ rest)) VersionOffset = Some version"
    by (rule readU16_field) (simp add: assms parser_consts)
  then show "readU16 p VersionOffset = Some version" by (simp add: p_def common_header_def)
  have "readU32 ((?a @ ?b @ ?c @ ?d) @ ?e @ rest) FecSetIndexOffset = Some fec"
    by (rule readU32_field) (simp add: assms parser_consts)
  then show "readU32 p FecSetIndexOffset = Some fec" by (simp add: p_def common_header_def)
qed

lemma data_packet_reads:
  assumes "length sig = 64" and "88 + length payload < 65536"
    and p_def: "p = data_packet sig v slot index version fec parent flags payload trailer"
  shows "readU16 p DataParentOffset = Some parent" "p ! DataFlagsOffset = flags"
    "readU16 p DataSizeOffset = Some (of_nat (88 + length payload))"
    "subslice DataHeaderSize (88 + length payload) p = payload"
proof -
  let ?h = "common_header sig (variant_byte v) slot index version fec"
    and ?b = "le_bytes 2 (unat parent)"
    and ?c = "le_bytes 2 (unat (of_nat (88 + length payload) :: u16))"
  have sz: "unat (of_nat (88 + length payload) :: u16) = 88 + length payload"
    using assms(2) unfolding unat_of_nat by simp
  have "readU16 (?h @ ?b @ ([flags] @ ?c @ payload @ trailer)) DataParentOffset = Some parent"
    by (rule readU16_field) (simp add: assms parser_consts)
  then show "readU16 p DataParentOffset = Some parent"
    unfolding sz by (simp add: p_def data_packet_def)
  show "p ! DataFlagsOffset = flags"
    using assms by (simp add: p_def data_packet_def parser_consts nth_append)
  have "readU16 ((?h @ ?b @ [flags]) @ ?c @ (payload @ trailer)) DataSizeOffset
      = Some (of_nat (88 + length payload))"
    by (rule readU16_field) (simp add: assms parser_consts)
  then show "readU16 p DataSizeOffset = Some (of_nat (88 + length payload))"
    unfolding sz by (simp add: p_def data_packet_def)
  show "subslice DataHeaderSize (88 + length payload) p = payload"
    using assms by (simp add: p_def data_packet_def parser_consts subslice_def)
qed

lemma code_packet_reads:
  assumes "length sig = 64"
    and p_def: "p = code_packet sig v slot index version fec numData numCoding position coded suffix"
  shows "readU16 p CodeNumDataOffset = Some numData" "readU16 p CodeNumCodingOffset = Some numCoding"
    "readU16 p CodePositionOffset = Some position"
proof -
  let ?h = "common_header sig (variant_byte v) slot index version fec"
    and ?b = "le_bytes 2 (unat numData)" and ?c = "le_bytes 2 (unat numCoding)"
    and ?d = "le_bytes 2 (unat position)"
  have "readU16 (?h @ ?b @ (?c @ ?d @ coded @ suffix)) CodeNumDataOffset = Some numData"
    by (rule readU16_field) (simp add: assms parser_consts)
  then show "readU16 p CodeNumDataOffset = Some numData" by (simp add: p_def code_packet_def)
  have "readU16 ((?h @ ?b) @ ?c @ (?d @ coded @ suffix)) CodeNumCodingOffset = Some numCoding"
    by (rule readU16_field) (simp add: assms parser_consts)
  then show "readU16 p CodeNumCodingOffset = Some numCoding" by (simp add: p_def code_packet_def)
  have "readU16 ((?h @ ?b @ ?c) @ ?d @ (coded @ suffix)) CodePositionOffset = Some position"
    by (rule readU16_field) (simp add: assms parser_consts)
  then show "readU16 p CodePositionOffset = Some position" by (simp add: p_def code_packet_def)
qed

section \<open>Round trips\<close>

lemma dataComplete_bit: "(flags AND dataComplete \<noteq> 0) = bit (flags :: byte) 6"
proof -
  have "dataComplete = push_bit 6 1" by (simp add: dataComplete_def push_bit_eq_mult)
  then show ?thesis by (simp add: bit_iff_and_push_bit_not_eq_0)
qed

lemma lastInSlot_bits: "(flags AND lastInSlot = lastInSlot) = (bit (flags :: byte) 6 \<and> bit flags 7)"
proof -
  have split: "lastInSlot = push_bit 6 1 OR push_bit 7 1"
    by (simp add: lastInSlot_def push_bit_eq_mult)
  have l: "bit lastInSlot n \<longleftrightarrow> n = 6 \<or> n = 7" for n
    unfolding split bit_or_iff bit_push_bit_iff bit_1_iff by auto
  show ?thesis
  proof
    assume "flags AND lastInSlot = lastInSlot"
    then have "bit (flags AND lastInSlot) n = bit lastInSlot n" for n by simp
    then show "bit flags 6 \<and> bit flags 7" unfolding bit_and_iff l by blast
  next
    assume "bit flags 6 \<and> bit flags 7"
    then show "flags AND lastInSlot = lastInSlot" by - (rule bit_eqI, auto simp: bit_and_iff l)
  qed
qed

lemmas data_flags = dataComplete_bit lastInSlot_bits

lemma parse_data_packet:
  assumes "length sig = 64" and "wf_variant v" and "IsData v" and "fec \<le> index"
    and "88 + length payload \<le> 1203"
  shows "ParseKind (data_packet sig v slot index version fec parent flags payload trailer) =
    Inr (DataKind
      \<lparr>ds_Slot = slot, ds_Index = index, ds_Version = version, ds_FecSetIndex = fec,
       ds_ParentOffset = parent, ds_Payload = payload, ds_BatchComplete = bit flags 6,
       ds_LastInSlot = (bit flags 6 \<and> bit flags 7), ds_Variant = v,
       ds_RawLen = 88 + length payload + length trailer\<rparr>)"
proof -
  let ?p = "data_packet sig v slot index version fec parent flags payload trailer"
  have len: "length ?p = 88 + length payload + length trailer"
    using assms by (simp add: data_packet_def)
  define w :: u16 where "w = of_nat (88 + length payload)"
  have sz: "unat w = 88 + length payload"
    using assms(5) unfolding w_def unat_of_nat by simp
  have "?p ! VariantOffset = variant_byte v" "readU64 ?p SlotOffset = Some slot"
    "readU32 ?p IndexOffset = Some index" "readU16 ?p VersionOffset = Some version"
    "readU32 ?p FecSetIndexOffset = Some fec"
    unfolding data_packet_def by (rule common_header_reads [OF assms(1) refl])+
  note head = this [unfolded parser_consts]
  have "88 + length payload < 65536" using assms(5) by simp
  note fields = data_packet_reads [OF assms(1) this refl, folded w_def, unfolded parser_consts]
  have "ParseKind ?p = parseDataWithKind ?p slot index version fec v"
    using assms head len
    by (simp add: ParseKind_def encode_then_classify parser_consts)
  then show ?thesis
    using assms(4,5) len
    by (simp add: parseDataWithKind_def Let_def parser_consts fields sz data_flags
        linorder_not_less [THEN iffD2])
qed

text \<open>
  Property C18. ParseKind inverts the wire encoding of data shreds: for every well-formed data
  variant, header fields with the FEC set index not above the index and a payload that fits
  in 1203 bytes with the header, the parser returns exactly the encoded fields and the payload
  without the trailer (Merkle proof), and decodes the two flag bits.\<close>

theorem ParseKind_data_packet:
  assumes "length sig = 64" and "wf_variant v" and "IsData v" and "fec \<le> index"
    and "88 + length payload \<le> 1203"
  shows "ParseKind (data_packet sig v slot index version fec parent flags payload trailer) =
    Inr (DataKind
      \<lparr>ds_Slot = slot, ds_Index = index, ds_Version = version, ds_FecSetIndex = fec,
       ds_ParentOffset = parent, ds_Payload = payload, ds_BatchComplete = bit flags 6,
       ds_LastInSlot = (bit flags 6 \<and> bit flags 7), ds_Variant = v,
       ds_RawLen = 88 + length payload + length trailer\<rparr>)"
  using assms by (rule parse_data_packet)

theorem ParseKind_data_packet_witness:
  "ParseKind (data_packet (replicate 64 0) \<lparr>kind = KindDataMerkle, proofSize = 2, resigned = False\<rparr>
     7 5 1 4 1 0xC1 [10, 11] [12]) =
   Inr (DataKind
      \<lparr>ds_Slot = 7, ds_Index = 5, ds_Version = 1, ds_FecSetIndex = 4, ds_ParentOffset = 1,
       ds_Payload = [10, 11], ds_BatchComplete = bit (0xC1 :: byte) 6,
       ds_LastInSlot = (bit (0xC1 :: byte) 6 \<and> bit (0xC1 :: byte) 7),
       ds_Variant = \<lparr>kind = KindDataMerkle, proofSize = 2, resigned = False\<rparr>,
       ds_RawLen = 88 + length [10 :: byte, 11] + length [12 :: byte]\<rparr>)"
  by (rule ParseKind_data_packet) (simp_all add: wf_variant_def IsData_def)

lemma parse_code_packet:
  assumes "length sig = 64" and "wf_variant v" and "IsCode v"
    and "0 < numData" and "position < numCoding" and "length suffix = MerkleSuffix v"
  shows "ParseKind (code_packet sig v slot index version fec numData numCoding position coded suffix) =
    Inr (CodeKind
      \<lparr>cs_Slot = slot, cs_Index = index, cs_Version = version, cs_FecSetIndex = fec,
       cs_NumDataShreds = numData, cs_NumCodingShreds = numCoding, cs_Position = position,
       cs_Coded = code_packet sig v slot index version fec numData numCoding position coded [],
       cs_Variant = v\<rparr>)"
proof -
  define p where
    "p = code_packet sig v slot index version fec numData numCoding position coded suffix"
  have len: "length p = 89 + length coded + MerkleSuffix v"
    using assms by (simp add: p_def code_packet_def)
  have "p ! VariantOffset = variant_byte v" "readU64 p SlotOffset = Some slot"
    "readU32 p IndexOffset = Some index" "readU16 p VersionOffset = Some version"
    "readU32 p FecSetIndexOffset = Some fec"
    unfolding p_def code_packet_def by (rule common_header_reads [OF assms(1) refl])+
  note head = this [unfolded parser_consts]
  have "readU16 p CodeNumDataOffset = Some numData" "readU16 p CodeNumCodingOffset = Some numCoding"
    "readU16 p CodePositionOffset = Some position"
    unfolding p_def by (rule code_packet_reads [OF assms(1) refl])+
  note fields = this [unfolded parser_consts]
  have "ParseKind p = parseCodeWithKind p slot index version fec v"
    using assms(2,3) head len IsCode_not_IsData [of v]
    by (simp add: ParseKind_def encode_then_classify parser_consts)
  moreover have "numData \<noteq> 0" "numCoding \<noteq> 0" "\<not> numCoding \<le> position"
    using assms(4,5) by (auto simp: word_less_nat_alt word_le_nat_alt)
  moreover have "take (89 + length coded) p =
      code_packet sig v slot index version fec numData numCoding position coded []"
    using assms(1) by (simp add: p_def code_packet_def)
  ultimately show ?thesis
    using len unfolding p_def [symmetric]
    by (simp add: parseCodeWithKind_def Let_def parser_consts fields subslice_def)
qed

text \<open>
  Property C23. ParseKind inverts the wire encoding of coding shreds: when the header announces at
  least one data shred and a position below the number of coding shreds, the parser returns
  the encoded fields, and the erasure-coded part is the packet without the Merkle suffix of
  its variant.\<close>

theorem ParseKind_code_packet:
  assumes "length sig = 64" and "wf_variant v" and "IsCode v"
    and "0 < numData" and "position < numCoding" and "length suffix = MerkleSuffix v"
  shows "ParseKind (code_packet sig v slot index version fec numData numCoding position coded suffix) =
    Inr (CodeKind
      \<lparr>cs_Slot = slot, cs_Index = index, cs_Version = version, cs_FecSetIndex = fec,
       cs_NumDataShreds = numData, cs_NumCodingShreds = numCoding, cs_Position = position,
       cs_Coded = code_packet sig v slot index version fec numData numCoding position coded [],
       cs_Variant = v\<rparr>)"
  by (rule parse_code_packet [OF assms])

theorem ParseKind_code_packet_witness:
  "ParseKind (code_packet (replicate 64 0) \<lparr>kind = KindCodeLegacy, proofSize = 0, resigned = False\<rparr>
     7 5 1 4 2 2 1 [10, 11] []) =
   Inr (CodeKind
      \<lparr>cs_Slot = 7, cs_Index = 5, cs_Version = 1, cs_FecSetIndex = 4, cs_NumDataShreds = 2,
       cs_NumCodingShreds = 2, cs_Position = 1,
       cs_Coded = code_packet (replicate 64 0)
         \<lparr>kind = KindCodeLegacy, proofSize = 0, resigned = False\<rparr> 7 5 1 4 2 2 1 [10, 11] [],
       cs_Variant = \<lparr>kind = KindCodeLegacy, proofSize = 0, resigned = False\<rparr>\<rparr>)"
  by (rule ParseKind_code_packet) (simp_all add: wf_variant_def IsCode_def MerkleSuffix_def)

section \<open>Bounds and errors\<close>

text \<open>What the users of a parsed shred rely on.\<close>

definition data_shred_ok :: "byte list \<Rightarrow> DataShred \<Rightarrow> bool" where
  "data_shred_ok raw d \<longleftrightarrow>
     ds_FecSetIndex d \<le> ds_Index d \<and> IsData (ds_Variant d) \<and> wf_variant (ds_Variant d) \<and>
     ds_RawLen d = length raw \<and> 88 + length (ds_Payload d) \<le> length raw \<and>
     88 + length (ds_Payload d) \<le> 65535 \<and>
     ds_Payload d = subslice 88 (88 + length (ds_Payload d)) raw"

definition code_shred_ok :: "byte list \<Rightarrow> CodeShred \<Rightarrow> bool" where
  "code_shred_ok raw c \<longleftrightarrow>
     0 < cs_NumDataShreds c \<and> cs_Position c < cs_NumCodingShreds c \<and>
     IsCode (cs_Variant c) \<and> wf_variant (cs_Variant c) \<and> cs_Coded c \<noteq> [] \<and>
     cs_Coded c = take (length raw - MerkleSuffix (cs_Variant c)) raw"

definition size_field :: "byte list \<Rightarrow> nat" where
  "size_field raw = le_nat (subslice 86 88 raw)"

lemma size_field_bound: "88 \<le> length raw \<Longrightarrow> size_field raw \<le> 65535"
proof -
  assume "88 \<le> length raw"
  then have "length (subslice 86 88 raw) = 2" by simp
  then show ?thesis using le_nat_bound [of "subslice 86 88 raw"] by (simp add: size_field_def)
qed

lemma readU16_size:
  assumes "88 \<le> length raw"
  obtains w where "readU16 raw 86 = Some w" and "unat w = size_field raw"
proof
  show "readU16 raw 86 = Some (of_nat (size_field raw))"
    using assms by (simp add: readU16_def size_field_def)
  show "unat (of_nat (size_field raw) :: u16) = size_field raw"
    using size_field_bound [OF assms] by (simp add: unat_of_nat)
qed

lemma legacy_cases:
  assumes "88 \<le> length raw"
  shows "parseDataLegacyFallback raw slot index =
    (if size_field raw > length raw then Inl ErrPayloadInvalid
     else Inr (DataKind
       \<lparr>ds_Slot = slot, ds_Index = index, ds_Version = 0, ds_FecSetIndex = index,
        ds_ParentOffset = 0, ds_Payload = subslice 88 (size_field raw) raw,
        ds_BatchComplete = bit (raw ! 85) 6, ds_LastInSlot = (bit (raw ! 85) 6 \<and> bit (raw ! 85) 7),
        ds_Variant = \<lparr>kind = KindDataLegacy, proofSize = 0, resigned = False\<rparr>,
        ds_RawLen = length raw\<rparr>))"
proof -
  obtain w where "readU16 raw 86 = Some w" "unat w = size_field raw"
    using readU16_size [OF assms] .
  then show ?thesis
    using assms
    by (simp add: parseDataLegacyFallback_def parser_consts Let_def data_flags subslice_def)
qed

lemma data_cases:
  assumes "88 \<le> length raw"
  shows "parseDataWithKind raw slot index version fec v =
    (if fec > index \<or> size_field raw > 1203 then parseDataLegacyFallback raw slot index
     else if size_field raw > length raw then Inl ErrPayloadInvalid
     else Inr (DataKind
       \<lparr>ds_Slot = slot, ds_Index = index, ds_Version = version, ds_FecSetIndex = fec,
        ds_ParentOffset = of_nat (le_nat (subslice 83 85 raw)),
        ds_Payload = subslice 88 (size_field raw) raw,
        ds_BatchComplete = bit (raw ! 85) 6, ds_LastInSlot = (bit (raw ! 85) 6 \<and> bit (raw ! 85) 7),
        ds_Variant = v, ds_RawLen = length raw\<rparr>))"
proof -
  obtain w where "readU16 raw 86 = Some w" "unat w = size_field raw"
    using readU16_size [OF assms] .
  moreover have "readU16 raw 83 = Some (of_nat (le_nat (subslice 83 85 raw)))"
    using assms by (simp add: readU16_def)
  ultimately show ?thesis
    using assms
    by (simp add: parseDataWithKind_def parser_consts Let_def data_flags subslice_def)
qed

lemma ParseKind_cases:
  assumes "88 \<le> length raw"
  obtains slot index version fec where
    "ParseKind raw =
       (case ClassifyVariant (raw ! 64) of
          None \<Rightarrow> (if size_field raw > length raw then Inl ErrUnknownVariant
                   else parseDataLegacyFallback raw slot index)
        | Some v \<Rightarrow> (if IsData v then parseDataWithKind raw slot index version fec v
                    else parseCodeWithKind raw slot index version fec v))"
proof
  show "ParseKind raw =
       (case ClassifyVariant (raw ! 64) of
          None \<Rightarrow> (if size_field raw > length raw then Inl ErrUnknownVariant
                   else parseDataLegacyFallback raw (the (readU64 raw SlotOffset)) (the (readU32 raw IndexOffset)))
        | Some v \<Rightarrow> (if IsData v then parseDataWithKind raw (the (readU64 raw SlotOffset))
              (the (readU32 raw IndexOffset)) (the (readU16 raw VersionOffset))
              (the (readU32 raw FecSetIndexOffset)) v
            else parseCodeWithKind raw (the (readU64 raw SlotOffset)) (the (readU32 raw IndexOffset))
              (the (readU16 raw VersionOffset)) (the (readU32 raw FecSetIndexOffset)) v))"
    using assms
    by (simp add: ParseKind_def parser_consts Let_def IsCode_not_IsData legacy_cases
        readU64_Some readU32_Some readU16_Some split: option.split)
qed

lemma legacy_ok:
  assumes "88 \<le> length raw" and "parseDataLegacyFallback raw slot index = Inr (DataKind d)"
  shows "data_shred_ok raw d"
  using assms size_field_bound [OF assms(1)]
  by (auto simp: legacy_cases data_shred_ok_def IsData_def wf_variant_def subslice_def
      split: if_splits)

lemma data_ok:
  assumes "88 \<le> length raw" and "parseDataWithKind raw slot index version fec v = Inr (DataKind d)"
    and "IsData v" and "wf_variant v"
  shows "data_shred_ok raw d"
  using assms size_field_bound [OF assms(1)] legacy_ok [OF assms(1)]
  by (auto simp: data_cases data_shred_ok_def subslice_def split: if_splits)

lemma code_ok:
  assumes "parseCodeWithKind raw slot index version fec v = Inr (CodeKind c)"
    and "IsCode v" and "wf_variant v"
  shows "code_shred_ok raw c"
  using assms
  by (auto simp: parseCodeWithKind_def Let_def code_shred_ok_def subslice_def word_neq_0_conv not_le
      split: if_splits option.splits)

lemma parsed_ok:
  assumes "ParseKind raw = Inr k"
  shows "case k of DataKind d \<Rightarrow> data_shred_ok raw d | CodeKind c \<Rightarrow> code_shred_ok raw c"
proof -
  have len: "88 \<le> length raw"
    using assms by (auto simp: ParseKind_def parser_consts split: if_splits)
  obtain slot index version fec where e: "ParseKind raw =
       (case ClassifyVariant (raw ! 64) of
          None \<Rightarrow> (if size_field raw > length raw then Inl ErrUnknownVariant
                   else parseDataLegacyFallback raw slot index)
        | Some v \<Rightarrow> (if IsData v then parseDataWithKind raw slot index version fec v
                    else parseCodeWithKind raw slot index version fec v))"
    using ParseKind_cases [OF len] .
  have code: "parseDataLegacyFallback raw slot index \<noteq> Inr (CodeKind c)"
    "parseDataWithKind raw slot index version fec v \<noteq> Inr (CodeKind c)"
    "parseCodeWithKind raw slot index version fec v \<noteq> Inr (DataKind d)" for c d v
    by (auto simp: legacy_cases [OF len] data_cases [OF len] parseCodeWithKind_def Let_def
        split: option.splits if_splits)
  show ?thesis
  proof (cases k)
    case (DataKind d)
    with assms e code legacy_ok [OF len] data_ok [OF len] ClassifyVariant_SomeD
    show ?thesis by (auto split: option.splits if_splits)
  next
    case (CodeKind c)
    with assms e code code_ok ClassifyVariant_SomeD IsCode_not_IsData
    show ?thesis by (auto split: option.splits if_splits)
  qed
qed



text \<open>
  Property C24. Each outcome of ParseKind is characterised. ErrTooShort means fewer than 88 bytes, or
  exactly 88 with a coding variant; ErrUnknownVariant means an unclassified variant byte and a
  size field beyond the packet; a data or unclassified variant is accepted exactly when its
  size field is at most the packet length, so an unknown variant byte alone never rejects a
  packet.\<close>

theorem ParseKind_outcomes:
  "(ParseKind raw = Inl ErrTooShort \<longleftrightarrow>
      length raw < 88 \<or>
      length raw = 88 \<and> (\<exists>v. ClassifyVariant (raw ! 64) = Some v \<and> IsCode v)) \<and>
   (ParseKind raw = Inl ErrUnknownVariant \<longleftrightarrow>
      88 \<le> length raw \<and> ClassifyVariant (raw ! 64) = None \<and> length raw < size_field raw) \<and>
   ((\<exists>d. ParseKind raw = Inr (DataKind d)) \<longleftrightarrow>
      88 \<le> length raw \<and> size_field raw \<le> length raw \<and>
      \<not> (\<exists>v. ClassifyVariant (raw ! 64) = Some v \<and> IsCode v))"
proof (cases "88 \<le> length raw")
  case False
  then show ?thesis by (simp add: ParseKind_def parser_consts)
next
  case len: True
  obtain slot index version fec where e: "ParseKind raw =
       (case ClassifyVariant (raw ! 64) of
          None \<Rightarrow> (if size_field raw > length raw then Inl ErrUnknownVariant
                   else parseDataLegacyFallback raw slot index)
        | Some v \<Rightarrow> (if IsData v then parseDataWithKind raw slot index version fec v
                    else parseCodeWithKind raw slot index version fec v))"
    using ParseKind_cases [OF len] .
  have code: "parseCodeWithKind raw slot index version fec v = Inl ErrTooShort \<longleftrightarrow> length raw = 88"
    "parseCodeWithKind raw slot index version fec v \<noteq> Inl ErrUnknownVariant"
    "parseCodeWithKind raw slot index version fec v \<noteq> Inr (DataKind d)" for v d
    using len by (auto simp: parseCodeWithKind_def parser_consts Let_def split: option.splits if_splits)
  show ?thesis
  proof (cases "ClassifyVariant (raw ! 64)")
    case None
    then show ?thesis using e len by (simp add: legacy_cases)
  next
    case (Some v)
    then show ?thesis
      using e len code by (cases "IsData v") (auto simp: data_cases legacy_cases IsCode_not_IsData)
  qed
qed

end
