(* ===== verification/Pool.thy ===== *)
theory Pool
  imports Prelude "HOL-Library.Multiset"
begin

text \<open>
  The packet buffer pool, \<^verbatim>\<open>src/pool.go\<close>. The pool is a record with the freelist (a stack whose
  top is its last element) and the contents of all buffers; a handle is a record with the
  index of its buffer, its length and whether its \<^verbatim>\<open>pool\<close> pointer is still set. The slice
  \<^verbatim>\<open>buf\<close> of a handle aliases the pool's buffer, so reading and writing through a handle goes to
  the pool. Every operation runs under the pool's mutex and is one step here. Panics are \<open>None\<close>.

  The interface a client relies on is the locale \<open>resource_pool\<close>: indices are handed out at
  most once and come back when released. It is interpreted on the operations of the pool.
\<close>

section \<open>State and operations\<close>

definition BufferSize :: nat where "BufferSize = 2048"

definition maxPoolCapacity :: nat where "maxPoolCapacity = 65535"

record bufferPool =
  freelist :: "u16 list"
  buffers :: "byte list list"
  capacity :: nat

record BufferHandle =
  attached :: bool
  h_idx :: u16
  h_length :: nat

definition newBufferPool :: "int \<Rightarrow> bufferPool option" where
  "newBufferPool cap =
     (if cap \<le> 0 \<or> cap > int maxPoolCapacity then None
      else Some \<lparr>freelist = rev (map of_nat [0..<nat cap]),
                 buffers = replicate (nat cap) (replicate BufferSize 0),
                 capacity = nat cap\<rparr>)"

definition acquire :: "bufferPool \<Rightarrow> (BufferHandle \<times> bufferPool) option" where
  "acquire p =
     (if freelist p = [] then None
      else (let idx = last (freelist p) in
        Some (\<lparr>attached = True, h_idx = idx, h_length = 0\<rparr>, p\<lparr>freelist := butlast (freelist p)\<rparr>)))"

definition pool_release :: "u16 \<Rightarrow> bufferPool \<Rightarrow> bufferPool" where
  "pool_release idx p = p\<lparr>freelist := freelist p @ [idx]\<rparr>"

definition available :: "bufferPool \<Rightarrow> nat" where
  "available p = length (freelist p)"

definition Bytes :: "bufferPool \<Rightarrow> BufferHandle option \<Rightarrow> byte list" where
  "Bytes p h = (case h of None \<Rightarrow> [] | Some h \<Rightarrow> take (h_length h) (buffers p ! unat (h_idx h)))"

definition Mut :: "bufferPool \<Rightarrow> BufferHandle \<Rightarrow> byte list" where
  "Mut p h = buffers p ! unat (h_idx h)"

text \<open>\<^verbatim>\<open>copy(handle.Mut()[:n], src)\<close>: the first bytes of the buffer are overwritten.\<close>

definition write_buf :: "BufferHandle \<Rightarrow> byte list \<Rightarrow> bufferPool \<Rightarrow> bufferPool" where
  "write_buf h src p =
     p\<lparr>buffers := (buffers p)[unat (h_idx h) := src @ drop (length src) (Mut p h)]\<rparr>"

definition SetLen :: "int \<Rightarrow> BufferHandle \<Rightarrow> BufferHandle option" where
  "SetLen n h = (if n < 0 \<or> n > int BufferSize then None else Some (h\<lparr>h_length := nat n\<rparr>))"

definition Len :: "BufferHandle option \<Rightarrow> nat" where
  "Len h = (case h of None \<Rightarrow> 0 | Some h \<Rightarrow> h_length h)"

definition Release :: "BufferHandle option \<Rightarrow> bufferPool \<Rightarrow> BufferHandle option \<times> bufferPool" where
  "Release h p =
     (case h of
        None \<Rightarrow> (None, p)
      | Some h \<Rightarrow>
          (if \<not> attached h then (Some h, p)
           else (Some (h\<lparr>attached := False\<rparr>), pool_release (h_idx h) p)))"

section \<open>The pool interface\<close>

text \<open>
  \<open>ok H p\<close>: the pool \<open>p\<close> is consistent while exactly the indices of the multiset \<open>H\<close> are held
  by clients.
\<close>

locale resource_pool =
  fixes take_one :: "'p \<Rightarrow> ('i \<times> 'p) option"
    and give_back :: "'i \<Rightarrow> 'p \<Rightarrow> 'p"
    and ok :: "'i multiset \<Rightarrow> 'p \<Rightarrow> bool"
  assumes take_ok: "ok H p \<Longrightarrow> take_one p = Some (i, q) \<Longrightarrow> ok (add_mset i H) q"
    and take_fresh: "ok H p \<Longrightarrow> take_one p = Some (i, q) \<Longrightarrow> i \<notin># H"
    and give_ok: "ok (add_mset i H) p \<Longrightarrow> ok H (give_back i p)"
    and held_once: "ok H p \<Longrightarrow> count H i \<le> 1"
begin

lemma give_all: "ok (mset is + H) p \<Longrightarrow> ok H (fold give_back is p)"
  by (induction "is" arbitrary: p) (simp_all add: give_ok)

lemma give_all_mset: "ok H p \<Longrightarrow> mset is \<subseteq># H \<Longrightarrow> ok (H - mset is) (fold give_back is p)"
  by (metis give_all subset_mset.add_diff_inverse)

lemma take_then_give:
  assumes "ok H p" and "take_one p = Some (i, q)"
  shows "ok H (give_back i q)"
  using give_ok [OF take_ok [OF assms]] .

end

definition pool_ok :: "u16 multiset \<Rightarrow> bufferPool \<Rightarrow> bool" where
  "pool_ok H p \<longleftrightarrow>
     0 < capacity p \<and> capacity p \<le> maxPoolCapacity \<and>
     length (buffers p) = capacity p \<and> (\<forall>b \<in> set (buffers p). length b = BufferSize) \<and>
     mset (freelist p) + H = mset (map of_nat [0..<capacity p])"

lemma of_nat_u16_inj: "x < 65536 \<Longrightarrow> y < 65536 \<Longrightarrow> (of_nat x :: u16) = of_nat y \<longleftrightarrow> x = y"
  by (simp add: word_unat_eq_iff unat_of_nat)

lemma pool_indices_distinct:
  assumes "pool_ok H p"
  shows "distinct (map of_nat [0..<capacity p] :: u16 list)"
  using assms
  by (auto simp: distinct_map pool_ok_def maxPoolCapacity_def inj_on_def of_nat_u16_inj)

lemma pool_count_le: "pool_ok H p \<Longrightarrow> count (mset (freelist p) + H) i \<le> 1"
  using pool_indices_distinct [of H p] distinct_count_atmost_1 [of "map of_nat [0..<capacity p]"]
  by (auto simp: pool_ok_def)

interpretation bp: resource_pool
  "\<lambda>p. map_option (\<lambda>(h, q). (h_idx h, q)) (acquire p)" pool_release pool_ok
proof
  fix H :: "u16 multiset" and p q :: bufferPool and i :: u16
  assume ok: "pool_ok H p"
  show "count H i \<le> 1" using pool_count_le [OF ok, of i] by simp
  assume "map_option (\<lambda>(h, q). (h_idx h, q)) (acquire p) = Some (i, q)"
  then have ne: "freelist p \<noteq> []" and i: "i = last (freelist p)"
    and q: "q = p\<lparr>freelist := butlast (freelist p)\<rparr>"
    by (auto simp: acquire_def Let_def split: if_splits)
  have split: "mset (freelist p) = add_mset i (mset (butlast (freelist p)))"
    using ne unfolding i by (metis append_butlast_last_id mset_append mset_single_iff union_mset_add_mset_right add.right_neutral mset.simps)
  show "pool_ok (add_mset i H) q" using ok split by (simp add: pool_ok_def q)
  show "i \<notin># H" using pool_count_le [OF ok, of i] by (auto simp: split not_in_iff)
next
  fix H :: "u16 multiset" and p :: bufferPool and i :: u16
  assume "pool_ok (add_mset i H) p"
  then show "pool_ok H (pool_release i p)" by (simp add: pool_ok_def pool_release_def)
qed

section \<open>Consequences\<close>

lemma newBufferPool_ok:
  "newBufferPool cap = Some p \<Longrightarrow> pool_ok {#} p \<and> capacity p = nat cap \<and> available p = nat cap"
  by (auto simp: newBufferPool_def pool_ok_def maxPoolCapacity_def available_def split: if_splits)

lemma pool_index_bound:
  assumes "pool_ok H p" and "i \<in># mset (freelist p) + H"
  shows "unat i < length (buffers p)"
proof -
  from assms have "i \<in> of_nat ` {0..<capacity p}" by (simp add: pool_ok_def)
  moreover have "capacity p < 65536" using assms(1) by (simp add: pool_ok_def maxPoolCapacity_def)
  ultimately show ?thesis using assms(1) by (auto simp: pool_ok_def unat_of_nat)
qed

lemma acquire_ok:
  assumes "pool_ok H p" and "acquire p = Some (h, q)"
  shows "pool_ok (add_mset (h_idx h) H) q" and "h_idx h \<notin># H" and "attached h" and "h_length h = 0"
    and "buffers q = buffers p" and "capacity q = capacity p"
  using bp.take_ok [OF assms(1)] bp.take_fresh [OF assms(1)] assms(2)
  by (auto simp: acquire_def Let_def split: if_splits)

lemma available_held: "pool_ok H p \<Longrightarrow> available p + size H = capacity p"
proof -
  assume "pool_ok H p"
  then have "size (mset (freelist p) + H) = capacity p" by (simp add: pool_ok_def)
  then show ?thesis by (simp add: available_def)
qed

lemma acquire_None_iff:
  assumes "pool_ok H p"
  shows "acquire p = None \<longleftrightarrow> size H = capacity p"
proof -
  have "size (mset (freelist p) + H) = capacity p" using assms by (simp add: pool_ok_def)
  then show ?thesis by (auto simp: acquire_def Let_def)
qed

lemma Release_ok:
  assumes "pool_ok (add_mset (h_idx h) H) p" and "attached h"
  shows "pool_ok H (snd (Release (Some h) p))"
  using bp.give_ok [OF assms(1)] assms(2) by (simp add: Release_def)

lemma write_buf_ok:
  assumes "pool_ok H p" and "h_idx h \<in># H" and "length src \<le> BufferSize"
  shows "pool_ok H (write_buf h src p)"
proof -
  have i: "unat (h_idx h) < length (buffers p)" using pool_index_bound [OF assms(1)] assms(2) by simp
  then have "length (Mut p h) = BufferSize" using assms(1) by (simp add: pool_ok_def Mut_def)
  then have "length (src @ drop (length src) (Mut p h)) = BufferSize" using assms(3) by simp
  then show ?thesis
    using assms(1) by (auto simp: pool_ok_def write_buf_def dest: set_update_subset_insert [THEN subsetD])
qed

lemma Bytes_write_same:
  assumes "pool_ok H p" and "h_idx h \<in># H" and "h_length h = length src" and "length src \<le> BufferSize"
  shows "Bytes (write_buf h src p) (Some h) = src"
  using assms pool_index_bound [OF assms(1), of "h_idx h"] by (simp add: Bytes_def write_buf_def)

lemma Bytes_write_other:
  "h_idx g \<noteq> h_idx h \<Longrightarrow> Bytes (write_buf h src p) (Some g) = Bytes p (Some g)"
  by (simp add: Bytes_def write_buf_def word_unat_eq_iff)

lemma Bytes_pool_release [simp]: "Bytes (pool_release i p) h = Bytes p h"
  by (simp add: Bytes_def pool_release_def split: option.split)

lemma buffers_fold_release [simp]: "buffers (fold pool_release is p) = buffers p"
  by (induction "is" arbitrary: p) (simp_all add: pool_release_def)

lemma Bytes_cong: "buffers p = buffers q \<Longrightarrow> Bytes p h = Bytes q h"
  by (simp add: Bytes_def split: option.split)

text \<open>
  Property C32. The pool gives every buffer to at most one owner. From a consistent state in which
  the buffers \<open>H\<close> are held, acquire fails exactly when all buffers are held; otherwise it
  returns a handle on a buffer nobody holds, the state stays consistent, releasing the handle
  restores the previous ownership and releasing it again changes nothing.\<close>

theorem pool_exclusive_ownership:
  assumes "pool_ok H p"
  shows "(acquire p = None \<longleftrightarrow> size H = capacity p) \<and>
    (\<forall>h q. acquire p = Some (h, q) \<longrightarrow>
       h_idx h \<notin># H \<and> unat (h_idx h) < length (buffers q) \<and> pool_ok (add_mset (h_idx h) H) q \<and>
       (case Release (Some h) q of (h1, q1) \<Rightarrow> pool_ok H q1 \<and> Release h1 q1 = (h1, q1)))"
proof (intro conjI allI impI)
  show "acquire p = None \<longleftrightarrow> size H = capacity p" by (rule acquire_None_iff [OF assms])
  fix h q
  assume acq: "acquire p = Some (h, q)"
  note a = acquire_ok [OF assms acq]
  show "h_idx h \<notin># H" "pool_ok (add_mset (h_idx h) H) q" by (fact a)+
  show "unat (h_idx h) < length (buffers q)" using pool_index_bound [OF a(1)] by simp
  show "case Release (Some h) q of (h1, q1) \<Rightarrow> pool_ok H q1 \<and> Release h1 q1 = (h1, q1)"
    using Release_ok [OF a(1,3)] a(3) by (simp add: Release_def)
qed

theorem pool_exclusive_ownership_witness:
  "acquire \<lparr>freelist = [1], buffers = replicate 2 (replicate 2048 0), capacity = 2\<rparr> \<noteq> None"
proof -
  have "pool_ok {#0#} \<lparr>freelist = [1], buffers = replicate 2 (replicate 2048 0), capacity = 2\<rparr>"
    by (simp add: pool_ok_def maxPoolCapacity_def BufferSize_def numeral_2_eq_2)
  from pool_exclusive_ownership [OF this] show ?thesis by simp
qed

end
