(* ===== verification/Fec_Set.thy ===== *)
theory Fec_Set
  imports Fec Parser Pool
begin

text \<open>
  Pending shreds and FEC sets, the first part of \<^verbatim>\<open>src/accumulator.go\<close>: payload sources (a pool
  buffer or recovered bytes), pending shreds, the buffer of coding shreds of one FEC set and its
  erasure recovery \<^verbatim>\<open>tryReconstruct\<close>. A Go map is an association list with distinct keys, a nil
  slice that the code tests for is \<open>None\<close>. Recovery is proved correct from the contract of the
  Reed-Solomon codec.
\<close>

section \<open>Payload sources and pending shreds\<close>

datatype payloadSource =
    PoolPayload "BufferHandle option"
  | RecoveredPayload "byte list"

fun src_slice :: "bufferPool \<Rightarrow> payloadSource \<Rightarrow> byte list" where
  "src_slice p (PoolPayload h) = Bytes p h"
| "src_slice p (RecoveredPayload bs) = bs"

fun src_release :: "payloadSource \<Rightarrow> bufferPool \<Rightarrow> payloadSource \<times> bufferPool" where
  "src_release (PoolPayload None) p = (PoolPayload None, p)"
| "src_release (PoolPayload (Some h)) p = (PoolPayload None, snd (Release (Some h) p))"
| "src_release (RecoveredPayload bs) p = (RecoveredPayload bs, p)"

record pendingShred =
  source :: payloadSource
  payloadEnd :: u16
  batchComplete :: bool
  pd_fecSetIndex :: u32

definition pd_payload :: "bufferPool \<Rightarrow> pendingShred \<Rightarrow> byte list option" where
  "pd_payload p ps =
     (let buf = src_slice p (source ps);
          e = unat (payloadEnd ps) in
      if e < DataHeaderSize \<or> e > length buf then None
      else Some (subslice DataHeaderSize e buf))"

section \<open>FEC sets\<close>

record fecSetBuffer =
  fb_fecSetIndex :: u32
  fb_numData :: u16
  fb_numCoding :: u16
  fb_shardSize :: int
  fb_variant :: VariantKind
  fb_hasVariant :: bool
  fb_code :: "(u16 \<times> byte list) list"

definition newFecSetBuffer :: "u32 \<Rightarrow> fecSetBuffer" where
  "newFecSetBuffer fecSetIndex =
     \<lparr>fb_fecSetIndex = fecSetIndex, fb_numData = 0, fb_numCoding = 0, fb_shardSize = 0,
      fb_variant = \<lparr>kind = KindDataLegacy, proofSize = 0, resigned = False\<rparr>,
      fb_hasVariant = False, fb_code = []\<rparr>"

definition recordCode ::
  "u16 \<Rightarrow> u16 \<Rightarrow> u16 \<Rightarrow> byte list \<Rightarrow> VariantKind \<Rightarrow> fecSetBuffer \<Rightarrow> fecSetBuffer" where
  "recordCode position numData numCoding raw variant f =
     (let f = (if fb_numData f = 0 then f\<lparr>fb_numData := numData\<rparr> else f);
          f = (if fb_numCoding f = 0 then f\<lparr>fb_numCoding := numCoding\<rparr> else f);
          f = (if \<not> fb_hasVariant f then f\<lparr>fb_variant := variant, fb_hasVariant := True\<rparr> else f);
          f = (if fb_shardSize f = 0 \<and> kind variant = KindCodeMerkle
               then f\<lparr>fb_shardSize := ShardSize (proofSize variant) (resigned variant)\<rparr> else f)
      in if map_of (fb_code f) position = None
         then f\<lparr>fb_code := AList.update position raw (fb_code f)\<rparr> else f)"

definition canRecoverWith :: "fecSetBuffer \<Rightarrow> nat \<Rightarrow> bool" where
  "canRecoverWith f dataReceived \<longleftrightarrow>
     fb_numData f > 0 \<and> dataReceived + length (fb_code f) \<ge> unat (fb_numData f)"

text \<open>
  \<^verbatim>\<open>ShardSize\<close> is positive for every variant the parser produces, so the slice bounds below are
  in order.
\<close>

definition dataShardSlice :: "byte list \<Rightarrow> VariantKind \<Rightarrow> byte list option" where
  "dataShardSlice raw variant =
     (if kind variant \<noteq> KindDataMerkle then None
      else (let sz = ShardSize (proofSize variant) (resigned variant);
                e = int SizeOfSignature + sz in
        if e > int (length raw) then None
        else Some (subslice SizeOfSignature (nat e) raw)))"

definition codeShardSlice :: "byte list \<Rightarrow> VariantKind \<Rightarrow> byte list option" where
  "codeShardSlice raw variant =
     (if kind variant \<noteq> KindCodeMerkle then None
      else (let sz = ShardSize (proofSize variant) (resigned variant);
                e = int SizeOfCodingShredHeaders + sz in
        if e > int (length raw) then None
        else Some (subslice SizeOfCodingShredHeaders (nat e) raw)))"

definition variantAsData :: "VariantKind \<Rightarrow> VariantKind" where
  "variantAsData v =
     (if kind v = KindCodeMerkle
      then \<lparr>kind = KindDataMerkle, proofSize = proofSize v, resigned = resigned v\<rparr> else v)"

record dataShredRef =
  dr_pos :: u16
  dr_raw :: "byte list"

text \<open>A shard is stored with its presence mark when it has the length of the set's shards.\<close>

definition place_shard :: "nat \<Rightarrow> nat \<Rightarrow> byte list option
    \<Rightarrow> byte list option list \<times> bool list \<Rightarrow> byte list option list \<times> bool list" where
  "place_shard shardLen idx shard sp =
     (case (shard, sp) of
        (None, _) \<Rightarrow> sp
      | (Some s, (shards, present)) \<Rightarrow>
          (if length s \<noteq> shardLen then sp else (shards[idx := Some s], present[idx := True])))"

definition code_step :: "fecSetBuffer \<Rightarrow> u16 \<times> byte list
    \<Rightarrow> byte list option list \<times> bool list \<Rightarrow> byte list option list \<times> bool list" where
  "code_step f pr sp =
     (let nd = unat (fb_numData f); tot = nd + unat (fb_numCoding f); idx = nd + unat (fst pr) in
      if idx \<ge> tot then sp
      else place_shard (nat (fb_shardSize f)) idx (codeShardSlice (snd pr) (fb_variant f)) sp)"

definition data_step :: "fecSetBuffer \<Rightarrow> dataShredRef
    \<Rightarrow> byte list option list \<times> bool list \<Rightarrow> byte list option list \<times> bool list" where
  "data_step f d sp =
     (let nd = unat (fb_numData f); p = unat (dr_pos d) in
      if p \<ge> nd \<or> snd sp ! p then sp
      else place_shard (nat (fb_shardSize f)) p
             (dataShardSlice (dr_raw d) (variantAsData (fb_variant f))) sp)"

definition collectShards :: "fecSetBuffer \<Rightarrow> dataShredRef list \<Rightarrow> byte list option list \<times> bool list" where
  "collectShards f refs =
     (let tot = unat (fb_numData f) + unat (fb_numCoding f) in
      fold (data_step f) refs
        (fold (code_step f) (fb_code f) (replicate tot None, replicate tot False)))"

definition recovered_raw :: "nat \<Rightarrow> byte list \<Rightarrow> byte list" where
  "recovered_raw shardLen shard =
     replicate SizeOfSignature 0 @ shard @ replicate (DataShredPayloadLen - SizeOfSignature - shardLen) 0"

definition tryReconstruct :: "fecSetBuffer \<Rightarrow> dataShredRef list \<Rightarrow> reedSolomonCache
    \<Rightarrow> (fec_error + dataShredRef list) \<times> reedSolomonCache" where
  "tryReconstruct f refs cache =
     (if fb_numData f = 0 \<or> fb_shardSize f = 0 \<or> \<not> fb_hasVariant f then (Inr [], cache)
      else if kind (fb_variant f) \<noteq> KindCodeMerkle then (Inr [], cache)
      else
        (let nd = unat (fb_numData f);
             shardLen = nat (fb_shardSize f);
             (shards, present) = collectShards f refs;
             dataAlready = map dr_pos refs;
             have_cnt = length (filter (\<lambda>ok. ok) present) in
         if have_cnt < nd then (Inr [], cache)
         else case GetOrBuild cache (fb_numData f) (fb_numCoding f) of
           (Inl e, cache) \<Rightarrow> (Inl e, cache)
         | (Inr rs, cache) \<Rightarrow>
            (let shards = map (\<lambda>s. case s of None \<Rightarrow> replicate shardLen 0 | Some s \<Rightarrow> s) shards in
             case ReconstructData rs shards present of
               Inl e \<Rightarrow> (Inl e, cache)
             | Inr (shards, present) \<Rightarrow>
                (Inr (map (\<lambda>pos. \<lparr>dr_pos = pos, dr_raw = recovered_raw shardLen (shards ! unat pos)\<rparr>)
                   (filter (\<lambda>pos. pos \<notin> set dataAlready \<and> length (shards ! unat pos) = shardLen)
                     (map of_nat [0..<nd]))), cache))))"

section \<open>Shard sizes\<close>

lemma ShardSize_bounds:
  assumes "wf_variant v" and "kind v = KindDataMerkle \<or> kind v = KindCodeMerkle"
  shows "743 \<le> ShardSize (proofSize v) (resigned v) \<and> ShardSize (proofSize v) (resigned v) \<le> 1107"
proof -
  define k where "k = int (unat (proofSize v))"
  have "unat (proofSize v) \<le> 15"
    using assms by (auto simp: wf_variant_def word_less_nat_alt split: if_splits)
  then have "0 \<le> k" "k \<le> 15" unfolding k_def by linarith+
  then show ?thesis
    unfolding ShardSize_def k_def [symmetric]
    by (simp add: Let_def CodeShredPayloadLen_def SizeOfCodingShredHeaders_def
        SizeOfMerkleRoot_def SizeOfMerkleProofEntry_def SizeOfSignature_def)
qed

section \<open>Collecting authentic shards\<close>

text \<open>
  The received shreds are authentic for the codeword \<open>cw\<close>: each cuts out the shard of its
  position.
\<close>

definition authentic_code :: "fecSetBuffer \<Rightarrow> byte list list \<Rightarrow> bool" where
  "authentic_code f cw \<longleftrightarrow>
     (\<forall>(pos, raw) \<in> set (fb_code f). pos < fb_numCoding f \<and>
        codeShardSlice raw (fb_variant f) = Some (cw ! (unat (fb_numData f) + unat pos)))"

definition authentic_data :: "fecSetBuffer \<Rightarrow> byte list list \<Rightarrow> dataShredRef list \<Rightarrow> bool" where
  "authentic_data f cw refs \<longleftrightarrow>
     (\<forall>d \<in> set refs. dr_pos d < fb_numData f \<and>
        dataShardSlice (dr_raw d) (variantAsData (fb_variant f)) = Some (cw ! unat (dr_pos d)))"

text \<open>Shards and marks agree with the codeword on the marked positions \<open>A\<close>.\<close>

definition collected :: "byte list list \<Rightarrow> nat set \<Rightarrow> byte list option list \<times> bool list \<Rightarrow> bool" where
  "collected cw A sp \<longleftrightarrow>
     length (fst sp) = length cw \<and> length (snd sp) = length cw \<and>
     (\<forall>i < length cw. snd sp ! i = (i \<in> A) \<and> (i \<in> A \<longrightarrow> fst sp ! i = Some (cw ! i)))"

lemma collected_init: "collected cw {} (replicate (length cw) None, replicate (length cw) False)"
  by (simp add: collected_def)

lemma collected_place:
  assumes "collected cw A sp" and "i < length cw" and "length (cw ! i) = L"
  shows "collected cw (insert i A) (place_shard L i (Some (cw ! i)) sp)"
  using assms by (cases sp) (auto simp: collected_def place_shard_def nth_list_update)

lemma collected_code:
  assumes "\<forall>(pos, raw) \<in> set prs. pos < fb_numCoding f \<and>
        codeShardSlice raw (fb_variant f) = Some (cw ! (unat (fb_numData f) + unat pos))"
    and "length cw = unat (fb_numData f) + unat (fb_numCoding f)"
    and "\<forall>s \<in> set cw. length s = nat (fb_shardSize f)" and "collected cw A sp"
  shows "collected cw (A \<union> (\<lambda>pr. unat (fb_numData f) + unat (fst pr)) ` set prs) (fold (code_step f) prs sp)"
  using assms
proof (induction prs arbitrary: A sp)
  case (Cons pr prs)
  let ?i = "unat (fb_numData f) + unat (fst pr)"
  obtain pos raw where pr: "pr = (pos, raw)" by fastforce
  have i: "?i < length cw" and s: "codeShardSlice (snd pr) (fb_variant f) = Some (cw ! ?i)"
    using Cons.prems(1,2) by (auto simp: pr word_less_nat_alt)
  have "code_step f pr sp = place_shard (nat (fb_shardSize f)) ?i (Some (cw ! ?i)) sp"
    using i s Cons.prems(2) by (simp add: code_step_def Let_def)
  moreover have "length (cw ! ?i) = nat (fb_shardSize f)" using Cons.prems(3) i by simp
  ultimately have "collected cw (insert ?i A) (code_step f pr sp)"
    using collected_place [OF Cons.prems(4) i] by simp
  from Cons.IH [OF _ Cons.prems(2,3) this] Cons.prems(1) show ?case by (simp add: Un_insert_left)
qed simp

lemma collected_data:
  assumes "authentic_data f cw refs"
    and "length cw = unat (fb_numData f) + unat (fb_numCoding f)"
    and "\<forall>s \<in> set cw. length s = nat (fb_shardSize f)" and "collected cw A sp"
  shows "collected cw (A \<union> (\<lambda>d. unat (dr_pos d)) ` set refs) (fold (data_step f) refs sp)"
  using assms
proof (induction refs arbitrary: A sp)
  case (Cons d refs)
  let ?i = "unat (dr_pos d)"
  have lt: "?i < unat (fb_numData f)" and s: "dataShardSlice (dr_raw d) (variantAsData (fb_variant f)) = Some (cw ! ?i)"
    using Cons.prems(1) by (auto simp: authentic_data_def word_less_nat_alt)
  have i: "?i < length cw" using lt Cons.prems(2) by simp
  have "collected cw (insert ?i A) (data_step f d sp)"
  proof (cases "?i \<in> A")
    case True
    then have "data_step f d sp = sp"
      using Cons.prems(4) i by (simp add: data_step_def collected_def Let_def)
    then show ?thesis using True Cons.prems(4) by (simp add: insert_absorb)
  next
    case False
    then have "data_step f d sp = place_shard (nat (fb_shardSize f)) ?i (Some (cw ! ?i)) sp"
      using Cons.prems(4) i lt s by (simp add: data_step_def collected_def Let_def)
    moreover have "length (cw ! ?i) = nat (fb_shardSize f)" using Cons.prems(3) i by simp
    ultimately show ?thesis using collected_place [OF Cons.prems(4) i] by simp
  qed
  from Cons.IH [OF _ Cons.prems(2,3) this] Cons.prems(1)
  show ?case by (simp add: authentic_data_def Un_insert_left)
qed simp

lemma collectShards_authentic:
  assumes "authentic_code f cw" and "authentic_data f cw refs"
    and len: "length cw = unat (fb_numData f) + unat (fb_numCoding f)"
    and "\<forall>s \<in> set cw. length s = nat (fb_shardSize f)"
  shows "collected cw ((\<lambda>pr. unat (fb_numData f) + unat (fst pr)) ` set (fb_code f)
      \<union> (\<lambda>d. unat (dr_pos d)) ` set refs) (collectShards f refs)"
  using collected_data [OF assms(2-4) collected_code [OF assms(1) [unfolded authentic_code_def] assms(3,4) collected_init]]
  by (simp add: collectShards_def Let_def len)

lemma collected_count:
  assumes "collected cw A sp" and "A \<subseteq> {..<length cw}"
  shows "present_count (snd sp) = card A"
proof -
  have "present_count (snd sp) = card {i. i < length (snd sp) \<and> snd sp ! i}"
    by (simp add: present_count_def length_filter_conv_card)
  also have "{i. i < length (snd sp) \<and> snd sp ! i} = A" using assms by (auto simp: collected_def)
  finally show ?thesis .
qed

lemma card_positions:
  assumes "distinct (map fst (fb_code f))" and "distinct (map dr_pos refs)"
    and "authentic_data f cw refs"
  shows "card ((\<lambda>pr. unat (fb_numData f) + unat (fst pr)) ` set (fb_code f)
      \<union> (\<lambda>d. unat (dr_pos d)) ` set refs) = length (fb_code f) + length refs"
proof -
  have 1: "card ((\<lambda>pr. unat (fb_numData f) + unat (fst pr)) ` set (fb_code f)) = length (fb_code f)"
  proof -
    have "inj_on (\<lambda>pr. unat (fb_numData f) + unat (fst pr)) (set (fb_code f))"
      using assms(1) by (auto simp: distinct_map inj_on_def word_unat_eq_iff)
    then show ?thesis using assms(1) by (simp add: card_image distinct_card distinct_map)
  qed
  have 2: "card ((\<lambda>d. unat (dr_pos d)) ` set refs) = length refs"
  proof -
    have "inj_on (\<lambda>d. unat (dr_pos d)) (set refs)"
      using assms(2) by (auto simp: distinct_map inj_on_def word_unat_eq_iff)
    then show ?thesis using assms(2) by (simp add: card_image distinct_card distinct_map)
  qed
  have "unat (dr_pos d) < unat (fb_numData f)" if "d \<in> set refs" for d
    using assms(3) that by (auto simp: authentic_data_def word_less_nat_alt)
  then have "(\<lambda>pr. unat (fb_numData f) + unat (fst pr)) ` set (fb_code f)
      \<inter> (\<lambda>d. unat (dr_pos d)) ` set refs = {}" by fastforce
  then show ?thesis using 1 2 by (simp add: card_Un_disjoint)
qed

section \<open>Recovery\<close>

lemma tryReconstruct_cache:
  "cache_ok cache \<Longrightarrow> cache_ok (snd (tryReconstruct f refs cache))"
  using GetOrBuild_ok [of cache "fb_numData f" "fb_numCoding f"]
  by (auto simp: tryReconstruct_def Let_def split: prod.split sum.split)

lemma tryReconstruct_authentic:
  assumes cache: "cache_ok cache"
    and rs: "newReedSolomon (int (unat (fb_numData f))) (int (unat (fb_numCoding f))) = Inr rs"
    and cw: "codeword rs (nat (fb_shardSize f)) cw"
    and f: "0 < fb_shardSize f" "fb_hasVariant f" "kind (fb_variant f) = KindCodeMerkle"
    and auth: "authentic_code f cw" "authentic_data f cw refs"
    and dist: "distinct (map fst (fb_code f))" "distinct (map dr_pos refs)"
    and enough: "canRecoverWith f (length refs)"
  shows "fst (tryReconstruct f refs cache) =
    Inr (map (\<lambda>pos. \<lparr>dr_pos = pos, dr_raw = recovered_raw (nat (fb_shardSize f)) (cw ! unat pos)\<rparr>)
      (filter (\<lambda>pos. pos \<notin> dr_pos ` set refs) (map of_nat [0..<unat (fb_numData f)])))"
proof -
  let ?nd = "unat (fb_numData f)" and ?L = "nat (fb_shardSize f)"
  let ?sp = "collectShards f refs"
  let ?got = "map (\<lambda>s. case s of None \<Rightarrow> replicate ?L 0 | Some s \<Rightarrow> s) (fst ?sp)"
  let ?A = "(\<lambda>pr. ?nd + unat (fst pr)) ` set (fb_code f) \<union> (\<lambda>d. unat (dr_pos d)) ` set refs"
  have r: "rs_ok rs" "dataShards rs = ?nd" "totalShards rs = ?nd + unat (fb_numCoding f)"
    using newReedSolomon_Inr [OF rs] by (simp_all add: nat_add_distrib)
  have nd: "0 < ?nd" using r(1,2) by (simp add: rs_ok_def)
  have len: "length cw = ?nd + unat (fb_numCoding f)" "\<forall>s \<in> set cw. length s = ?L"
    using cw r(3) by (auto simp: codeword_def)
  have coll: "collected cw ?A ?sp" by (rule collectShards_authentic [OF auth len])
  have "?A \<subseteq> {..<length cw}"
    using auth len(1) by (fastforce simp: authentic_code_def authentic_data_def word_less_nat_alt)
  then have cnt: "present_count (snd ?sp) = length (fb_code f) + length refs"
    using collected_count [OF coll] card_positions [OF dist auth(2)] by simp
  then have have_nd: "?nd \<le> present_count (snd ?sp)" using enough by (simp add: canRecoverWith_def)
  have rec: "received rs cw ?got (snd ?sp)"
    using coll len(1) r(3) by (auto simp: received_def collected_def)
  have "0 < ?L" "dataShards rs \<le> present_count (snd ?sp)" using f(1) have_nd r(2) by simp_all
  from ReconstructData_ok [OF r(1) cw this(1) rec this(2)]
  obtain sh pr where ok: "ReconstructData rs ?got (snd ?sp) = Inr (sh, pr)"
    and sh: "take ?nd sh = take ?nd cw" unfolding r(2) by metis
  have nth: "sh ! unat pos = cw ! unat pos" "length (cw ! unat pos) = ?L"
    if "pos \<in> set (map of_nat [0..<?nd])" for pos :: u16
  proof -
    obtain k where k: "k < ?nd" "pos = of_nat k" using \<open>pos \<in> _\<close> by auto
    have "k < 2 ^ 16" using k(1) unsigned_less [where ?w = "fb_numData f" and ?'a = nat] by simp
    then have lt: "unat pos < ?nd" using k by (simp add: unat_of_nat)
    show "sh ! unat pos = cw ! unat pos" using sh lt by (metis nth_take)
    show "length (cw ! unat pos) = ?L" using len lt by simp
  qed
  have g: "fst (GetOrBuild cache (fb_numData f) (fb_numCoding f)) = Inr rs"
    using GetOrBuild_ok [OF cache] rs by simp
  obtain sh0 pr0 where sp: "?sp = (sh0, pr0)" by fastforce
  obtain c' where g': "GetOrBuild cache (fb_numData f) (fb_numCoding f) = (Inr rs, c')"
    using g by (metis prod.collapse)
  have "fb_numData f \<noteq> 0" using nd by auto
  then have "fst (tryReconstruct f refs cache) =
      Inr (map (\<lambda>pos. \<lparr>dr_pos = pos, dr_raw = recovered_raw ?L (sh ! unat pos)\<rparr>)
        (filter (\<lambda>pos. pos \<notin> dr_pos ` set refs \<and> length (sh ! unat pos) = ?L) (map of_nat [0..<?nd])))"
    using f have_nd ok g' sp
    by (simp add: tryReconstruct_def Let_def present_count_def)
  also have "filter (\<lambda>pos. pos \<notin> dr_pos ` set refs \<and> length (sh ! unat pos) = ?L) (map of_nat [0..<?nd])
      = filter (\<lambda>pos. pos \<notin> dr_pos ` set refs) (map of_nat [0..<?nd])"
    by (rule filter_cong) (use nth in auto)
  finally show ?thesis using nth(1) by (auto simp: map_eq_conv)
qed

lemma codeword_zero:
  assumes "rs_ok rs"
  shows "codeword rs L (replicate (totalShards rs) (replicate L 0))"
proof -
  have "column k (replicate n (replicate L 0)) = replicate n 0" if "k < L" for k n
    using that by (simp add: column_def)
  then have z: "lincomb L row (replicate n (replicate L 0)) = replicate L 0" for row n
    by - (rule nth_equalityI, simp_all add: lincomb_def dot_zeros_right)
  have "dataShards rs \<le> totalShards rs" using assms by (simp add: rs_ok_def)
  then show ?thesis by (simp add: codeword_def z min_def)
qed

definition demo_set :: fecSetBuffer where
  "demo_set = \<lparr>fb_fecSetIndex = 4, fb_numData = 2, fb_numCoding = 1, fb_shardSize = 1107,
     fb_variant = \<lparr>kind = KindCodeMerkle, proofSize = 0, resigned = False\<rparr>, fb_hasVariant = True,
     fb_code = [(0, replicate 1196 0)]\<rparr>"

lemma demo_set_fields [simp]:
  "fb_numData demo_set = 2" "fb_numCoding demo_set = 1" "fb_shardSize demo_set = 1107"
  "fb_variant demo_set = \<lparr>kind = KindCodeMerkle, proofSize = 0, resigned = False\<rparr>"
  "fb_hasVariant demo_set" "fb_code demo_set = [(0, replicate 1196 0)]"
  by (simp_all add: demo_set_def)

abbreviation zero_codeword :: "byte list list" where
  "zero_codeword \<equiv> replicate 3 (replicate 1107 0)"

lemma demo_set_codeword:
  obtains rs where "newReedSolomon 2 1 = Inr rs" "codeword rs 1107 zero_codeword"
proof -
  obtain rs where rs: "newReedSolomon 2 1 = Inr rs" using newReedSolomon_ok [of 2 1] by auto
  with newReedSolomon_Inr [OF rs] codeword_zero [of rs 1107] show ?thesis by (intro that) auto
qed

lemma demo_set_authentic:
  "authentic_code demo_set zero_codeword"
  "authentic_data demo_set zero_codeword [\<lparr>dr_pos = 0, dr_raw = replicate 1203 0\<rparr>]"
proof -
  have "ShardSize 0 False = 1107"
    by (simp add: ShardSize_def CodeShredPayloadLen_def SizeOfCodingShredHeaders_def
        SizeOfMerkleRoot_def)
  then show "authentic_code demo_set zero_codeword"
    "authentic_data demo_set zero_codeword [\<lparr>dr_pos = 0, dr_raw = replicate 1203 0\<rparr>]"
    by (simp_all add: authentic_code_def authentic_data_def codeShardSlice_def
        dataShardSlice_def variantAsData_def Let_def SizeOfCodingShredHeaders_def SizeOfSignature_def
        subslice_def)
qed

end
