(* ===== verification/Saturating.thy ===== *)
theory Saturating
  imports Prelude
begin

text \<open>
  Saturating unsigned arithmetic, \<^verbatim>\<open>src/saturating.go\<close>: additions that stop at the largest
  value of the type and subtractions that stop at 0. The lemmas relate each function to the
  clamped sum or difference of natural numbers; they carry the index arithmetic of the
  accumulator and the listener.
\<close>

section \<open>Operations\<close>

definition saturatingAddU64 :: "u64 \<Rightarrow> u64 \<Rightarrow> u64" where
  "saturatingAddU64 a b = (if a > 0xFFFFFFFFFFFFFFFF - b then 0xFFFFFFFFFFFFFFFF else a + b)"

definition saturatingSubU64 :: "u64 \<Rightarrow> u64 \<Rightarrow> u64" where
  "saturatingSubU64 a b = (if a < b then 0 else a - b)"

definition saturatingAddU32 :: "u32 \<Rightarrow> u32 \<Rightarrow> u32" where
  "saturatingAddU32 a b = (if a > 0xFFFFFFFF - b then 0xFFFFFFFF else a + b)"

definition saturatingSubU32 :: "u32 \<Rightarrow> u32 \<Rightarrow> u32" where
  "saturatingSubU32 a b = (if a < b then 0 else a - b)"

section \<open>Clamped arithmetic\<close>

lemma u64_bound: "unat (a :: u64) < 18446744073709551616"
  using unsigned_less [where ?w = a and ?'a = nat] by simp

lemma u32_bound: "unat (a :: u32) < 4294967296"
  using unsigned_less [where ?w = a and ?'a = nat] by simp

lemma unat_max_minus_u64: "unat (0xFFFFFFFFFFFFFFFF - b :: u64) = 0xFFFFFFFFFFFFFFFF - unat b"
  using u64_bound [of b] by (simp add: unat_sub word_le_nat_alt)

lemma unat_max_minus_u32: "unat (0xFFFFFFFF - b :: u32) = 0xFFFFFFFF - unat b"
  using u32_bound [of b] by (simp add: unat_sub word_le_nat_alt)

lemma unat_saturatingAddU64 [simp]:
  "unat (saturatingAddU64 a b) = min (unat a + unat b) 18446744073709551615"
  using u64_bound [of a] u64_bound [of b]
  by (auto simp: saturatingAddU64_def word_less_nat_alt unat_max_minus_u64 unat_word_ariths)

lemma unat_saturatingAddU32 [simp]:
  "unat (saturatingAddU32 a b) = min (unat a + unat b) 4294967295"
  using u32_bound [of a] u32_bound [of b]
  by (auto simp: saturatingAddU32_def word_less_nat_alt unat_max_minus_u32 unat_word_ariths)

lemma unat_saturatingSubU64 [simp]: "unat (saturatingSubU64 a b) = unat a - unat b"
  by (auto simp: saturatingSubU64_def word_less_nat_alt not_less word_le_nat_alt unat_sub)

lemma unat_saturatingSubU32 [simp]: "unat (saturatingSubU32 a b) = unat a - unat b"
  by (auto simp: saturatingSubU32_def word_less_nat_alt not_less word_le_nat_alt unat_sub)

lemma saturatingAddU32_mono_left: "a \<le> saturatingAddU32 a b"
  using u32_bound [of a] by (simp add: word_le_nat_alt)

lemma saturatingAddU32_less: "a < 0xFFFFFFFF \<Longrightarrow> 0 < b \<Longrightarrow> a < saturatingAddU32 a b"
  by (simp add: word_less_nat_alt)

lemma u32_next: "c \<noteq> 0xFFFFFFFF \<Longrightarrow> unat (c + 1 :: u32) = Suc (unat c)"
proof -
  assume "c \<noteq> 0xFFFFFFFF"
  then have "unat c \<noteq> 4294967295" by (simp add: word_unat_eq_iff)
  with u32_bound [of c] show ?thesis by (simp add: unat_word_ariths)
qed

lemma u32_measure: "unat c < unat (d :: u32) \<Longrightarrow> 4294967296 - unat d < 4294967296 - unat (c :: u32)"
  using u32_bound [of d] by simp

lemma u32_measure_next: "c \<noteq> 0xFFFFFFFF \<Longrightarrow> 4294967296 - unat (c + 1) < 4294967296 - unat (c :: u32)"
  by (rule u32_measure) (simp add: u32_next)

lemma u32_le_max: "(c :: u32) \<le> 0xFFFFFFFF"
  using u32_bound [of c] by (simp add: word_le_nat_alt)

lemma u32_below_max: "s \<le> e \<Longrightarrow> e \<noteq> (0xFFFFFFFF :: u32) \<Longrightarrow> s \<noteq> 0xFFFFFFFF"
  using u32_le_max [of e] by auto

lemma unat_ucast_u16 [simp]: "unat (ucast (x :: u16) :: u32) = unat x"
proof -
  have "unat x < 2 ^ 32" using unsigned_less [where ?w = x and ?'a = nat] by simp
  then show ?thesis by (simp add: unsigned_ucast_eq take_bit_nat_eq_self)
qed

end
