(* ===== verification/Options.thy ===== *)
theory Options
  imports Pool
begin

text \<open>
  Listener options, \<^verbatim>\<open>src/options.go\<close>: defaults and validation. Durations are nanoseconds as
  integers; the formatted error message of \<^verbatim>\<open>validate\<close> is one error value per failed check.
\<close>

definition DefaultRecvBuf :: int where "DefaultRecvBuf = 64 * 1024 * 1024"
definition DefaultMaxAge :: int where "DefaultMaxAge = 3"
definition DefaultBusyPollMicros :: u32 where "DefaultBusyPollMicros = 200"
definition DefaultPoolSize :: int where "DefaultPoolSize = 4096"
definition DefaultMaxFECSetsPerSlot :: int where "DefaultMaxFECSetsPerSlot = 32"
definition DefaultStuckBatchTimeout :: int where "DefaultStuckBatchTimeout = 50 * 1000000"

record AccumulatorConfig =
  MaxFECSetsPerSlot :: int
  StuckBatchTimeout :: int

definition DefaultAccumulatorConfig :: AccumulatorConfig where
  "DefaultAccumulatorConfig =
     \<lparr>MaxFECSetsPerSlot = DefaultMaxFECSetsPerSlot, StuckBatchTimeout = DefaultStuckBatchTimeout\<rparr>"

record ListenerOptions =
  RecvBuf :: int
  MaxAge :: int
  BusyPollMicros :: u32
  PoolSize :: int
  EnableFEC :: bool
  DisableSalvageDelivery :: bool
  Accumulator :: AccumulatorConfig

datatype options_error = BadPoolSize int | BadRecvBuf int | BadMaxAge

definition validate :: "ListenerOptions \<Rightarrow> options_error option" where
  "validate opts =
     (if PoolSize opts \<le> 0 \<or> PoolSize opts > int maxPoolCapacity then Some (BadPoolSize (PoolSize opts))
      else if RecvBuf opts < 0 then Some (BadRecvBuf (RecvBuf opts))
      else if MaxAge opts = 0 then Some BadMaxAge
      else None)"

definition DefaultListenerOptions :: ListenerOptions where
  "DefaultListenerOptions =
     \<lparr>RecvBuf = DefaultRecvBuf, MaxAge = DefaultMaxAge, BusyPollMicros = DefaultBusyPollMicros,
      PoolSize = DefaultPoolSize, EnableFEC = True, DisableSalvageDelivery = False,
      Accumulator = DefaultAccumulatorConfig\<rparr>"

lemma validate_pool: "validate opts = None \<Longrightarrow> \<exists>p. newBufferPool (PoolSize opts) = Some p"
  by (auto simp: validate_def newBufferPool_def split: if_splits)

lemma validate_default: "validate DefaultListenerOptions = None"
  by (simp add: validate_def DefaultListenerOptions_def DefaultPoolSize_def DefaultRecvBuf_def
      DefaultMaxAge_def maxPoolCapacity_def)

text \<open>Validation lets a negative maximal age through.\<close>

lemma validate_negative_age: "validate (DefaultListenerOptions\<lparr>MaxAge := -1\<rparr>) = None"
  by (simp add: validate_def DefaultListenerOptions_def DefaultPoolSize_def DefaultRecvBuf_def
      maxPoolCapacity_def)

end
