(* ===== verification/Decoder.thy ===== *)
theory Decoder
  imports Prelude
begin

text \<open>
  The transaction decoder, \<^verbatim>\<open>src/decoder.go\<close> and the decode error of \<^verbatim>\<open>src/error.go\<close>:
  compact-u16 lengths, versioned messages, transactions, entries, whole batches, concatenated
  batches and the streaming decoder. The four results \<^verbatim>\<open>(consumed, value, complete, err)\<close> of
  the Go functions are one value of the datatype \<open>dres\<close>: a complete value with the position
  after it, a request for more bytes, or an error. Nil and empty slices are both the empty
  list. The specification side is the wire encoding of transactions, entries and batches.
\<close>

section \<open>Data\<close>

definition maxEntryCount :: nat where "maxEntryCount = 50000"

type_synonym Signature = "byte list"
type_synonym Pubkey = "byte list"
type_synonym Hash = "byte list"

record MessageHeader =
  NumRequiredSignatures :: byte
  NumReadonlySignedAccounts :: byte
  NumReadonlyUnsignedAccounts :: byte

record CompiledInstruction =
  ProgramIDIndex :: byte
  Accounts :: "byte list"
  Data :: "byte list"

record MessageAddressTableLookup =
  AccountKey :: Pubkey
  WritableIndexes :: "byte list"
  ReadonlyIndexes :: "byte list"

record VersionedMessage =
  IsV0 :: bool
  Header :: MessageHeader
  AccountKeys :: "Pubkey list"
  RecentBlockhash :: Hash
  Instructions :: "CompiledInstruction list"
  AddressTableLookups :: "MessageAddressTableLookup list"

record VersionedTransaction =
  Signatures :: "Signature list"
  Message :: VersionedMessage

datatype decode_error =
    InvalidEntryCount
  | TruncatedBatch
  | TruncatedEntry
  | InvalidTxCount nat
  | SigCountTooLarge
  | UnknownMessageVersion

datatype 'a dres = Complete nat 'a | Incomplete | Fail decode_error

fun dbind :: "'a dres \<Rightarrow> (nat \<Rightarrow> 'a \<Rightarrow> 'b dres) \<Rightarrow> 'b dres" where
  "dbind (Complete p v) f = f p v"
| "dbind Incomplete f = Incomplete"
| "dbind (Fail e) f = Fail e"

section \<open>Compact-u16 lengths\<close>

text \<open>\<open>None\<close> is the Go result \<^verbatim>\<open>(0, -1)\<close>.\<close>

definition decodeCompactU16 :: "byte list \<Rightarrow> nat \<Rightarrow> (nat \<times> nat) option" where
  "decodeCompactU16 b pos =
     (if pos \<ge> length b then None
      else (let b0 = b ! pos in
        if b0 < 0x80 then Some (unat b0, 1)
        else if pos + 1 \<ge> length b then None
        else (let b1 = b ! (pos + 1) in
          if b1 < 0x80 then Some (unat (b0 AND 0x7F) OR push_bit 7 (unat b1), 2)
          else if pos + 2 \<ge> length b then None
          else (let b2 = b ! (pos + 2) in
            if b2 > 0x03 then None
            else Some (unat (b0 AND 0x7F) OR push_bit 7 (unat (b1 AND 0x7F))
                       OR push_bit 14 (unat (b2 AND 0x03)), 3)))))"

definition encodeCompactU16 :: "nat \<Rightarrow> byte list" where
  "encodeCompactU16 v =
     (if v < 0x80 then [of_nat v]
      else if v < 0x4000 then [of_nat (v AND 0x7F) OR 0x80, of_nat (drop_bit 7 v AND 0xFF)]
      else [of_nat (v AND 0x7F) OR 0x80, of_nat ((drop_bit 7 v AND 0x7F) OR 0x80),
            of_nat (drop_bit 14 v AND 0xFF)])"

section \<open>Messages, transactions and entries\<close>

definition readCompact :: "byte list \<Rightarrow> nat \<Rightarrow> nat dres" where
  "readCompact b pos =
     (case decodeCompactU16 b pos of None \<Rightarrow> Incomplete | Some (v, n) \<Rightarrow> Complete (pos + n) v)"

text \<open>The guard \<^verbatim>\<open>pos+n > len(b)\<close> and the copy of \<^verbatim>\<open>b[pos:pos+n]\<close> that follows it.\<close>

definition readBytes :: "nat \<Rightarrow> byte list \<Rightarrow> nat \<Rightarrow> byte list dres" where
  "readBytes n b pos =
     (if pos + n > length b then Incomplete else Complete (pos + n) (subslice pos (pos + n) b))"

text \<open>\<^verbatim>\<open>count\<close> fixed-size items, after one check of their total size.\<close>

definition readChunks :: "nat \<Rightarrow> nat \<Rightarrow> byte list \<Rightarrow> nat \<Rightarrow> byte list list dres" where
  "readChunks sz count b pos =
     (if pos + count * sz > length b then Incomplete
      else Complete (pos + count * sz)
        (map (\<lambda>i. subslice (pos + i * sz) (pos + i * sz + sz) b) [0..<count]))"

text \<open>A counted loop that decodes one item per round.\<close>

fun readMany :: "(byte list \<Rightarrow> nat \<Rightarrow> 'a dres) \<Rightarrow> nat \<Rightarrow> byte list \<Rightarrow> nat \<Rightarrow> 'a list dres" where
  "readMany r 0 b pos = Complete pos []"
| "readMany r (Suc k) b pos =
     dbind (r b pos) (\<lambda>pos x. dbind (readMany r k b pos) (\<lambda>pos xs. Complete pos (x # xs)))"

definition readInstruction :: "byte list \<Rightarrow> nat \<Rightarrow> CompiledInstruction dres" where
  "readInstruction b pos =
     (if pos + 1 > length b then Incomplete
      else (let programID = b ! pos; pos = pos + 1 in
        dbind (readCompact b pos) (\<lambda>pos acctLen.
        dbind (readBytes acctLen b pos) (\<lambda>pos accounts.
        dbind (readCompact b pos) (\<lambda>pos dataLen.
        dbind (readBytes dataLen b pos) (\<lambda>pos dat.
        Complete pos \<lparr>ProgramIDIndex = programID, Accounts = accounts, Data = dat\<rparr>))))))"

definition readLookup :: "byte list \<Rightarrow> nat \<Rightarrow> MessageAddressTableLookup dres" where
  "readLookup b pos =
     dbind (readBytes 32 b pos) (\<lambda>pos key.
     dbind (readCompact b pos) (\<lambda>pos wLen.
     dbind (readBytes wLen b pos) (\<lambda>pos writable.
     dbind (readCompact b pos) (\<lambda>pos rLen.
     dbind (readBytes rLen b pos) (\<lambda>pos readonly.
     Complete pos \<lparr>AccountKey = key, WritableIndexes = writable, ReadonlyIndexes = readonly\<rparr>)))))"

definition readLookups :: "bool \<Rightarrow> byte list \<Rightarrow> nat \<Rightarrow> MessageAddressTableLookup list dres" where
  "readLookups isV0 b pos =
     (if isV0 then dbind (readCompact b pos) (\<lambda>pos atlCount. readMany readLookup atlCount b pos)
      else Complete pos [])"

definition readVersion :: "byte list \<Rightarrow> nat \<Rightarrow> bool dres" where
  "readVersion b pos =
     (if length b < pos + 1 then Incomplete
      else (let first = b ! pos; isV0 = (first AND 0x80 \<noteq> 0) in
        if isV0 then (if first AND 0x7F \<noteq> 0 then Fail UnknownMessageVersion
                      else Complete (pos + 1) True)
        else Complete pos False))"

definition readHeader :: "byte list \<Rightarrow> nat \<Rightarrow> MessageHeader dres" where
  "readHeader b pos =
     (if pos + 3 > length b then Incomplete
      else Complete (pos + 3)
        \<lparr>NumRequiredSignatures = b ! pos, NumReadonlySignedAccounts = b ! (pos + 1),
         NumReadonlyUnsignedAccounts = b ! (pos + 2)\<rparr>)"

definition decodeMessageAt :: "byte list \<Rightarrow> nat \<Rightarrow> VersionedMessage dres" where
  "decodeMessageAt b pos =
     dbind (readVersion b pos) (\<lambda>pos isV0.
     dbind (readHeader b pos) (\<lambda>pos header.
     dbind (readCompact b pos) (\<lambda>pos acctCount.
     dbind (readChunks 32 acctCount b pos) (\<lambda>pos accountKeys.
     dbind (readBytes 32 b pos) (\<lambda>pos blockhash.
     dbind (readCompact b pos) (\<lambda>pos ixCount.
     dbind (readMany readInstruction ixCount b pos) (\<lambda>pos instructions.
     dbind (readLookups isV0 b pos) (\<lambda>pos atls.
     Complete pos
       \<lparr>IsV0 = isV0, Header = header, AccountKeys = accountKeys, RecentBlockhash = blockhash,
        Instructions = instructions, AddressTableLookups = atls\<rparr>))))))))"

definition decodeMessage :: "byte list \<Rightarrow> VersionedMessage dres" where
  "decodeMessage b = decodeMessageAt b 0"

text \<open>A decoder called on the subslice \<^verbatim>\<open>b[pos:]\<close>, its consumed length added to \<^verbatim>\<open>pos\<close>.\<close>

definition at_slice :: "(byte list \<Rightarrow> 'a dres) \<Rightarrow> byte list \<Rightarrow> nat \<Rightarrow> 'a dres" where
  "at_slice r b pos = dbind (r (drop pos b)) (\<lambda>consumed v. Complete (pos + consumed) v)"

definition decodeTransaction :: "byte list \<Rightarrow> VersionedTransaction dres" where
  "decodeTransaction b =
     dbind (readCompact b 0) (\<lambda>pos sigCount.
     if sigCount > 256 then Fail SigCountTooLarge
     else
       dbind (readChunks 64 sigCount b pos) (\<lambda>pos sigs.
       dbind (at_slice decodeMessage b pos) (\<lambda>pos msg.
       Complete pos \<lparr>Signatures = sigs, Message = msg\<rparr>)))"

definition decodeEntry :: "byte list \<Rightarrow> VersionedTransaction list dres" where
  "decodeEntry b =
     (if length b < 8 + 32 + 8 then Incomplete
      else (let pos = 8 + 32;
                txCount = le_nat (subslice pos (pos + 8) b);
                pos = pos + 8;
                remaining = length b - pos in
        if txCount > remaining then Fail (InvalidTxCount txCount)
        else readMany (at_slice decodeTransaction) txCount b pos))"

section \<open>Batches\<close>

definition validateVecPrefix :: "byte list \<Rightarrow> bool" where
  "validateVecPrefix b =
     (if length b < 8 then False
      else (let count = le_nat (subslice 0 8 b) in
        if count > maxEntryCount then False
        else if count > 0 \<and> count * 48 > length b then False
        else True))"

text \<open>
  The loop over the entries of a batch, shared by \<^verbatim>\<open>DecodeBatch\<close> and \<^verbatim>\<open>DecodeConcatenated\<close>
  (which only looks at whether it failed): \<open>k\<close> entries are left, decoded from \<open>pos\<close>.
\<close>

fun batchLoop :: "nat \<Rightarrow> byte list \<Rightarrow> nat \<Rightarrow> VersionedTransaction list
    \<Rightarrow> decode_error + nat \<times> VersionedTransaction list" where
  "batchLoop 0 b pos txs = Inr (pos, txs)"
| "batchLoop (Suc k) b pos txs =
     (if pos \<ge> length b then Inl TruncatedBatch
      else case decodeEntry (drop pos b) of
        Fail e \<Rightarrow> Inl e
      | Incomplete \<Rightarrow> Inl TruncatedEntry
      | Complete consumed entryTxs \<Rightarrow> batchLoop k b (pos + consumed) (txs @ entryTxs))"

definition DecodeBatch :: "byte list \<Rightarrow> decode_error + VersionedTransaction list" where
  "DecodeBatch b =
     (if \<not> validateVecPrefix b then Inr []
      else (let count = le_nat (subslice 0 8 b) in
        case batchLoop count b 8 [] of Inl e \<Rightarrow> Inl e | Inr (pos, txs) \<Rightarrow> Inr txs))"

function concatLoop :: "byte list \<Rightarrow> nat \<Rightarrow> VersionedTransaction list \<Rightarrow> VersionedTransaction list" where
  "concatLoop b offset out =
     (if offset + 8 \<le> length b then
        (let remaining = drop offset b in
         if \<not> validateVecPrefix remaining then out
         else (let count = le_nat (subslice 0 8 remaining) in
           case batchLoop count remaining 8 [] of
             Inl e \<Rightarrow> out
           | Inr (pos, batchTxs) \<Rightarrow>
               (if pos = 0 then out else concatLoop b (offset + pos) (out @ batchTxs))))
      else out)"
  by pat_completeness auto
termination
  by (relation "measure (\<lambda>(b, offset, out). length b - offset)") auto

definition DecodeConcatenated :: "byte list \<Rightarrow> VersionedTransaction list" where
  "DecodeConcatenated b = concatLoop b 0 []"

section \<open>The streaming decoder\<close>

record StreamingDecoder =
  buffer :: "byte list"
  cursor :: nat
  expectedCount :: nat
  expectedCountSet :: bool
  entriesYielded :: nat

definition NewStreamingDecoder :: StreamingDecoder where
  "NewStreamingDecoder =
     \<lparr>buffer = [], cursor = 0, expectedCount = 0, expectedCountSet = False, entriesYielded = 0\<rparr>"

definition Reset :: "StreamingDecoder \<Rightarrow> StreamingDecoder" where
  "Reset d = d\<lparr>buffer := [], cursor := 0, expectedCount := 0, expectedCountSet := False,
               entriesYielded := 0\<rparr>"

function entryLoop :: "StreamingDecoder \<Rightarrow> VersionedTransaction list
    \<Rightarrow> StreamingDecoder \<times> (decode_error + VersionedTransaction list)" where
  "entryLoop d txs =
     (if entriesYielded d < expectedCount d then
        (if cursor d \<ge> length (buffer d) then (d, Inr txs)
         else case decodeEntry (drop (cursor d) (buffer d)) of
           Fail e \<Rightarrow> (d, Inl e)
         | Incomplete \<Rightarrow> (d, Inr txs)
         | Complete consumed entryTxs \<Rightarrow>
             entryLoop (d\<lparr>cursor := cursor d + consumed, entriesYielded := entriesYielded d + 1\<rparr>)
               (txs @ entryTxs))
      else (d, Inr txs))"
  by pat_completeness auto
termination
  by (relation "measure (\<lambda>(d, txs). expectedCount d - entriesYielded d)") auto

definition tryDeserialize ::
  "StreamingDecoder \<Rightarrow> StreamingDecoder \<times> (decode_error + VersionedTransaction list)" where
  "tryDeserialize d =
     (if \<not> expectedCountSet d \<and> length (buffer d) \<ge> cursor d + 8 then
        (let count = le_nat (subslice (cursor d) (cursor d + 8) (buffer d)) in
         if count > maxEntryCount then (d, Inl InvalidEntryCount)
         else entryLoop (d\<lparr>cursor := cursor d + 8, expectedCount := count,
                           expectedCountSet := True\<rparr>) [])
      else if \<not> expectedCountSet d then (d, Inr [])
      else entryLoop d [])"

definition Push :: "StreamingDecoder \<Rightarrow> byte list
    \<Rightarrow> StreamingDecoder \<times> (decode_error + VersionedTransaction list)" where
  "Push d payload = tryDeserialize (d\<lparr>buffer := buffer d @ payload\<rparr>)"

declare concatLoop.simps [simp del] entryLoop.simps [simp del]

section \<open>The reader interface\<close>

lemma dbind_eq_Complete [simp]:
  "dbind x f = Complete p v \<longleftrightarrow> (\<exists>q w. x = Complete q w \<and> f q w = Complete p v)"
  by (cases x) simp_all

lemma dbind_eq_Fail [simp]:
  "dbind x f = Fail e \<longleftrightarrow> x = Fail e \<or> (\<exists>q w. x = Complete q w \<and> f q w = Fail e)"
  by (cases x) simp_all

text \<open>
  What a caller may rely on of any decoder of this file: a complete value ends inside the
  buffer and not before its start, and neither a complete value nor an error changes when
  more bytes arrive.
\<close>

locale stream_reader =
  fixes r :: "byte list \<Rightarrow> nat \<Rightarrow> 'a dres"
  assumes reader_bounds: "pos \<le> length b \<Longrightarrow> r b pos = Complete p v \<Longrightarrow> pos \<le> p \<and> p \<le> length b"
    and reader_extend: "pos \<le> length b \<Longrightarrow> r b pos = Complete p v \<Longrightarrow> r (b @ c) pos = Complete p v"
    and reader_fail: "pos \<le> length b \<Longrightarrow> r b pos = Fail e \<Longrightarrow> r (b @ c) pos = Fail e"
begin

lemma many_bounds:
  "pos \<le> length b \<Longrightarrow> readMany r k b pos = Complete p v \<Longrightarrow> pos \<le> p \<and> p \<le> length b"
proof (induction k arbitrary: pos v)
  case (Suc k)
  from Suc.prems obtain q x xs
    where first: "r b pos = Complete q x" and rest: "readMany r k b q = Complete p xs" by auto
  from reader_bounds [OF Suc.prems(1) first] Suc.IH [OF _ rest] show ?case by simp
qed simp

lemma many_extend:
  "pos \<le> length b \<Longrightarrow> readMany r k b pos = Complete p v \<Longrightarrow> readMany r k (b @ c) pos = Complete p v"
proof (induction k arbitrary: pos v)
  case (Suc k)
  from Suc.prems obtain q x xs where first: "r b pos = Complete q x"
    and rest: "readMany r k b q = Complete p xs" and v: "v = x # xs" by auto
  from reader_bounds [OF Suc.prems(1) first] Suc.IH [OF _ rest]
  have "readMany r k (b @ c) q = Complete p xs" by simp
  with reader_extend [OF Suc.prems(1) first] v show ?case by simp
qed simp

lemma many_fail:
  "pos \<le> length b \<Longrightarrow> readMany r k b pos = Fail e \<Longrightarrow> readMany r k (b @ c) pos = Fail e"
proof (induction k arbitrary: pos)
  case (Suc k)
  from Suc.prems(2) consider "r b pos = Fail e"
    | q x where "r b pos = Complete q x" and "readMany r k b q = Fail e" by auto
  then show ?case
  proof cases
    case 1
    then show ?thesis using reader_fail [OF Suc.prems(1)] by simp
  next
    case (2 q x)
    from reader_bounds [OF Suc.prems(1) 2(1)] Suc.IH [OF _ 2(2)]
    have "readMany r k (b @ c) q = Fail e" by simp
    with reader_extend [OF Suc.prems(1) 2(1)] show ?thesis by simp
  qed
qed simp

lemma many: "stream_reader (readMany r k)"
  using many_bounds many_extend many_fail by unfold_locales

end

text \<open>A decoder that starts at the front of its slice.\<close>

locale slice_reader =
  fixes s :: "byte list \<Rightarrow> 'a dres"
  assumes slice_bounds: "s b = Complete p v \<Longrightarrow> p \<le> length b"
    and slice_extend: "s b = Complete p v \<Longrightarrow> s (b @ c) = Complete p v"
    and slice_fail: "s b = Fail e \<Longrightarrow> s (b @ c) = Fail e"

sublocale slice_reader \<subseteq> at: stream_reader "at_slice s"
proof
  fix pos p v e and b c :: "byte list"
  assume "pos \<le> length b"
  then show "at_slice s b pos = Complete p v \<Longrightarrow> pos \<le> p \<and> p \<le> length b"
    "at_slice s b pos = Complete p v \<Longrightarrow> at_slice s (b @ c) pos = Complete p v"
    "at_slice s b pos = Fail e \<Longrightarrow> at_slice s (b @ c) pos = Fail e"
    by (auto simp: at_slice_def dest: slice_bounds slice_extend slice_fail)
qed

lemma slice_reader_at_0: "stream_reader r \<Longrightarrow> slice_reader (\<lambda>b. r b 0)"
  by (rule slice_reader.intro)
    (blast dest: stream_reader.reader_bounds stream_reader.reader_extend stream_reader.reader_fail)+

section \<open>Readers are closed under sequencing\<close>

lemma stream_reader_bind:
  assumes "stream_reader r" and "\<And>v. stream_reader (f v)"
  shows "stream_reader (\<lambda>b pos. dbind (r b pos) (\<lambda>p v. f v b p))"
proof
  note r = stream_reader.reader_bounds [OF assms(1)] stream_reader.reader_extend [OF assms(1)]
    stream_reader.reader_fail [OF assms(1)]
  note f = stream_reader.reader_bounds [OF assms(2)] stream_reader.reader_extend [OF assms(2)]
    stream_reader.reader_fail [OF assms(2)]
  fix pos p v e and b c :: "byte list"
  assume len: "pos \<le> length b"
  show "pos \<le> p \<and> p \<le> length b" if ok: "dbind (r b pos) (\<lambda>p v. f v b p) = Complete p v"
  proof -
    from ok obtain q w where "r b pos = Complete q w" "f w b q = Complete p v" by auto
    with r(1) [OF len] f(1) show ?thesis by (meson order_trans)
  qed
  show "dbind (r (b @ c) pos) (\<lambda>p v. f v (b @ c) p) = Complete p v"
    if ok: "dbind (r b pos) (\<lambda>p v. f v b p) = Complete p v"
  proof -
    from ok obtain q w where "r b pos = Complete q w" "f w b q = Complete p v" by auto
    with r [OF len] f(2) show ?thesis by simp
  qed
  show "dbind (r (b @ c) pos) (\<lambda>p v. f v (b @ c) p) = Fail e"
    if bad: "dbind (r b pos) (\<lambda>p v. f v b p) = Fail e"
  proof -
    from bad consider "r b pos = Fail e" | q w where "r b pos = Complete q w" "f w b q = Fail e"
      by auto
    then show ?thesis using r [OF len] f(3) by cases simp_all
  qed
qed

lemma stream_reader_Complete: "stream_reader (\<lambda>b pos. Complete pos v)"
  by unfold_locales simp_all

lemma stream_reader_Fail: "stream_reader (\<lambda>b pos. Fail e)"
  by unfold_locales simp_all

lemma stream_reader_if:
  "stream_reader r \<Longrightarrow> stream_reader q \<Longrightarrow> stream_reader (\<lambda>b pos. if c then r b pos else q b pos)"
  by (cases c) simp_all

lemma readBytes_reader: "stream_reader (readBytes n)"
  by unfold_locales (auto simp: readBytes_def split: if_splits)

lemma chunk_in_range:
  fixes n sz pos len :: nat
  assumes "pos + n * sz \<le> len" and "i < n"
  shows "pos + i * sz + sz \<le> len"
proof -
  have "Suc i * sz \<le> n * sz" using assms(2) by (intro mult_le_mono1) simp
  then show ?thesis using assms(1) by simp
qed

lemma readChunks_reader: "stream_reader (readChunks sz n)"
  by unfold_locales (auto simp: readChunks_def not_less chunk_in_range split: if_splits)

lemma readVersion_reader: "stream_reader readVersion"
  by unfold_locales (auto simp: readVersion_def Let_def nth_append split: if_splits)

lemma readHeader_reader: "stream_reader readHeader"
  by unfold_locales (auto simp: readHeader_def nth_append split: if_splits)

lemma decodeCompactU16_extend:
  "decodeCompactU16 b pos = Some (v, n) \<Longrightarrow> decodeCompactU16 (b @ c) pos = Some (v, n)"
  by (auto simp: decodeCompactU16_def Let_def nth_append split: if_splits)

lemma decodeCompactU16_consumed:
  "decodeCompactU16 b pos = Some (v, n) \<Longrightarrow> 1 \<le> n \<and> n \<le> 3 \<and> pos + n \<le> length b"
  by (auto simp: decodeCompactU16_def Let_def split: if_splits)

lemma readCompact_reader: "stream_reader readCompact"
  by unfold_locales
    (auto simp: readCompact_def decodeCompactU16_extend dest: decodeCompactU16_consumed
      split: option.splits prod.splits)

lemmas reader_intros = stream_reader_bind stream_reader_Complete stream_reader_Fail stream_reader_if
  readBytes_reader readChunks_reader readVersion_reader readHeader_reader readCompact_reader
  stream_reader.many

lemma readInstruction_reader: "stream_reader readInstruction"
proof -
  have head: "stream_reader (\<lambda>b pos. if pos + 1 > length b then Incomplete else Complete (pos + 1) (b ! pos))"
    by unfold_locales (auto simp: nth_append split: if_splits)
  have eq: "readInstruction = (\<lambda>b pos.
      dbind (if pos + 1 > length b then Incomplete else Complete (pos + 1) (b ! pos)) (\<lambda>pos programID.
      dbind (readCompact b pos) (\<lambda>pos acctLen.
      dbind (readBytes acctLen b pos) (\<lambda>pos accounts.
      dbind (readCompact b pos) (\<lambda>pos dataLen.
      dbind (readBytes dataLen b pos) (\<lambda>pos dat.
      Complete pos \<lparr>ProgramIDIndex = programID, Accounts = accounts, Data = dat\<rparr>))))))"
    by (rule ext)+ (simp add: readInstruction_def)
  show ?thesis unfolding eq by (intro head reader_intros)
qed

lemma readLookup_reader: "stream_reader readLookup"
  unfolding readLookup_def [abs_def] by (intro reader_intros)

lemma readLookups_reader: "stream_reader (readLookups v0)"
  unfolding readLookups_def [abs_def] by (intro reader_intros readLookup_reader)

interpretation msg: stream_reader decodeMessageAt
  unfolding decodeMessageAt_def [abs_def]
  by (intro reader_intros readInstruction_reader readLookups_reader)

interpretation msg: slice_reader decodeMessage
  unfolding decodeMessage_def [abs_def] by (rule slice_reader_at_0) (rule msg.stream_reader_axioms)

interpretation tx: slice_reader decodeTransaction
proof -
  have "stream_reader (\<lambda>b pos. dbind (readCompact b pos) (\<lambda>pos sigCount.
     if sigCount > 256 then Fail SigCountTooLarge
     else
       dbind (readChunks 64 sigCount b pos) (\<lambda>pos sigs.
       dbind (at_slice decodeMessage b pos) (\<lambda>pos msg.
       Complete pos \<lparr>Signatures = sigs, Message = msg\<rparr>))))"
    by (intro reader_intros msg.at.stream_reader_axioms)
  from slice_reader_at_0 [OF this] show "slice_reader decodeTransaction"
    unfolding decodeTransaction_def [abs_def] .
qed

text \<open>
  An entry is a reader in every respect but one: its transaction-count check compares with the
  bytes received so far, so only the errors other than \<open>InvalidTxCount\<close> are stable.
\<close>

definition entryTxCount :: "byte list \<Rightarrow> nat" where
  "entryTxCount b = le_nat (subslice 40 48 b)"

lemma entryTxCount_append: "48 \<le> length b \<Longrightarrow> entryTxCount (b @ c) = entryTxCount b"
  by (simp add: entryTxCount_def)

lemma decodeEntry_eq:
  "decodeEntry b =
     (if length b < 48 then Incomplete
      else if entryTxCount b > length b - 48 then Fail (InvalidTxCount (entryTxCount b))
      else readMany (at_slice decodeTransaction) (entryTxCount b) b 48)"
  by (simp add: decodeEntry_def Let_def entryTxCount_def)

lemma decodeEntry_bounds: "decodeEntry b = Complete p v \<Longrightarrow> 48 \<le> p \<and> p \<le> length b"
  using tx.at.many_bounds [of 48 b "entryTxCount b" p v]
  by (simp add: decodeEntry_eq split: if_splits)

lemma decodeEntry_extend:
  "decodeEntry b = Complete p v \<Longrightarrow> decodeEntry (b @ c) = Complete p v"
  using tx.at.many_extend [of 48 b "entryTxCount b" p v c]
  by (simp add: decodeEntry_eq entryTxCount_append split: if_splits)

lemma decodeEntry_fail:
  assumes "decodeEntry b = Fail e" and "\<forall>n. e \<noteq> InvalidTxCount n"
  shows "decodeEntry (b @ c) = Fail e"
  using assms tx.at.many_fail [of 48 b "entryTxCount b" e c]
  by (auto simp: decodeEntry_eq entryTxCount_append split: if_splits)

section \<open>Compact-u16 round trip\<close>

lemma or_take_push: "take_bit n a OR push_bit n (drop_bit n a) = (a :: nat)"
proof (rule bit_eqI)
  fix m
  show "bit (take_bit n a OR push_bit n (drop_bit n a)) m \<longleftrightarrow> bit a m"
    by (cases "m < n") (simp_all add: bit_or_iff bit_take_bit_iff bit_push_bit_iff bit_drop_bit_eq)
qed

lemma high_bit_byte:
  fixes x :: byte
  assumes "unat x < 128"
  shows "(x OR 0x80) AND 0x7F = x \<and> \<not> (x OR 0x80) < 0x80"
proof -
  have "list_all (\<lambda>x :: byte. (x OR 0x80) AND 0x7F = x \<and> \<not> (x OR 0x80) < 0x80) (map of_nat [0..<128])"
    by code_simp
  from byte_range_check [OF this, of x] assms show ?thesis by simp
qed

lemma nat_and_127: "v AND 0x7F = take_bit 7 (v :: nat)"
  by (simp add: take_bit_eq_mask mask_eq_exp_minus_1)

lemma nat_and_255: "v AND 0xFF = take_bit 8 (v :: nat)"
  by (simp add: take_bit_eq_mask mask_eq_exp_minus_1)

lemma low7: "unat (of_nat (take_bit 7 v) :: byte) = take_bit 7 v"
  "unat (of_nat (take_bit 7 v) :: byte) < 128"
proof -
  have "take_bit 7 v < 128" by (simp add: take_bit_eq_mod)
  then show "unat (of_nat (take_bit 7 v) :: byte) = take_bit 7 v"
   "unat (of_nat (take_bit 7 v) :: byte) < 128" by (simp_all add: unat_of_nat)
qed

lemma cont7: "unat ((of_nat (take_bit 7 v) OR 0x80 :: byte) AND 0x7F) = take_bit 7 v"
  "\<not> (of_nat (take_bit 7 v) OR 0x80 :: byte) < 0x80"
  using high_bit_byte [OF low7(2)[of v]] low7(1)[of v] by metis+

lemma decodeCompactU16_encode:
  assumes "v < 65536"
  shows "decodeCompactU16 (a @ encodeCompactU16 v @ c) (length a) = Some (v, length (encodeCompactU16 v))"
proof -
  consider "v < 0x80" | "0x80 \<le> v" "v < 0x4000" | "0x4000 \<le> v" by linarith
  then show ?thesis
  proof cases
    case 1
    then have "unat (of_nat v :: byte) = v" by (simp add: unat_of_nat)
    with 1 show ?thesis by (simp add: encodeCompactU16_def decodeCompactU16_def word_less_nat_alt)
  next
    case 2
    have d: "drop_bit 7 v < 128" using 2 by (simp add: drop_bit_eq_div)
    then have t: "take_bit 8 (drop_bit 7 v) = drop_bit 7 v"
      and u: "unat (of_nat (drop_bit 7 v) :: byte) = drop_bit 7 v" by (simp_all add: take_bit_eq_mod unat_of_nat)
    with 2 d show ?thesis
      by (simp add: encodeCompactU16_def decodeCompactU16_def nat_and_127 nat_and_255 cont7 t u
         Let_def nth_append word_less_nat_alt [of "of_nat (drop_bit 7 v)"] or_take_push)
  next
    case 3
    let ?m = "take_bit 7 (drop_bit 7 v)" and ?h = "drop_bit 14 v"
    have d: "?h < 4" using assms by (simp add: drop_bit_eq_div)
    then have t: "take_bit 8 ?h = ?h" and u: "unat (of_nat ?h :: byte) = ?h"
      by (simp_all add: take_bit_eq_mod unat_of_nat)
    have l: "\<not> (of_nat ?h :: byte) > 3" using d u by (simp add: word_less_nat_alt)
    have a: "unat ((of_nat ?h :: byte) AND 3) = ?h"
    proof -
      have "(of_nat ?h :: byte) AND 3 = take_bit 2 (of_nat ?h)"
        by (simp add: take_bit_eq_mask mask_eq_exp_minus_1)
      then show ?thesis using d u by (simp add: unsigned_take_bit_eq) (simp add: take_bit_eq_mod)
    qed
    have m: "(of_nat (?m OR 0x80) :: byte) = of_nat ?m OR 0x80" 
      by (simp add: of_nat_or_eq)
    have "take_bit 7 v OR push_bit 7 ?m OR push_bit 14 ?h = v"
    proof (rule bit_eqI)
      fix n :: nat
      consider "n < 7" | "7 \<le> n" "n < 14" | "14 \<le> n" by linarith
      then show "bit (take_bit 7 v OR push_bit 7 ?m OR push_bit 14 ?h) n \<longleftrightarrow> bit v n"
        by cases (auto simp: bit_or_iff bit_take_bit_iff bit_push_bit_iff bit_drop_bit_eq)
    qed
    with 3 d show ?thesis
      by (simp add: encodeCompactU16_def decodeCompactU16_def nat_and_127 nat_and_255 cont7 t u l a m
         Let_def nth_append)
  qed
qed

lemma or_push_bound:
  fixes x y :: nat
  assumes "x < 2 ^ k" and "y < 2 ^ l"
  shows "x OR push_bit k y < 2 ^ (k + l)"
proof -
  have "take_bit (k + l) (x OR push_bit k y) = x OR push_bit k y"
  proof (rule bit_eqI)
    fix m :: nat
    have "take_bit k x = x" "take_bit l y = y"
      using assms by (simp_all add: take_bit_nat_eq_self_iff)
    then have "bit x m \<Longrightarrow> m < k" "bit y i \<Longrightarrow> i < l" for i by (metis bit_take_bit_iff)+
    then show "bit (take_bit (k + l) (x OR push_bit k y)) m \<longleftrightarrow> bit (x OR push_bit k y) m"
      by (force simp: bit_take_bit_iff bit_or_iff bit_push_bit_iff)
  qed
  then show ?thesis by (simp only: take_bit_nat_eq_self_iff)
qed

lemma unat_and_mask: "unat ((b :: byte) AND 0x7F) < 2 ^ 7" "unat (b AND 0x03) < 2 ^ 2"
proof -
  have "b AND 0x7F = take_bit 7 b" "b AND 0x03 = take_bit 2 b"
    by (simp_all add: take_bit_eq_mask mask_eq_exp_minus_1)
  then show "unat (b AND 0x7F) < 2 ^ 7" "unat (b AND 0x03) < 2 ^ 2"
    by (simp_all only: unsigned_take_bit_eq take_bit_nat_less_exp)
qed

lemma decodeCompactU16_range:
  assumes "decodeCompactU16 b pos = Some (v, n)"
  shows "v < 65536"
proof -
  let ?b0 = "b ! pos" and ?b1 = "b ! (pos + 1)" and ?b2 = "b ! (pos + 2)"
  have two: "unat (?b0 AND 0x7F) OR push_bit 7 y < 2 ^ (7 + 7)" if "y < 2 ^ 7" for y
    using that by (intro or_push_bound unat_and_mask)
  have three: "(unat (?b0 AND 0x7F) OR push_bit 7 y) OR push_bit 14 (unat (?b2 AND 0x03)) < 2 ^ (14 + 2)"
    if "y < 2 ^ 7" for y
    using two [OF that] by (intro or_push_bound unat_and_mask) simp
  have "unat ?b0 < 256" using unsigned_less [where ?w = ?b0 and ?'a = nat] by simp
  then show ?thesis
    using assms two [of "unat ?b1"] three [OF unat_and_mask(1) [of ?b1]]
    by (auto simp: decodeCompactU16_def Let_def word_less_nat_alt or.assoc split: if_splits)
qed

end
