(* ===== verification/Tx_Encoding.thy ===== *)
theory Tx_Encoding
  imports Decoder
begin

text \<open>
  The specification of the decoder: the wire encoding of messages, transactions, entries and
  batches, and the proofs that the decoder of \<^verbatim>\<open>src/decoder.go\<close> inverts it, alone, in
  concatenated batches and when the bytes arrive in pieces.
\<close>

section \<open>Readers and encodings\<close>

text \<open>\<open>reads r x v\<close>: wherever the bytes \<open>x\<close> stand, the reader \<open>r\<close> returns \<open>v\<close> and stops after them.\<close>

definition reads :: "(byte list \<Rightarrow> nat \<Rightarrow> 'a dres) \<Rightarrow> byte list \<Rightarrow> 'a \<Rightarrow> bool" where
  "reads r x v \<longleftrightarrow> (\<forall>a c. r (a @ x @ c) (length a) = Complete (length a + length x) v)"

lemma readsI:
  "(\<And>a c. r (a @ x @ c) (length a) = Complete (length a + length x) v) \<Longrightarrow> reads r x v"
  by (simp add: reads_def)

lemma readsD: "reads r x v \<Longrightarrow> r (a @ x @ c) (length a) = Complete (length a + length x) v"
  by (simp add: reads_def)

lemma reads_bind:
  assumes "reads r x v" and "reads (f v) y w"
  shows "reads (\<lambda>b pos. dbind (r b pos) (\<lambda>p v. f v b p)) (x @ y) w"
proof (rule readsI)
  fix a c
  have "r (a @ x @ (y @ c)) (length a) = Complete (length (a @ x)) v"
    using readsD [OF assms(1), of a "y @ c"] by simp
  moreover have "f v ((a @ x) @ y @ c) (length (a @ x)) = Complete (length (a @ x) + length y) w"
    by (rule readsD [OF assms(2)])
  ultimately show "dbind (r (a @ (x @ y) @ c) (length a)) (\<lambda>p v. f v (a @ (x @ y) @ c) p)
      = Complete (length a + length (x @ y)) w"
    by simp
qed

lemma reads_Complete: "reads (\<lambda>b pos. Complete pos v) [] v"
  by (simp add: reads_def)

lemma reads_last:
  "reads r x v \<Longrightarrow> reads (\<lambda>b pos. dbind (r b pos) (\<lambda>p v. Complete p (g v))) x (g v)"
  by (simp add: reads_def)

lemma reads_compact: "v < 65536 \<Longrightarrow> reads readCompact (encodeCompactU16 v) v"
  by (rule readsI) (simp add: readCompact_def decodeCompactU16_encode)

lemma reads_bytes: "length x = n \<Longrightarrow> reads (readBytes n) x x"
  by (rule readsI) (auto simp: readBytes_def)

lemma reads_many:
  assumes "\<And>x. x \<in> set xs \<Longrightarrow> reads r (enc x) x"
  shows "reads (readMany r (length xs)) (concat (map enc xs)) xs"
  using assms
proof (induction xs)
  case (Cons x xs)
  have "reads (\<lambda>b pos. dbind (r b pos) (\<lambda>pos x. dbind (readMany r (length xs) b pos)
      (\<lambda>pos xs. Complete pos (x # xs)))) (enc x @ concat (map enc xs)) (x # xs)"
    using Cons by - (rule reads_bind [OF Cons.prems], simp, rule reads_last, simp)
  then show ?case by (simp add: reads_def)
qed (simp add: reads_def)

lemma chunk_concat:
  assumes "\<forall>x \<in> set xs. length x = sz" and "i < length xs"
  shows "subslice (length a + i * sz) (length a + i * sz + sz) (a @ concat xs @ c) = xs ! i"
  using assms
proof (induction xs arbitrary: a i)
  case (Cons x xs)
  show ?case
  proof (cases i)
    case 0
    then show ?thesis using Cons.prems by (simp add: subslice_def)
  next
    case (Suc j)
    with Cons.IH [of j "a @ x"] Cons.prems show ?thesis by (simp add: add.assoc)
  qed
qed simp

lemma length_concat_const: "\<forall>x \<in> set xs. length x = sz \<Longrightarrow> length (concat xs) = length xs * sz"
  by (induction xs) simp_all

lemma reads_chunks:
  assumes "\<forall>x \<in> set xs. length x = sz"
  shows "reads (readChunks sz (length xs)) (concat xs) xs"
proof (rule readsI)
  fix a c
  have "map (\<lambda>i. subslice (length a + i * sz) (length a + i * sz + sz) (a @ concat xs @ c)) [0..<length xs] = xs"
    by (rule nth_equalityI) (simp_all add: chunk_concat [OF assms])
  then show "readChunks sz (length xs) (a @ concat xs @ c) (length a)
      = Complete (length a + length (concat xs)) xs"
    by (simp add: readChunks_def length_concat_const [OF assms])
qed

lemma reads_at_slice: "(\<And>c. s (x @ c) = Complete (length x) v) \<Longrightarrow> reads (at_slice s) x v"
  by (rule readsI) (simp add: at_slice_def)

section \<open>Encodings\<close>

definition enc_vec :: "byte list \<Rightarrow> byte list" where
  "enc_vec xs = encodeCompactU16 (length xs) @ xs"

definition enc_instruction :: "CompiledInstruction \<Rightarrow> byte list" where
  "enc_instruction i = [ProgramIDIndex i] @ enc_vec (Accounts i) @ enc_vec (Data i)"

definition wf_instruction :: "CompiledInstruction \<Rightarrow> bool" where
  "wf_instruction i \<longleftrightarrow> length (Accounts i) < 65536 \<and> length (Data i) < 65536"

definition enc_lookup :: "MessageAddressTableLookup \<Rightarrow> byte list" where
  "enc_lookup l = AccountKey l @ enc_vec (WritableIndexes l) @ enc_vec (ReadonlyIndexes l)"

definition wf_lookup :: "MessageAddressTableLookup \<Rightarrow> bool" where
  "wf_lookup l \<longleftrightarrow> length (AccountKey l) = 32 \<and> length (WritableIndexes l) < 65536 \<and>
     length (ReadonlyIndexes l) < 65536"

definition enc_header :: "MessageHeader \<Rightarrow> byte list" where
  "enc_header h = [NumRequiredSignatures h, NumReadonlySignedAccounts h, NumReadonlyUnsignedAccounts h]"

definition enc_message :: "VersionedMessage \<Rightarrow> byte list" where
  "enc_message m =
     (if IsV0 m then [0x80] else []) @ enc_header (Header m)
     @ encodeCompactU16 (length (AccountKeys m)) @ concat (AccountKeys m) @ RecentBlockhash m
     @ encodeCompactU16 (length (Instructions m)) @ concat (map enc_instruction (Instructions m))
     @ (if IsV0 m then encodeCompactU16 (length (AddressTableLookups m))
          @ concat (map enc_lookup (AddressTableLookups m)) else [])"

text \<open>A legacy message has no lookups and starts with a byte whose version bit is clear.\<close>

definition wf_message :: "VersionedMessage \<Rightarrow> bool" where
  "wf_message m \<longleftrightarrow>
     (\<not> IsV0 m \<longrightarrow> AddressTableLookups m = [] \<and> NumRequiredSignatures (Header m) AND 0x80 = 0) \<and>
     length (AccountKeys m) < 65536 \<and> (\<forall>k \<in> set (AccountKeys m). length k = 32) \<and>
     length (RecentBlockhash m) = 32 \<and>
     length (Instructions m) < 65536 \<and> (\<forall>i \<in> set (Instructions m). wf_instruction i) \<and>
     length (AddressTableLookups m) < 65536 \<and> (\<forall>l \<in> set (AddressTableLookups m). wf_lookup l)"

definition enc_tx :: "VersionedTransaction \<Rightarrow> byte list" where
  "enc_tx t = encodeCompactU16 (length (Signatures t)) @ concat (Signatures t) @ enc_message (Message t)"

definition wf_tx :: "VersionedTransaction \<Rightarrow> bool" where
  "wf_tx t \<longleftrightarrow> length (Signatures t) \<le> 256 \<and> (\<forall>s \<in> set (Signatures t). length s = 64) \<and>
     wf_message (Message t)"

lemma reads_vec:
  assumes "length xs < 65536" and "reads (f xs) y w"
  shows "reads (\<lambda>b pos. dbind (readCompact b pos) (\<lambda>pos n. dbind (readBytes n b pos)
     (\<lambda>pos v. f v b pos))) (enc_vec xs @ y) w"
  unfolding enc_vec_def append_assoc
  by (rule reads_bind [OF reads_compact [OF assms(1)]], rule reads_bind [OF reads_bytes [OF refl]])
    (rule assms(2))

lemma reads_instruction:
  assumes "wf_instruction i"
  shows "reads readInstruction (enc_instruction i) i"
proof (rule readsI)
  fix a c
  let ?p = "[ProgramIDIndex i]" and ?rest = "enc_vec (Accounts i) @ enc_vec (Data i)"
  have tail: "reads (\<lambda>b pos.
      dbind (readCompact b pos) (\<lambda>pos acctLen.
      dbind (readBytes acctLen b pos) (\<lambda>pos accounts.
      dbind (readCompact b pos) (\<lambda>pos dataLen.
      dbind (readBytes dataLen b pos) (\<lambda>pos dat.
      Complete pos \<lparr>ProgramIDIndex = ProgramIDIndex i, Accounts = accounts, Data = dat\<rparr>)))))
      (enc_vec (Accounts i) @ enc_vec (Data i) @ []) i"
    using assms unfolding wf_instruction_def
    by - (rule reads_vec, simp, rule reads_vec, simp, simp add: reads_def)
  have "(a @ ?p @ ?rest @ c) ! length a = ProgramIDIndex i" by simp
  with readsD [OF tail, of "a @ ?p" c]
  show "readInstruction (a @ enc_instruction i @ c) (length a)
      = Complete (length a + length (enc_instruction i)) i"
    by (simp add: readInstruction_def enc_instruction_def)
qed

lemma reads_lookup:
  assumes "wf_lookup l"
  shows "reads readLookup (enc_lookup l) l"
proof -
  have "reads readLookup (AccountKey l @ enc_vec (WritableIndexes l) @ enc_vec (ReadonlyIndexes l) @ []) l"
    using assms unfolding wf_lookup_def readLookup_def [abs_def]
    by - (rule reads_bind [OF reads_bytes], simp, rule reads_vec, simp, rule reads_vec, simp,
        simp add: reads_def)
  then show ?thesis by (simp add: enc_lookup_def)
qed

lemma reads_lookups:
  assumes "length ls < 65536" and "\<forall>l \<in> set ls. wf_lookup l" and "\<not> v0 \<longrightarrow> ls = []"
  shows "reads (readLookups v0)
    (if v0 then encodeCompactU16 (length ls) @ concat (map enc_lookup ls) else []) ls"
proof (cases v0)
  case True
  have "reads (\<lambda>b pos. dbind (readCompact b pos) (\<lambda>pos n. readMany readLookup n b pos))
      (encodeCompactU16 (length ls) @ concat (map enc_lookup ls)) ls"
    using assms by - (rule reads_bind [OF reads_compact [OF assms(1)]], rule reads_many, simp add: reads_lookup)
  with True show ?thesis by (simp add: readLookups_def [abs_def])
next
  case False
  with assms(3) show ?thesis by (simp add: reads_def readLookups_def)
qed

lemma reads_header: "reads readHeader (enc_header h) h"
  by (rule readsI) (simp add: readHeader_def enc_header_def nth_append)

lemma reads_prologue:
  assumes "\<not> v0 \<longrightarrow> NumRequiredSignatures h AND 0x80 = 0"
  shows "reads (\<lambda>b pos. dbind (readVersion b pos) (\<lambda>pos v. dbind (readHeader b pos)
      (\<lambda>pos h. Complete pos (v, h)))) ((if v0 then [0x80] else []) @ enc_header h) (v0, h)"
proof (rule readsI)
  fix a c
  have hd: "readHeader ((a @ (if v0 then [0x80] else [])) @ enc_header h @ c)
      (length (a @ (if v0 then [0x80] else []))) =
      Complete (length (a @ (if v0 then [0x80] else [])) + length (enc_header h)) h"
    by (rule readsD [OF reads_header])
  then show "dbind (readVersion (a @ ((if v0 then [0x80] else []) @ enc_header h) @ c) (length a))
      (\<lambda>pos v. dbind (readHeader (a @ ((if v0 then [0x80] else []) @ enc_header h) @ c) pos)
      (\<lambda>pos h. Complete pos (v, h)))
      = Complete (length a + length ((if v0 then [0x80] else []) @ enc_header h)) (v0, h)"
    using assms by (cases v0) (simp_all add: readVersion_def enc_header_def)
qed

lemma reads_message:
  assumes "wf_message m"
  shows "reads decodeMessageAt (enc_message m) m"
proof -
  let ?tail = "\<lambda>(isV0, header) b pos.
     dbind (readCompact b pos) (\<lambda>pos acctCount.
     dbind (readChunks 32 acctCount b pos) (\<lambda>pos accountKeys.
     dbind (readBytes 32 b pos) (\<lambda>pos blockhash.
     dbind (readCompact b pos) (\<lambda>pos ixCount.
     dbind (readMany readInstruction ixCount b pos) (\<lambda>pos instructions.
     dbind (readLookups isV0 b pos) (\<lambda>pos atls.
     Complete pos
       \<lparr>IsV0 = isV0, Header = header, AccountKeys = accountKeys, RecentBlockhash = blockhash,
        Instructions = instructions, AddressTableLookups = atls\<rparr>))))))"
  let ?pro = "\<lambda>b pos. dbind (readVersion b pos) (\<lambda>pos v. dbind (readHeader b pos)
      (\<lambda>pos h. Complete pos (v, h)))"
  have assoc: "dbind (dbind x f) g = dbind x (\<lambda>p v. dbind (f p v) g)"
    for x :: "'a dres" and f :: "nat \<Rightarrow> 'a \<Rightarrow> 'b dres" and g :: "nat \<Rightarrow> 'b \<Rightarrow> 'c dres"
    by (cases x) simp_all
  have split: "decodeMessageAt = (\<lambda>b pos. dbind (?pro b pos) (\<lambda>pos vh. ?tail vh b pos))"
    by (simp add: decodeMessageAt_def [abs_def] assoc)
  have m: "\<lparr>IsV0 = IsV0 m, Header = Header m, AccountKeys = AccountKeys m,
      RecentBlockhash = RecentBlockhash m, Instructions = Instructions m,
      AddressTableLookups = AddressTableLookups m\<rparr> = m" by simp
  have wf: "\<not> IsV0 m \<longrightarrow> NumRequiredSignatures (Header m) AND 0x80 = 0"
    "length (AccountKeys m) < 65536" "\<forall>k \<in> set (AccountKeys m). length k = 32"
    "length (RecentBlockhash m) = 32" "length (Instructions m) < 65536"
    "length (AddressTableLookups m) < 65536" "\<forall>l \<in> set (AddressTableLookups m). wf_lookup l"
    "\<not> IsV0 m \<longrightarrow> AddressTableLookups m = []"
    "\<And>i. i \<in> set (Instructions m) \<Longrightarrow> reads readInstruction (enc_instruction i) i"
    using assms reads_instruction by (auto simp: wf_message_def)
  have "reads (?tail (IsV0 m, Header m)) (encodeCompactU16 (length (AccountKeys m)) @ concat (AccountKeys m)
     @ RecentBlockhash m @ encodeCompactU16 (length (Instructions m))
     @ concat (map enc_instruction (Instructions m))
     @ (if IsV0 m then encodeCompactU16 (length (AddressTableLookups m))
          @ concat (map enc_lookup (AddressTableLookups m)) else [])) m"
    unfolding prod.case
    by (rule reads_bind [OF reads_compact [OF wf(2)]], rule reads_bind [OF reads_chunks [OF wf(3)]],
        rule reads_bind [OF reads_bytes [OF wf(4)]], rule reads_bind [OF reads_compact [OF wf(5)]],
        rule reads_bind [OF reads_many [OF wf(9)]])
      (assumption, subst m [symmetric], rule reads_last, rule reads_lookups [OF wf(6-8)])
  from reads_bind [OF reads_prologue [OF wf(1)], of ?tail, OF this]
  show ?thesis unfolding split enc_message_def append_assoc .
qed

section \<open>Transactions, entries and batches\<close>

lemma decodeTransaction_enc:
  assumes "wf_tx t"
  shows "decodeTransaction (enc_tx t @ c) = Complete (length (enc_tx t)) t"
proof -
  have wf: "length (Signatures t) < 65536" "length (Signatures t) \<le> 256"
    "\<forall>s \<in> set (Signatures t). length s = 64" "wf_message (Message t)"
    using assms by (auto simp: wf_tx_def)
  have msg: "decodeMessage (enc_message (Message t) @ c') = Complete (length (enc_message (Message t))) (Message t)" for c'
    using readsD [OF reads_message [OF wf(4)], of "[]" c'] by (simp add: decodeMessage_def)
  have t: "\<lparr>Signatures = Signatures t, Message = Message t\<rparr> = t" by simp
  have "reads (\<lambda>b pos. dbind (readChunks 64 (length (Signatures t)) b pos) (\<lambda>pos sigs.
      dbind (at_slice decodeMessage b pos) (\<lambda>pos msg.
      Complete pos \<lparr>Signatures = sigs, Message = msg\<rparr>)))
      (concat (Signatures t) @ enc_message (Message t)) t"
    by (rule reads_bind [OF reads_chunks [OF wf(3)]], subst t [symmetric], rule reads_last)
      (rule reads_at_slice, rule msg)
  from readsD [OF this, of "encodeCompactU16 (length (Signatures t))" c]
    readsD [OF reads_compact [OF wf(1)], of "[]" "concat (Signatures t) @ enc_message (Message t) @ c"] wf(2)
  show ?thesis by (simp add: decodeTransaction_def enc_tx_def)
qed

record entry =
  num_hashes :: u64
  entry_hash :: Hash
  entry_txs :: "VersionedTransaction list"

definition enc_entry :: "entry \<Rightarrow> byte list" where
  "enc_entry e = le_bytes 8 (unat (num_hashes e)) @ entry_hash e
     @ le_bytes 8 (length (entry_txs e)) @ concat (map enc_tx (entry_txs e))"

definition wf_entry :: "entry \<Rightarrow> bool" where
  "wf_entry e \<longleftrightarrow> length (entry_hash e) = 32 \<and> length (entry_txs e) < 2 ^ 64 \<and>
     (\<forall>t \<in> set (entry_txs e). wf_tx t)"

definition enc_batch :: "entry list \<Rightarrow> byte list" where
  "enc_batch es = le_bytes 8 (length es) @ concat (map enc_entry es)"

definition wf_batch :: "entry list \<Rightarrow> bool" where
  "wf_batch es \<longleftrightarrow> length es \<le> maxEntryCount \<and> (\<forall>e \<in> set es. wf_entry e)"

abbreviation batch_txs :: "entry list \<Rightarrow> VersionedTransaction list" where
  "batch_txs es \<equiv> concat (map entry_txs es)"

lemma enc_tx_nonempty: "wf_tx t \<Longrightarrow> 1 \<le> length (enc_tx t)"
  by (simp add: enc_tx_def encodeCompactU16_def)

lemma length_concat_ge: "(\<And>x. x \<in> set xs \<Longrightarrow> k \<le> length (f x)) \<Longrightarrow> length xs * k \<le> length (concat (map f xs))"
  by (induction xs) (simp_all add: add_mono)

lemma decodeEntry_enc:
  assumes "wf_entry e"
  shows "decodeEntry (enc_entry e @ c) = Complete (length (enc_entry e)) (entry_txs e)"
proof -
  let ?h = "le_bytes 8 (unat (num_hashes e)) @ entry_hash e" and ?n = "length (entry_txs e)"
    and ?txs = "concat (map enc_tx (entry_txs e))"
  have wf: "length (entry_hash e) = 32" "?n < 2 ^ 64" "\<And>t. t \<in> set (entry_txs e) \<Longrightarrow> wf_tx t"
    using assms by (auto simp: wf_entry_def)
  have h: "length ?h = 40" using wf by simp
  have "subslice (length ?h) (length ?h + 8) (?h @ (le_bytes 8 ?n @ ?txs @ c)) = le_bytes 8 ?n"
    unfolding subslice_append_mid by simp
  then have sl: "subslice 40 48 (enc_entry e @ c) = le_bytes 8 ?n"
    unfolding h by (simp add: enc_entry_def)
  have "?n < 256 ^ 8" using wf(2) by simp
  then have count: "entryTxCount (enc_entry e @ c) = ?n"
    unfolding entryTxCount_def sl by (rule le_nat_le_bytes)
  have "?n * 1 \<le> length ?txs" by (rule length_concat_ge) (rule enc_tx_nonempty [OF wf(3)])
  then have rem: "?n \<le> length (enc_entry e @ c) - 48" using wf by (simp add: enc_entry_def)
  have "reads (readMany (at_slice decodeTransaction) ?n) ?txs (entry_txs e)"
    using wf(3) by - (rule reads_many, rule reads_at_slice, rule decodeTransaction_enc)
  from readsD [OF this, of "?h @ le_bytes 8 ?n" c] wf(1)
  have "readMany (at_slice decodeTransaction) ?n (enc_entry e @ c) 48
      = Complete (length (enc_entry e)) (entry_txs e)"
    by (simp add: enc_entry_def)
  with count rem wf(1) show ?thesis by (simp add: decodeEntry_eq enc_entry_def)
qed

lemma length_enc_entry: "wf_entry e \<Longrightarrow> 48 \<le> length (enc_entry e)"
  by (simp add: wf_entry_def enc_entry_def)

lemma batchLoop_enc:
  assumes "\<forall>e \<in> set es. wf_entry e"
  shows "batchLoop (length es) (a @ concat (map enc_entry es) @ c) (length a) txs =
    Inr (length a + length (concat (map enc_entry es)), txs @ batch_txs es)"
  using assms
proof (induction es arbitrary: a txs)
  case (Cons e es)
  let ?b = "a @ concat (map enc_entry (e # es)) @ c"
  have "decodeEntry (drop (length a) ?b) = Complete (length (enc_entry e)) (entry_txs e)"
    using Cons.prems by (simp add: decodeEntry_enc)
  moreover have "length a < length ?b" using Cons.prems length_enc_entry [of e] by auto
  ultimately show ?case using Cons.IH [of "a @ enc_entry e" "txs @ entry_txs e"] Cons.prems by simp
qed simp

lemma batch_prefix:
  assumes "wf_batch es"
  shows "validateVecPrefix (enc_batch es @ c)" and "le_nat (subslice 0 8 (enc_batch es @ c)) = length es"
proof -
  have "length es < 256 ^ 8" using assms by (simp add: wf_batch_def maxEntryCount_def)
  then show count: "le_nat (subslice 0 8 (enc_batch es @ c)) = length es"
    by (simp add: enc_batch_def subslice_def)
  have "length es * 48 \<le> length (concat (map enc_entry es))"
    using assms by (intro length_concat_ge) (simp add: wf_batch_def length_enc_entry)
  with count assms show "validateVecPrefix (enc_batch es @ c)"
    by (simp add: validateVecPrefix_def Let_def wf_batch_def enc_batch_def)
qed

lemma DecodeBatch_enc:
  assumes "wf_batch es"
  shows "DecodeBatch (enc_batch es @ c) = Inr (batch_txs es)"
proof -
  have "batchLoop (length es) (enc_batch es @ c) 8 [] = Inr (length (enc_batch es), batch_txs es)"
    using batchLoop_enc [of es "le_bytes 8 (length es)" c "[]"] assms
    by (simp add: wf_batch_def enc_batch_def)
  with batch_prefix [OF assms] show ?thesis by (simp add: DecodeBatch_def)
qed

text \<open>
  Property C12. DecodeBatch inverts the wire encoding of an entry batch: for any batch of at most
  50000 well-formed entries, followed by any bytes, it returns without error exactly the
  transactions of the entries, in order.\<close>

theorem DecodeBatch_roundtrip:
  assumes "wf_batch es"
  shows "DecodeBatch (enc_batch es @ c) = Inr (batch_txs es)"
  using assms by (rule DecodeBatch_enc)

text \<open>A concrete batch: an entry with one version-0 transaction, then a tick.\<close>

definition demo_tx :: VersionedTransaction where
  "demo_tx =
     \<lparr>Signatures = [replicate 64 7],
      Message = \<lparr>IsV0 = True,
        Header = \<lparr>NumRequiredSignatures = 1, NumReadonlySignedAccounts = 0,
                  NumReadonlyUnsignedAccounts = 1\<rparr>,
        AccountKeys = [replicate 32 1, replicate 32 2], RecentBlockhash = replicate 32 3,
        Instructions = [\<lparr>ProgramIDIndex = 1, Accounts = [0], Data = [9, 9]\<rparr>],
        AddressTableLookups = [\<lparr>AccountKey = replicate 32 4, WritableIndexes = [5], ReadonlyIndexes = []\<rparr>]\<rparr>\<rparr>"

definition demo_batch :: "entry list" where
  "demo_batch = [\<lparr>num_hashes = 1, entry_hash = replicate 32 8, entry_txs = [demo_tx]\<rparr>,
                 \<lparr>num_hashes = 12, entry_hash = replicate 32 9, entry_txs = []\<rparr>]"

lemma wf_demo_batch: "wf_batch demo_batch"
  by (simp add: demo_batch_def demo_tx_def wf_batch_def wf_entry_def wf_tx_def wf_message_def
      wf_instruction_def wf_lookup_def maxEntryCount_def)

theorem DecodeBatch_roundtrip_witness: "DecodeBatch (enc_batch demo_batch @ [1, 2]) = Inr [demo_tx]"
  using DecodeBatch_roundtrip [OF wf_demo_batch, of "[1, 2]"] by (simp add: demo_batch_def)

section \<open>Concatenated batches\<close>

lemma concatLoop_enc:
  assumes "\<forall>es \<in> set ess. wf_batch es" and "length c < 8"
  shows "concatLoop (a @ concat (map enc_batch ess) @ c) (length a) out = out @ concat (map batch_txs ess)"
  using assms(1)
proof (induction ess arbitrary: a out)
  case Nil
  with assms(2) show ?case by (simp add: concatLoop.simps)
next
  case (Cons es ess)
  let ?rest = "concat (map enc_batch ess) @ c"
  have wf: "wf_batch es" using Cons.prems by simp
  have "batchLoop (length es) (enc_batch es @ ?rest) 8 [] = Inr (length (enc_batch es), batch_txs es)"
    using batchLoop_enc [of es "le_bytes 8 (length es)" ?rest "[]"] wf
    by (simp add: wf_batch_def enc_batch_def)
  moreover have "8 \<le> length (enc_batch es)" by (simp add: enc_batch_def)
  ultimately show ?case
    using batch_prefix [OF wf, of ?rest] Cons.IH [of "a @ enc_batch es" "out @ batch_txs es"] Cons.prems
    by (subst concatLoop.simps) (auto simp: Let_def)
qed

text \<open>
  Property C28. DecodeConcatenated inverts the concatenation of any number of encoded batches, even
  empty ones, and ignores fewer than eight trailing bytes: it returns the transactions of all
  batches in order. The loop always ends, since every round consumes at least the eight bytes
  of a count.\<close>

theorem DecodeConcatenated_roundtrip:
  assumes "\<forall>es \<in> set ess. wf_batch es" and "length c < 8"
  shows "DecodeConcatenated (concat (map enc_batch ess) @ c) = concat (map batch_txs ess)"
  using concatLoop_enc [OF assms, of "[]" "[]"] by (simp add: DecodeConcatenated_def)

theorem DecodeConcatenated_roundtrip_witness:
  "DecodeConcatenated (concat (map enc_batch [demo_batch, [], demo_batch]) @ [0]) = [demo_tx, demo_tx]"
proof -
  have "wf_batch []" by (simp add: wf_batch_def)
  with wf_demo_batch show ?thesis
    using DecodeConcatenated_roundtrip [of "[demo_batch, [], demo_batch]" "[0]"]
    by (simp add: demo_batch_def)
qed

section \<open>Streaming\<close>

text \<open>A sequence of pushes, stopping at the first error, as a caller of the streaming decoder does.\<close>

fun push_all :: "StreamingDecoder \<Rightarrow> byte list list
    \<Rightarrow> StreamingDecoder \<times> (decode_error + VersionedTransaction list)" where
  "push_all d [] = (d, Inr [])"
| "push_all d (c # cs) =
     (case Push d c of
        (d1, Inl e) \<Rightarrow> (d1, Inl e)
      | (d1, Inr txs) \<Rightarrow>
         (case push_all d1 cs of (d2, Inl e) \<Rightarrow> (d2, Inl e) | (d2, Inr ts) \<Rightarrow> (d2, Inr (txs @ ts))))"

abbreviation feed :: "StreamingDecoder \<Rightarrow> byte list \<Rightarrow> StreamingDecoder" where
  "feed d b \<equiv> d\<lparr>buffer := buffer d @ b\<rparr>"

lemma feed_commutes:
  "d\<lparr>buffer := x, cursor := p, entriesYielded := n\<rparr> = d\<lparr>cursor := p, entriesYielded := n, buffer := x\<rparr>"
  "d\<lparr>buffer := x, cursor := p, expectedCount := n, expectedCountSet := s\<rparr> =
   d\<lparr>cursor := p, expectedCount := n, expectedCountSet := s, buffer := x\<rparr>"
  by (cases d, simp)+

lemma entryLoop_acc:
  "entryLoop d (ts @ us) = (case entryLoop d us of (d1, Inl e) \<Rightarrow> (d1, Inl e) | (d1, Inr x) \<Rightarrow> (d1, Inr (ts @ x)))"
proof (induction d us rule: entryLoop.induct)
  case (1 d us)
  show ?case
    using 1 by (subst (1 2) entryLoop.simps) (simp split: dres.split)
qed

lemma entryLoop_feed:
  "entryLoop d ts = (d1, Inr us) \<Longrightarrow> cursor d \<le> length (buffer d) \<Longrightarrow>
   entryLoop (feed d b) ts = entryLoop (feed d1 b) us"
proof (induction d ts rule: entryLoop.induct)
  case (1 d ts)
  show ?case
  proof (cases "entriesYielded d < expectedCount d \<and> cursor d < length (buffer d)")
    case False
    then have "d1 = d" "us = ts" using "1.prems" by (simp_all add: entryLoop.simps split: if_splits)
    then show ?thesis by simp
  next
    case True
    let ?rest = "drop (cursor d) (buffer d)"
    show ?thesis
    proof (cases "decodeEntry ?rest")
      case (Complete n etxs)
      let ?d = "d\<lparr>cursor := cursor d + n, entriesYielded := entriesYielded d + 1\<rparr>"
      have "entryLoop d ts = entryLoop ?d (ts @ etxs)"
        using True Complete by (subst entryLoop.simps) simp
      moreover have "entryLoop (feed d b) ts = entryLoop (feed ?d b) (ts @ etxs)"
        using True Complete decodeEntry_extend [OF Complete, of b] "1.prems"(2)
        by (subst entryLoop.simps) (simp add: feed_commutes)
      moreover have "cursor ?d \<le> length (buffer ?d)"
        using decodeEntry_bounds [OF Complete] "1.prems"(2) by auto
      ultimately show ?thesis using "1.IH" [OF _ _ Complete] "1.prems" True by simp
    next
      case Incomplete
      then have "d1 = d" "us = ts" using "1.prems" True
        by (simp_all add: entryLoop.simps [of d])
      then show ?thesis by simp
    next
      case (Fail e)
      then show ?thesis using "1.prems" True by (simp add: entryLoop.simps [of d])
    qed
  qed
qed

definition decoder_ok :: "StreamingDecoder \<Rightarrow> bool" where
  "decoder_ok d \<longleftrightarrow> cursor d \<le> length (buffer d) \<and> entriesYielded d \<le> expectedCount d \<and>
     expectedCount d \<le> maxEntryCount \<and> (\<not> expectedCountSet d \<longrightarrow> cursor d = 0 \<and> expectedCount d = 0)"

lemma entryLoop_ok:
  "decoder_ok d \<Longrightarrow> entryLoop d ts = (d1, x) \<Longrightarrow>
   decoder_ok d1 \<and> buffer d1 = buffer d \<and> expectedCountSet d1 = expectedCountSet d"
proof (induction d ts rule: entryLoop.induct)
  case (1 d ts)
  show ?case
  proof (cases "entriesYielded d < expectedCount d \<and> cursor d < length (buffer d)
      \<and> (\<exists>n etxs. decodeEntry (drop (cursor d) (buffer d)) = Complete n etxs)")
    case False
    then have "d1 = d"
      using "1.prems"(2) by (subst (asm) entryLoop.simps) (auto split: if_splits dres.splits)
    then show ?thesis using "1.prems" by simp
  next
    case True
    then obtain n etxs where dec: "decodeEntry (drop (cursor d) (buffer d)) = Complete n etxs" by blast
    let ?d = "d\<lparr>cursor := cursor d + n, entriesYielded := entriesYielded d + 1\<rparr>"
    have "entryLoop d ts = entryLoop ?d (ts @ etxs)"
      using True dec by (subst entryLoop.simps) simp
    moreover have "decoder_ok ?d"
      using "1.prems"(1) True decodeEntry_bounds [OF dec] by (auto simp: decoder_ok_def)
    ultimately show ?thesis using "1.IH" [OF _ _ dec] "1.prems" True by simp
  qed
qed

lemma tryDeserialize_ok:
  assumes "decoder_ok d" and "tryDeserialize d = (d1, x)"
  shows "decoder_ok d1 \<and> buffer d1 = buffer d"
proof (cases "expectedCountSet d")
  case True
  with assms show ?thesis using entryLoop_ok by (simp add: tryDeserialize_def)
next
  case False
  let ?count = "le_nat (subslice (cursor d) (cursor d + 8) (buffer d))"
  let ?d = "d\<lparr>cursor := cursor d + 8, expectedCount := ?count, expectedCountSet := True\<rparr>"
  show ?thesis
  proof (cases "cursor d + 8 \<le> length (buffer d) \<and> ?count \<le> maxEntryCount")
    case start: True
    moreover have "decoder_ok ?d" using assms(1) start False by (auto simp: decoder_ok_def)
    ultimately show ?thesis
      using assms(2) False entryLoop_ok [of ?d "[]" d1 x] by (simp add: tryDeserialize_def Let_def)
  next
    case False
    with assms \<open>\<not> expectedCountSet d\<close> show ?thesis
      by (auto simp: tryDeserialize_def Let_def split: if_splits)
  qed
qed

lemma decoder_ok_feed: "decoder_ok d \<Longrightarrow> decoder_ok (feed d b)"
  by (simp add: decoder_ok_def)

lemma tryDeserialize_feed:
  assumes "decoder_ok d" and "tryDeserialize d = (d1, Inr ts)"
  shows "tryDeserialize (feed d b) =
    (case tryDeserialize (feed d1 b) of (d2, Inl e) \<Rightarrow> (d2, Inl e) | (d2, Inr us) \<Rightarrow> (d2, Inr (ts @ us)))"
proof (cases "\<not> expectedCountSet d \<and> length (buffer d) < cursor d + 8")
  case True
  then have "d1 = d" "ts = []" using assms(2) by (simp_all add: tryDeserialize_def)
  then show ?thesis by (auto split: prod.split sum.split)
next
  case ready: False
  define e where "e = (if expectedCountSet d then d else
    d\<lparr>cursor := cursor d + 8, expectedCount := le_nat (subslice (cursor d) (cursor d + 8) (buffer d)),
      expectedCountSet := True\<rparr>)"
  have e: "entryLoop e [] = (d1, Inr ts)" "expectedCountSet e" "cursor e \<le> length (buffer e)"
    using ready assms by (auto simp: e_def tryDeserialize_def decoder_ok_def Let_def split: if_splits)
  have "tryDeserialize (feed d b) = entryLoop (feed e b) []"
    using ready assms(2)
    by (auto simp: e_def tryDeserialize_def Let_def feed_commutes split: if_splits)
  also have "\<dots> = entryLoop (feed d1 b) (ts @ [])" using entryLoop_feed [OF e(1,3)] by simp
  also have "\<dots> = (case entryLoop (feed d1 b) [] of (d2, Inl e) \<Rightarrow> (d2, Inl e)
      | (d2, Inr us) \<Rightarrow> (d2, Inr (ts @ us)))" by (rule entryLoop_acc)
  finally show ?thesis
  proof -
    assume *: "tryDeserialize (feed d b) = (case entryLoop (feed d1 b) [] of (d2, Inl e) \<Rightarrow> (d2, Inl e)
      | (d2, Inr us) \<Rightarrow> (d2, Inr (ts @ us)))"
    have "decoder_ok e"
      using assms ready by (auto simp: e_def tryDeserialize_def decoder_ok_def Let_def split: if_splits)
    from entryLoop_ok [OF this e(1)] e(2) have "expectedCountSet d1" by simp
    then have "tryDeserialize (feed d1 b) = entryLoop (feed d1 b) []" by (simp add: tryDeserialize_def)
    with * show ?thesis by simp
  qed
qed

lemma Push_ok: "decoder_ok d \<Longrightarrow> Push d c = (d1, x) \<Longrightarrow> decoder_ok d1 \<and> buffer d1 = buffer d @ c"
  using tryDeserialize_ok [OF decoder_ok_feed, of d c d1 x] by (simp add: Push_def)

lemma Push_Push:
  assumes "decoder_ok d" and "Push d a = (d1, Inr ts)" and "Push d1 b = (d2, Inr us)"
  shows "Push d (a @ b) = (d2, Inr (ts @ us))"
  using tryDeserialize_feed [OF decoder_ok_feed [OF assms(1)], of a d1 ts b] assms(2,3)
  by (simp add: Push_def)

lemma NewStreamingDecoder_ok: "decoder_ok NewStreamingDecoder"
  by (simp add: decoder_ok_def NewStreamingDecoder_def)

lemma push_all_single:
  assumes "decoder_ok d" and "Push d c = (d1, Inr ts)" and "push_all d1 cs = (d2, Inr us)"
  shows "Push d (concat (c # cs)) = (d2, Inr (ts @ us))"
  using assms
proof (induction cs arbitrary: c d1 ts us)
  case (Cons b cs)
  from Cons.prems(3) obtain d3 vs ws where b: "Push d1 b = (d3, Inr vs)"
    and cs: "push_all d3 cs = (d2, Inr ws)" and us: "us = vs @ ws"
    by (auto split: prod.splits sum.splits)
  from Push_Push [OF Cons.prems(1,2) b] Cons.IH [of "c @ b" d3 "ts @ vs" ws] Cons.prems(1) cs us
  show ?case by simp
qed simp

lemma push_all_concat:
  assumes "decoder_ok d" and "chunks \<noteq> []" and "push_all d chunks = (d', Inr txs)"
  shows "Push d (concat chunks) = (d', Inr txs)"
  using assms push_all_single
  by (cases chunks) (auto split: prod.splits sum.splits)

lemma entryLoop_enc:
  assumes "\<forall>e \<in> set es. wf_entry e" and "buffer d = a @ concat (map enc_entry es) @ c"
    and "cursor d = length a" and "expectedCount d = entriesYielded d + length es"
  shows "entryLoop d ts = (d\<lparr>cursor := length a + length (concat (map enc_entry es)),
      entriesYielded := expectedCount d\<rparr>, Inr (ts @ batch_txs es))"
  using assms
proof (induction es arbitrary: a d ts)
  case (Cons e es)
  let ?d = "d\<lparr>cursor := cursor d + length (enc_entry e), entriesYielded := entriesYielded d + 1\<rparr>"
  have "decodeEntry (drop (cursor d) (buffer d)) = Complete (length (enc_entry e)) (entry_txs e)"
    using Cons.prems by (simp add: decodeEntry_enc)
  moreover have "enc_entry e \<noteq> []" using Cons.prems length_enc_entry [of e] by auto
  ultimately have "entryLoop d ts = entryLoop ?d (ts @ entry_txs e)"
    using Cons.prems by (subst entryLoop.simps) simp
  also have "\<dots> = (?d\<lparr>cursor := length (a @ enc_entry e) + length (concat (map enc_entry es)),
      entriesYielded := expectedCount ?d\<rparr>, Inr ((ts @ entry_txs e) @ batch_txs es))"
    using Cons.prems by (intro Cons.IH) simp_all
  finally show ?case by (cases d) (simp add: add.assoc)
qed (cases d, simp add: entryLoop.simps)

lemma Push_batch:
  assumes "wf_batch es"
  shows "\<exists>d. Push NewStreamingDecoder (enc_batch es @ c) = (d, Inr (batch_txs es)) \<and>
    cursor d = length (enc_batch es) \<and> entriesYielded d = length es \<and> expectedCount d = length es"
proof -
  let ?b = "enc_batch es @ c"
  let ?d = "\<lparr>buffer = ?b, cursor = 8, expectedCount = length es, expectedCountSet = True, entriesYielded = 0\<rparr>"
  have "Push NewStreamingDecoder ?b = entryLoop ?d []"
    using batch_prefix(2) [OF assms, of c] assms
    by (simp add: Push_def tryDeserialize_def NewStreamingDecoder_def enc_batch_def wf_batch_def Let_def)
  also have "\<dots> = (?d\<lparr>cursor := length (le_bytes 8 (length es)) + length (concat (map enc_entry es)),
      entriesYielded := expectedCount ?d\<rparr>, Inr ([] @ batch_txs es))"
    using assms by (intro entryLoop_enc) (simp_all add: wf_batch_def enc_batch_def)
  finally show ?thesis by (simp add: enc_batch_def)
qed

text \<open>
  Property C13. The streaming decoder refines DecodeBatch: however an encoded batch is cut into pieces, if
  no push reports an error then the results put together are exactly the transactions DecodeBatch
  returns for the whole batch, and the decoder has consumed every entry.\<close>

theorem streaming_refines_DecodeBatch:
  assumes "wf_batch es" and "concat chunks = enc_batch es"
    and "push_all NewStreamingDecoder chunks = (d, Inr txs)"
  shows "DecodeBatch (enc_batch es) = Inr txs \<and> txs = batch_txs es \<and>
    cursor d = length (buffer d) \<and> entriesYielded d = length es"
proof -
  have "8 \<le> length (concat chunks)" unfolding assms(2) by (simp add: enc_batch_def)
  then have "chunks \<noteq> []" by auto
  with push_all_concat [OF NewStreamingDecoder_ok _ assms(3)] assms(2)
  have push: "Push NewStreamingDecoder (enc_batch es @ []) = (d, Inr txs)" by simp
  from Push_batch [OF assms(1), of "[]"] push
  have "txs = batch_txs es" "cursor d = length (enc_batch es)" "entriesYielded d = length es" by auto
  moreover have "buffer d = enc_batch es"
    using Push_ok [OF NewStreamingDecoder_ok push] by (simp add: NewStreamingDecoder_def)
  ultimately show ?thesis using DecodeBatch_enc [OF assms(1), of "[]"] by simp
qed

theorem streaming_refines_DecodeBatch_witness:
  "DecodeBatch (enc_batch demo_batch) = Inr [demo_tx]"
proof -
  obtain d where "Push NewStreamingDecoder (enc_batch demo_batch) = (d, Inr (batch_txs demo_batch))"
    using Push_batch [OF wf_demo_batch, of "[]"] by auto
  then have "push_all NewStreamingDecoder [enc_batch demo_batch] = (d, Inr (batch_txs demo_batch))"
    by simp
  from streaming_refines_DecodeBatch [OF wf_demo_batch _ this] show ?thesis
    by (simp add: demo_batch_def)
qed

text \<open>
  Property C30. The streaming decoder keeps its invariant: the cursor stays inside the buffer, at most as
  many entries are yielded as announced and at most 50000 are announced, whatever bytes are pushed
  and whether or not a push reports an error; the buffer is exactly the bytes pushed so far, and
  Reset returns the decoder to its initial state.\<close>

theorem streaming_decoder_invariant:
  assumes "decoder_ok d" and "Push d payload = (d', res)"
  shows "decoder_ok d' \<and> buffer d' = buffer d @ payload \<and> decoder_ok NewStreamingDecoder \<and>
    Reset d' = NewStreamingDecoder"
  using Push_ok [OF assms] NewStreamingDecoder_ok by (simp add: Reset_def NewStreamingDecoder_def)

theorem streaming_decoder_invariant_witness:
  "decoder_ok \<lparr>buffer = replicate 3 1, cursor = 0, expectedCount = 0, expectedCountSet = False,
     entriesYielded = 0\<rparr>"
proof -
  have "Push NewStreamingDecoder (replicate 3 1) =
     (\<lparr>buffer = replicate 3 1, cursor = 0, expectedCount = 0, expectedCountSet = False,
       entriesYielded = 0\<rparr>, Inr [])"
    by code_simp
  from streaming_decoder_invariant [OF NewStreamingDecoder_ok this] show ?thesis by blast
qed

text \<open>The entries in front of a cut are decoded; then the loop stands at the next one.\<close>

lemma entryLoop_prefix:
  assumes "\<forall>e \<in> set es. wf_entry e" and "buffer d = a @ concat (map enc_entry es) @ c"
    and "cursor d = length a" and "entriesYielded d + length es \<le> expectedCount d"
  shows "entryLoop d ts = entryLoop (d\<lparr>cursor := length a + length (concat (map enc_entry es)),
      entriesYielded := entriesYielded d + length es\<rparr>) (ts @ batch_txs es)"
  using assms
proof (induction es arbitrary: a d ts)
  case (Cons e es)
  let ?d = "d\<lparr>cursor := cursor d + length (enc_entry e), entriesYielded := entriesYielded d + 1\<rparr>"
  have "decodeEntry (drop (cursor d) (buffer d)) = Complete (length (enc_entry e)) (entry_txs e)"
    using Cons.prems by (simp add: decodeEntry_enc)
  moreover have "enc_entry e \<noteq> []" using Cons.prems length_enc_entry [of e] by auto
  ultimately have "entryLoop d ts = entryLoop ?d (ts @ entry_txs e)"
    using Cons.prems by (subst entryLoop.simps) simp
  also have "\<dots> = entryLoop (?d\<lparr>cursor := length (a @ enc_entry e) + length (concat (map enc_entry es)),
      entriesYielded := entriesYielded ?d + length es\<rparr>) ((ts @ entry_txs e) @ batch_txs es)"
    using Cons.prems by (intro Cons.IH) simp_all
  finally show ?case by (cases d) (simp add: add.assoc)
next
  case Nil
  then have "d\<lparr>cursor := length a\<rparr> = d" by (cases d) simp
  then show ?case by simp
qed

text \<open>The demonstration batch in two pieces, cut between its entries.\<close>

lemma demo_pieces:
  "push_all NewStreamingDecoder [le_bytes 8 2 @ enc_entry (hd demo_batch), enc_entry (hd (tl demo_batch))] =
     (\<lparr>buffer = enc_batch demo_batch, cursor = length (enc_batch demo_batch), expectedCount = 2,
       expectedCountSet = True, entriesYielded = 2\<rparr>, Inr [demo_tx])"
proof -
  let ?e = "hd demo_batch" and ?f = "hd (tl demo_batch)"
  let ?a = "le_bytes 8 2 @ enc_entry ?e"
  let ?d = "\<lparr>buffer = ?a, cursor = 8, expectedCount = 2, expectedCountSet = True, entriesYielded = 0\<rparr>"
  let ?d1 = "?d\<lparr>cursor := length ?a, entriesYielded := 1\<rparr>"
  have wf: "wf_entry ?e" "wf_entry ?f" using wf_demo_batch by (simp_all add: wf_batch_def demo_batch_def)
  have b: "enc_batch demo_batch = ?a @ enc_entry ?f" "entry_txs ?e = [demo_tx]" "entry_txs ?f = []"
    by (simp_all add: enc_batch_def demo_batch_def numeral_2_eq_2)
  have "Push NewStreamingDecoder ?a = entryLoop ?d []"
    by (simp add: Push_def tryDeserialize_def NewStreamingDecoder_def Let_def subslice_def maxEntryCount_def)
  also have "\<dots> = entryLoop (?d\<lparr>cursor := length (le_bytes 8 2) + length (concat (map enc_entry [?e])),
      entriesYielded := entriesYielded ?d + length [?e]\<rparr>) ([] @ batch_txs [?e])"
    using wf(1) by (intro entryLoop_prefix [where c = "[]"]) simp_all
  also have "\<dots> = (?d1, Inr [demo_tx])" by (simp add: entryLoop.simps b(2))
  finally have p: "Push NewStreamingDecoder ?a = (?d1, Inr [demo_tx])" .
  have "Push ?d1 (enc_entry ?f) = entryLoop (?d1\<lparr>buffer := ?a @ enc_entry ?f\<rparr>) []"
    by (simp add: Push_def tryDeserialize_def)
  also have "\<dots> = (?d1\<lparr>buffer := ?a @ enc_entry ?f, cursor := length ?a + length (concat (map enc_entry [?f])),
      entriesYielded := expectedCount ?d1\<rparr>, Inr ([] @ batch_txs [?f]))"
    using wf(2) entryLoop_enc [of "[?f]" "?d1\<lparr>buffer := ?a @ enc_entry ?f\<rparr>" ?a "[]" "[]"] by simp
  finally show ?thesis using p by (simp add: b)
qed

text \<open>
  Property C29. Chunking does not matter to the streaming decoder as long as no push fails: from any
  consistent decoder state, if a non-empty sequence of pushes reports no error, then one push of all the
  bytes reports none either, and its results and final decoder state are the concatenation of the results
  and the final state of the sequence.\<close>

theorem streaming_chunks_irrelevant:
  assumes "decoder_ok d" and "chunks \<noteq> []" and "push_all d chunks = (d', Inr txs)"
  shows "Push d (concat chunks) = (d', Inr txs)"
  using assms by (rule push_all_concat)

theorem streaming_chunks_irrelevant_witness:
  "Push NewStreamingDecoder (concat [le_bytes 8 2 @ enc_entry (hd demo_batch), enc_entry (hd (tl demo_batch))]) =
     (\<lparr>buffer = enc_batch demo_batch, cursor = length (enc_batch demo_batch), expectedCount = 2,
       expectedCountSet = True, entriesYielded = 2\<rparr>, Inr [demo_tx])"
  using streaming_chunks_irrelevant [OF NewStreamingDecoder_ok _ demo_pieces] by blast

lemma decodeEntry_cut:
  assumes "wf_entry e" and "r < length (entry_txs e)"
  shows "decodeEntry (take (48 + r) (enc_entry e)) = Fail (InvalidTxCount (length (entry_txs e)))"
proof -
  let ?h = "le_bytes 8 (unat (num_hashes e)) @ entry_hash e @ le_bytes 8 (length (entry_txs e))"
  have h: "length ?h = 48" using assms(1) by (simp add: wf_entry_def)
  have t: "take (48 + r) (enc_entry e) = ?h @ take r (concat (map enc_tx (entry_txs e)))"
    using h by (simp add: enc_entry_def)
  have "entryTxCount (?h @ c) = length (entry_txs e)" for c
    using assms(1) h by (simp add: entryTxCount_def wf_entry_def subslice_def)
  then show ?thesis unfolding t using assms(2) h by (simp add: decodeEntry_eq min_less_iff_disj)
qed

text \<open>
  Property C31. The hypothesis that no push fails is needed. Take any well-formed batch and any of its
  entries that has transactions, and cut the encoded batch behind the 48 bytes of this entry's header, or
  up to as many bytes later as the entry has transactions, less one. Then the streaming
  decoder fails on the first piece with an invalid transaction count, because decodeEntry compares
  the announced count with the bytes received so far; yet one push of the whole batch succeeds with
  all transactions, and so does DecodeBatch.\<close>

theorem streaming_spurious_tx_count_error:
  assumes "wf_batch (es @ e # fs)" and "r < length (entry_txs e)"
    and "n = 8 + length (concat (map enc_entry es)) + 48 + r"
  shows "snd (Push NewStreamingDecoder (take n (enc_batch (es @ e # fs)))) =
      Inl (InvalidTxCount (length (entry_txs e))) \<and>
    snd (Push NewStreamingDecoder (enc_batch (es @ e # fs))) = Inr (batch_txs (es @ e # fs)) \<and>
    DecodeBatch (enc_batch (es @ e # fs)) = Inr (batch_txs (es @ e # fs))"
proof -
  let ?n = "length (es @ e # fs)" and ?c = "take (48 + r) (enc_entry e)"
  have wf: "\<forall>x \<in> set es. wf_entry x" "wf_entry e" "?n \<le> maxEntryCount" using assms(1) by (simp_all add: wf_batch_def)
  have "length (entry_txs e) * 1 \<le> length (concat (map enc_tx (entry_txs e)))"
    using wf(2) enc_tx_nonempty by (intro length_concat_ge) (simp add: wf_entry_def)
  then have e: "48 + r \<le> length (enc_entry e)" using assms(2) wf(2) by (simp add: enc_entry_def wf_entry_def)
  have pre: "take n (enc_batch (es @ e # fs)) = le_bytes 8 ?n @ concat (map enc_entry es) @ ?c"
    using e assms(3) by (simp add: enc_batch_def)
  let ?b = "le_bytes 8 ?n @ concat (map enc_entry es) @ ?c"
  let ?d = "\<lparr>buffer = ?b, cursor = 8, expectedCount = ?n, expectedCountSet = True, entriesYielded = 0\<rparr>"
  have "Push NewStreamingDecoder ?b = entryLoop ?d []"
    using wf(3) by (simp add: Push_def tryDeserialize_def NewStreamingDecoder_def Let_def subslice_def maxEntryCount_def)
  also have "\<dots> = entryLoop (?d\<lparr>cursor := length (le_bytes 8 ?n) + length (concat (map enc_entry es)),
      entriesYielded := entriesYielded ?d + length es\<rparr>) ([] @ batch_txs es)"
    using wf(1) by (intro entryLoop_prefix) simp_all
  finally have "snd (Push NewStreamingDecoder ?b) = Inl (InvalidTxCount (length (entry_txs e)))"
    using e by (simp add: entryLoop.simps decodeEntry_cut [OF wf(2) assms(2)])
  moreover obtain d where "Push NewStreamingDecoder (enc_batch (es @ e # fs) @ []) = (d, Inr (batch_txs (es @ e # fs)))"
    using Push_batch [OF assms(1), of "[]"] by blast
  moreover have "DecodeBatch (enc_batch (es @ e # fs) @ []) = Inr (batch_txs (es @ e # fs))"
    by (rule DecodeBatch_enc [OF assms(1)])
  ultimately show ?thesis unfolding pre by simp
qed

theorem streaming_spurious_tx_count_error_witness:
  "snd (Push NewStreamingDecoder (take 56 (enc_batch demo_batch))) = Inl (InvalidTxCount 1)"
  using streaming_spurious_tx_count_error [of "[]" "hd demo_batch" "tl demo_batch" 0 56] wf_demo_batch
  by (simp add: demo_batch_def)

end
