(* ===== verification/Accumulator.thy ===== *)
theory Accumulator
  imports Fec_Set Saturating Options Tx_Encoding
begin

text \<open>
  The slot accumulator, the second part of \<^verbatim>\<open>src/accumulator.go\<close>: pending shreds, FEC fill,
  streaming decoding, batch flushing with salvage and timeout, and the harvest of the tail.
  The accumulator is a record; the state it shares with the listener (buffer pool, codec cache) is
  the record \<open>world\<close>, threaded through every operation.

  Two things come from outside the program: the clock and the iteration order of Go maps. Both
  are read from an \<open>environ\<close>, indexed by a counter of reads in the world, so each reading and
  each iteration may be different. Iterations whose order cannot be observed (counting,
  minimum, filtering) use the list order.

  The loops that need not end in the source are \<open>go_loop\<close>s of a round, or a
  \<open>partial_function (option)\<close>: \<open>None\<close> means that the operation does not return. The scratch slice \<^verbatim>\<open>combinedScratch\<close> is emptied before each use
  and is a local value. A nil transaction slice is the empty list: \<^verbatim>\<open>DecodeBatch\<close> returns
  nil exactly when it has no transaction to return.
\<close>

section \<open>State\<close>

record environ =
  clock :: "nat \<Rightarrow> int"
  mapOrder :: "nat \<Rightarrow> u32 list \<Rightarrow> u32 list"
  slotOrder :: "nat \<Rightarrow> u64 list \<Rightarrow> u64 list"

record world =
  w_pool :: bufferPool
  w_cache :: reedSolomonCache
  w_ticks :: nat

definition time_now :: "environ \<Rightarrow> world \<Rightarrow> int \<times> world" where
  "time_now env w = (clock env (w_ticks w), w\<lparr>w_ticks := Suc (w_ticks w)\<rparr>)"

definition order32 :: "environ \<Rightarrow> u32 list \<Rightarrow> world \<Rightarrow> u32 list \<times> world" where
  "order32 env ks w = (mapOrder env (w_ticks w) ks, w\<lparr>w_ticks := Suc (w_ticks w)\<rparr>)"

record slotAccumulator =
  cfg :: AccumulatorConfig
  pending :: "(u32 \<times> pendingShred) list"
  fecSets :: "(u32 \<times> fecSetBuffer) list"
  batchCompleteIdx :: "(u32 \<times> int) list"
  streamingCursor :: u32
  streamingDecoder :: StreamingDecoder
  yieldedSigs :: "Signature list"
  batchStart :: u32
  slotComplete :: bool
  ac_disableSalvageDelivery :: bool
  decodeErrors :: u32
  recoveriesDone :: u64
  recoveryFailures :: u64
  batchesDecodedStreaming :: u64
  batchesDecodedFallback :: u64
  batchesSkipped :: u64
  fecSetsDiscardedUnused :: u64
  fecSetsEvictedEarly :: u64
  salvagedTailTx :: u64
  batchesForceFinalizedCorrupted :: u64
  batchesForceFinalizedTimeout :: u64

definition newSlotAccumulator :: "AccumulatorConfig \<Rightarrow> slotAccumulator" where
  "newSlotAccumulator c =
     \<lparr>cfg = c, pending = [], fecSets = [], batchCompleteIdx = [], streamingCursor = 0,
      streamingDecoder = NewStreamingDecoder, yieldedSigs = [], batchStart = 0,
      slotComplete = False, ac_disableSalvageDelivery = False, decodeErrors = 0,
      recoveriesDone = 0, recoveryFailures = 0, batchesDecodedStreaming = 0,
      batchesDecodedFallback = 0, batchesSkipped = 0, fecSetsDiscardedUnused = 0,
      fecSetsEvictedEarly = 0, salvagedTailTx = 0, batchesForceFinalizedCorrupted = 0,
      batchesForceFinalizedTimeout = 0\<rparr>"

section \<open>Signatures\<close>

definition recordSig :: "VersionedTransaction \<Rightarrow> slotAccumulator \<Rightarrow> bool \<times> slotAccumulator" where
  "recordSig tx a =
     (case Signatures tx of
        [] \<Rightarrow> (False, a)
      | sig # _ \<Rightarrow> (if sig \<in> set (yieldedSigs a) then (False, a)
                   else (True, a\<lparr>yieldedSigs := sig # yieldedSigs a\<rparr>)))"

text \<open>The loop that appends the transactions with a new signature to the output and counts them.\<close>

fun emitTxs :: "VersionedTransaction list \<Rightarrow> slotAccumulator \<Rightarrow> VersionedTransaction list
    \<Rightarrow> slotAccumulator \<times> VersionedTransaction list \<times> nat" where
  "emitTxs [] a out = (a, out, 0)"
| "emitTxs (tx # txs) a out =
     (case recordSig tx a of
        (True, a) \<Rightarrow> (case emitTxs txs a (out @ [tx]) of (a, out, n) \<Rightarrow> (a, out, Suc n))
      | (False, a) \<Rightarrow> emitTxs txs a out)"

section \<open>Scans\<close>

definition smallestFecSetKey :: "slotAccumulator \<Rightarrow> u32 option" where
  "smallestFecSetKey a =
     fold (\<lambda>k m. case m of None \<Rightarrow> Some k | Some mn \<Rightarrow> if k < mn then Some k else m)
       (map fst (fecSets a)) None"

definition range32 :: "u32 \<Rightarrow> u32 \<Rightarrow> u32 list" where
  "range32 s e = map of_nat [unat s..<Suc (unat e)]"

definition countPendingInRange :: "slotAccumulator \<Rightarrow> u32 \<Rightarrow> u32 \<Rightarrow> nat" where
  "countPendingInRange a s e =
     length (filter (\<lambda>i. map_of (pending a) i \<noteq> None) (range32 s e))"

definition smallestBatchCompleteIdxFrom :: "u32 \<Rightarrow> slotAccumulator \<Rightarrow> (u32 \<times> int) option" where
  "smallestBatchCompleteIdxFrom start a =
     fold (\<lambda>(idx, t) m.
         if idx < start then m
         else case m of None \<Rightarrow> Some (idx, t)
              | Some (minIdx, minTime) \<Rightarrow> if idx < minIdx then Some (idx, t) else m)
       (batchCompleteIdx a) None"

definition dataCountFor :: "slotAccumulator \<Rightarrow> u32 \<Rightarrow> fecSetBuffer \<Rightarrow> nat" where
  "dataCountFor a setIdx fec =
     (let nd = ucast (fb_numData fec) :: u32 in
      if nd = 0 then 0
      else length (filter (\<lambda>(idx, ps). idx \<ge> setIdx \<and> idx < setIdx + nd \<and> pd_fecSetIndex ps = setIdx)
             (pending a)))"

definition selectRecoverableSet :: "u32 \<Rightarrow> slotAccumulator \<Rightarrow> u32 option" where
  "selectRecoverableSet hint a =
     (if (case map_of (fecSets a) hint of None \<Rightarrow> False
          | Some fec \<Rightarrow> canRecoverWith fec (dataCountFor a hint fec)) then Some hint
      else find (\<lambda>setIdx. case map_of (fecSets a) setIdx of None \<Rightarrow> False
          | Some fec \<Rightarrow>
             (let nd = ucast (fb_numData fec) :: u32; cursor = streamingCursor a in
              nd \<noteq> 0 \<and> setIdx \<le> cursor \<and> cursor < setIdx + nd \<and>
              canRecoverWith fec (dataCountFor a setIdx fec)))
        (sort (map fst (fecSets a))))"

section \<open>FEC fill\<close>

definition recover_step :: "environ \<Rightarrow> u32 \<Rightarrow> dataShredRef
    \<Rightarrow> slotAccumulator \<times> world \<times> bool \<Rightarrow> slotAccumulator \<times> world \<times> bool" where
  "recover_step env setIdx r st =
     (case st of (a, w, anyRec) \<Rightarrow>
       (let globalIdx = setIdx + ucast (dr_pos r) in
        if globalIdx < batchStart a then st
        else if map_of (pending a) globalIdx \<noteq> None then st
        else case ParseKind (dr_raw r) of
          Inl _ \<Rightarrow> st
        | Inr (CodeKind _) \<Rightarrow> st
        | Inr (DataKind d) \<Rightarrow>
           (if ds_LastInSlot d then (a\<lparr>slotComplete := True\<rparr>, w, anyRec)
            else
              (let pe = of_nat (DataHeaderSize + length (ds_Payload d));
                   a = a\<lparr>pending := AList.update globalIdx
                       \<lparr>source = RecoveredPayload (dr_raw r), payloadEnd = pe,
                        batchComplete = ds_BatchComplete d, pd_fecSetIndex = setIdx\<rparr> (pending a)\<rparr> in
               if ds_BatchComplete d \<and> map_of (batchCompleteIdx a) globalIdx = None then
                 (case time_now env w of (t, w) \<Rightarrow>
                    (a\<lparr>batchCompleteIdx := AList.update globalIdx t (batchCompleteIdx a)\<rparr>, w, True))
               else (a, w, True)))))"

text \<open>
  The data shreds of the set; their positions are distinct, so \<^verbatim>\<open>tryReconstruct\<close> does not depend on
  their order.
\<close>

definition fec_refs :: "bufferPool \<Rightarrow> slotAccumulator \<Rightarrow> u32 \<Rightarrow> u16 \<Rightarrow> dataShredRef list" where
  "fec_refs p a setIdx numData =
     map (\<lambda>(idx, ps). \<lparr>dr_pos = ucast (idx - setIdx), dr_raw = src_slice p (source ps)\<rparr>)
       (filter (\<lambda>(idx, ps). idx \<ge> setIdx \<and> idx - setIdx < ucast numData \<and> pd_fecSetIndex ps = setIdx)
         (pending a))"

definition tryFecFill :: "environ \<Rightarrow> u32 \<Rightarrow> slotAccumulator \<Rightarrow> world \<Rightarrow> bool \<times> slotAccumulator \<times> world" where
  "tryFecFill env hint a w =
     (case selectRecoverableSet hint a of
        None \<Rightarrow> (False, a, w)
      | Some setIdx \<Rightarrow>
         (case map_of (fecSets a) setIdx of
            None \<Rightarrow> (False, a, w)
          | Some fec \<Rightarrow>
             (if fb_numData fec = 0 then (False, a, w)
              else case tryReconstruct fec (fec_refs (w_pool w) a setIdx (fb_numData fec)) (w_cache w) of
                (res, cache) \<Rightarrow>
                 (let w = w\<lparr>w_cache := cache\<rparr> in
                  case res of
                    Inl _ \<Rightarrow> (False, a\<lparr>recoveryFailures := recoveryFailures a + 1\<rparr>, w)
                  | Inr recovered \<Rightarrow>
                     (if recovered = [] then (False, a, w)
                      else case fold (recover_step env setIdx) recovered (a, w, False) of
                        (a, w, anyRec) \<Rightarrow>
                         (if anyRec
                          then (True, a\<lparr>recoveriesDone := recoveriesDone a + 1,
                                       fecSets := AList.delete setIdx (fecSets a)\<rparr>, w)
                          else (False, a, w)))))))"

definition fillAll :: "environ \<Rightarrow> u32 list \<Rightarrow> slotAccumulator \<Rightarrow> world \<Rightarrow> slotAccumulator \<times> world" where
  "fillAll env hints a w = fold (\<lambda>h (a, w). snd (tryFecFill env h a w)) hints (a, w)"

section \<open>Salvage\<close>

text \<open>
  \<^verbatim>\<open>advance\<close> reports the largest index instead of wrapping. The first inner loop skips missing
  shreds (\<open>None\<close> is the early return), the second collects a run of present ones.
\<close>

definition payload_or_empty :: "bufferPool \<Rightarrow> pendingShred \<Rightarrow> byte list" where
  "payload_or_empty p ps = (case pd_payload p ps of None \<Rightarrow> [] | Some pl \<Rightarrow> pl)"

function skipMissing :: "(u32 \<times> pendingShred) list \<Rightarrow> u32 \<Rightarrow> u32 \<Rightarrow> u32 option" where
  "skipMissing pd c e =
     (if c \<le> e then
        (if map_of pd c \<noteq> None then Some c
         else if c = 0xFFFFFFFF then None
         else skipMissing pd (c + 1) e)
      else Some c)"
  by pat_completeness auto
termination
  by (relation "measure (\<lambda>(pd, c, e). 4294967296 - unat c)")
    (auto simp: u32_measure_next)

function collectRun :: "bufferPool \<Rightarrow> (u32 \<times> pendingShred) list \<Rightarrow> u32 \<Rightarrow> u32 \<Rightarrow> byte list
    \<Rightarrow> u32 \<times> bool \<times> byte list" where
  "collectRun p pd c e scratch =
     (if c \<le> e then
        (case map_of pd c of
           None \<Rightarrow> (c, False, scratch)
         | Some ps \<Rightarrow>
            (let scratch = scratch @ payload_or_empty p ps in
             if c = 0xFFFFFFFF then (c, True, scratch)
             else collectRun p pd (c + 1) e scratch))
      else (c, False, scratch))"
  by pat_completeness auto
termination
  by (relation "measure (\<lambda>(p, pd, c, e, scratch). 4294967296 - unat c)")
    (auto simp: u32_measure_next)

declare skipMissing.simps [simp del] collectRun.simps [simp del]

lemma skipMissing_ge: "skipMissing pd c e = Some c' \<Longrightarrow> unat c \<le> unat c'"
proof (induction pd c e rule: skipMissing.induct)
  case (1 pd c e)
  then show ?case
    by (subst (asm) skipMissing.simps) (fastforce simp: u32_next split: if_splits)
qed

lemma skipMissing_present: "skipMissing pd c e = Some c' \<Longrightarrow> c' \<le> e \<Longrightarrow> map_of pd c' \<noteq> None"
proof (induction pd c e rule: skipMissing.induct)
  case (1 pd c e)
  then show ?case by (subst (asm) skipMissing.simps) (auto split: if_splits)
qed

lemma collectRun_ge: "collectRun p pd c e s = (c', r, s') \<Longrightarrow> unat c \<le> unat c'"
proof (induction p pd c e s rule: collectRun.induct)
  case (1 p pd c e s)
  then show ?case
    by (subst (asm) collectRun.simps)
      (fastforce simp: Let_def u32_next split: if_splits option.splits)
qed

lemma collectRun_progress:
  assumes "collectRun p pd c e s = (c', False, s')" and "c \<le> e" and "map_of pd c \<noteq> None"
  shows "unat c < unat c'"
proof -
  obtain ps where ps: "map_of pd c = Some ps" using assms(3) by blast
  have n: "c \<noteq> 0xFFFFFFFF"
    using assms(1,2) ps by (subst (asm) collectRun.simps) (auto simp: Let_def split: if_splits)
  have "collectRun p pd (c + 1) e (s @ payload_or_empty p ps) = (c', False, s')"
    using assms(1,2) ps n by (subst (asm) collectRun.simps) (simp add: Let_def)
  from collectRun_ge [OF this] show ?thesis by (simp add: u32_next [OF n])
qed

function salvageLoop :: "bufferPool \<Rightarrow> u32 \<Rightarrow> u32 \<Rightarrow> slotAccumulator \<Rightarrow> VersionedTransaction list \<Rightarrow> nat
    \<Rightarrow> slotAccumulator \<times> VersionedTransaction list \<times> nat" where
  "salvageLoop p c e a out salvaged =
     (if c \<le> e then
        (case skipMissing (pending a) c e of
           None \<Rightarrow> (a, out, salvaged)
         | Some c \<Rightarrow>
            (if c > e then (a, out, salvaged)
             else case collectRun p (pending a) c e [] of
               (c, runDone, scratch) \<Rightarrow>
                (case (if scratch \<noteq> [] then emitTxs (DecodeConcatenated scratch) a out else (a, out, 0)) of
                   (a, out, n) \<Rightarrow>
                    (if runDone then (a, out, salvaged + n)
                     else salvageLoop p c e a out (salvaged + n)))))
      else (a, out, salvaged))"
  by pat_completeness auto
termination
proof (relation "measure (\<lambda>(p, c, e, a, out, n). 4294967296 - unat c)", goal_cases)
  case (2 p c e a out salvaged c1 c2 t runDone scratch)
  have skip: "unat c \<le> unat c1" "map_of (pending a) c1 \<noteq> None"
    using 2 skipMissing_ge skipMissing_present by (simp_all add: not_less)
  have "collectRun p (pending a) c1 e [] = (c2, False, scratch)" using 2 by simp
  from collectRun_progress [OF this _ skip(2)] 2 skip(1) show ?case
    by (simp add: not_less u32_measure)
qed simp

declare salvageLoop.simps [simp del]

definition salvageContiguousRunsIn :: "bufferPool \<Rightarrow> u32 \<Rightarrow> u32 \<Rightarrow> slotAccumulator
    \<Rightarrow> VersionedTransaction list \<Rightarrow> slotAccumulator \<times> VersionedTransaction list \<times> nat" where
  "salvageContiguousRunsIn p s e a out = salvageLoop p s e a out 0"

section \<open>Completing a batch\<close>

text \<open>Releasing the pending shreds that satisfy \<open>P\<close>, in the order of the iteration.\<close>

definition release_step :: "(u32 \<times> pendingShred) list \<Rightarrow> (u32 \<Rightarrow> bool) \<Rightarrow> u32 \<Rightarrow> bufferPool \<Rightarrow> bufferPool" where
  "release_step pd P k p =
     (case map_of pd k of
        None \<Rightarrow> p
      | Some ps \<Rightarrow> if P k then snd (src_release (source ps) p) else p)"

definition release_where :: "environ \<Rightarrow> (u32 \<Rightarrow> bool) \<Rightarrow> slotAccumulator \<Rightarrow> world \<Rightarrow> world" where
  "release_where env P a w =
     (case order32 env (map fst (pending a)) w of
        (ks, w) \<Rightarrow> w\<lparr>w_pool := fold (release_step (pending a) P) ks (w_pool w)\<rparr>)"

definition completeBatch :: "environ \<Rightarrow> u32 \<Rightarrow> slotAccumulator \<Rightarrow> world \<Rightarrow> slotAccumulator \<times> world" where
  "completeBatch env bcIdx a w =
     (let nextStart = saturatingAddU32 bcIdx 1;
          w = release_where env (\<lambda>k. k < nextStart) a w;
          a = a\<lparr>pending := filter (\<lambda>(k, _). \<not> k < nextStart) (pending a),
                batchCompleteIdx := filter (\<lambda>(k, _). \<not> k < nextStart) (batchCompleteIdx a),
                fecSets := filter (\<lambda>(setIdx, fec). let nd = ucast (fb_numData fec) :: u32 in
                              \<not> (nd > 0 \<and> setIdx + nd \<le> nextStart)) (fecSets a),
                batchStart := nextStart\<rparr>;
          a = (if streamingCursor a < nextStart then a\<lparr>streamingCursor := nextStart\<rparr> else a)
      in (a\<lparr>streamingDecoder := Reset (streamingDecoder a), yieldedSigs := []\<rparr>, w))"

text \<open>Salvage of an incomplete batch and its statistics.\<close>

definition salvageBatch :: "bufferPool \<Rightarrow> u32 \<Rightarrow> u32 \<Rightarrow> slotAccumulator \<Rightarrow> VersionedTransaction list
    \<Rightarrow> slotAccumulator \<times> VersionedTransaction list" where
  "salvageBatch p s e a out =
     (case salvageContiguousRunsIn p s e a out of
        (a, out, salvaged) \<Rightarrow>
          (if salvaged > 0 then (a\<lparr>batchesDecodedFallback := batchesDecodedFallback a + 1\<rparr>, out)
           else (a\<lparr>batchesSkipped := batchesSkipped a + 1\<rparr>, out)))"

text \<open>Decoding of a complete batch and its statistics.\<close>

definition decodeFlushed :: "byte list \<Rightarrow> slotAccumulator \<Rightarrow> VersionedTransaction list
    \<Rightarrow> slotAccumulator \<times> VersionedTransaction list" where
  "decodeFlushed scratch a out =
     (case DecodeBatch scratch of
        Inl _ \<Rightarrow> (a\<lparr>decodeErrors := decodeErrors a + 1, batchesSkipped := batchesSkipped a + 1\<rparr>, out)
      | Inr txs \<Rightarrow>
         (if txs = [] then
            (a\<lparr>decodeErrors := decodeErrors a + 1, batchesSkipped := batchesSkipped a + 1\<rparr>, out)
          else case emitTxs txs a out of
            (a, out, n) \<Rightarrow>
              (if n > 0 then (a\<lparr>batchesDecodedFallback := batchesDecodedFallback a + 1\<rparr>, out)
               else (a\<lparr>batchesDecodedStreaming := batchesDecodedStreaming a + 1\<rparr>, out))))"

section \<open>Streaming\<close>

text \<open>A pending shred whose payload end is out of range is dropped.\<close>

definition dropCorrupted :: "environ \<Rightarrow> pendingShred \<Rightarrow> slotAccumulator \<Rightarrow> world \<Rightarrow> VersionedTransaction list
    \<Rightarrow> slotAccumulator \<times> world \<times> VersionedTransaction list" where
  "dropCorrupted env ps a w out =
     (let droppedIdx = streamingCursor a;
          w = w\<lparr>w_pool := snd (src_release (source ps) (w_pool w))\<rparr>;
          a = a\<lparr>pending := AList.delete droppedIdx (pending a)\<rparr>;
          a = (if batchComplete ps
               then a\<lparr>batchCompleteIdx := AList.delete droppedIdx (batchCompleteIdx a)\<rparr> else a);
          a = a\<lparr>streamingCursor := streamingCursor a + 1, decodeErrors := decodeErrors a + 1\<rparr>
      in if batchComplete ps \<and> droppedIdx > batchStart a then
           (case salvageBatch (w_pool w) (batchStart a) (droppedIdx - 1) a out of
              (a, out) \<Rightarrow>
               (let a = a\<lparr>batchesForceFinalizedCorrupted := batchesForceFinalizedCorrupted a + 1\<rparr> in
                case completeBatch env droppedIdx a w of (a, w) \<Rightarrow> (a, w, out)))
         else (a, w, out))"

text \<open>One round of the streaming loop: whether it goes on, and the state.\<close>

type_synonym acc_state = "slotAccumulator \<times> world \<times> VersionedTransaction list"

definition advanceRound :: "environ \<Rightarrow> acc_state \<Rightarrow> bool \<times> acc_state" where
  "advanceRound env st =
     (case st of (a, w, out) \<Rightarrow>
       (case map_of (pending a) (streamingCursor a) of
          None \<Rightarrow> (False, a, w, out)
        | Some ps \<Rightarrow>
           (case source ps of
              RecoveredPayload _ \<Rightarrow> (False, a, w, out)
            | PoolPayload _ \<Rightarrow>
               (case pd_payload (w_pool w) ps of
                  None \<Rightarrow> (True, dropCorrupted env ps a w out)
                | Some payload \<Rightarrow>
                   (case Push (streamingDecoder a) payload of
                      (d, res) \<Rightarrow>
                       (let a = a\<lparr>streamingDecoder := d, streamingCursor := streamingCursor a + 1\<rparr> in
                        case res of
                          Inl _ \<Rightarrow>
                            (False, a\<lparr>decodeErrors := decodeErrors a + 1,
                                     streamingDecoder := Reset (streamingDecoder a)\<rparr>, w, out)
                        | Inr txs \<Rightarrow>
                           (case emitTxs txs a out of
                              (a, out, n) \<Rightarrow> (\<not> batchComplete ps, a, w, out))))))))"

definition advanceStreaming :: "environ \<Rightarrow> slotAccumulator \<Rightarrow> world
    \<Rightarrow> VersionedTransaction list \<Rightarrow> acc_state option" where
  "advanceStreaming env a w out = go_loop (\<lambda>st. Some (advanceRound env st)) (a, w, out)"

section \<open>Flushing\<close>

text \<open>
  The loop \<^verbatim>\<open>for i := start; i <= bcIdx; i++\<close>, whose index wraps around: it does not end when
  \<^verbatim>\<open>bcIdx\<close> is the largest 32-bit index.
\<close>

partial_function (option) gatherLoop :: "bufferPool \<Rightarrow> (u32 \<times> pendingShred) list \<Rightarrow> u32 \<Rightarrow> u32
    \<Rightarrow> byte list \<Rightarrow> byte list option" where
  "gatherLoop p pd i e scratch =
     (if i \<le> e then
        gatherLoop p pd (i + 1) e
          (scratch @ (case map_of pd i of None \<Rightarrow> [] | Some ps \<Rightarrow> payload_or_empty p ps))
      else Some scratch)"

definition flushHints :: "u32 \<Rightarrow> u32 \<Rightarrow> slotAccumulator \<Rightarrow> u32 list" where
  "flushHints start bcIdx a =
     map fst (filter (\<lambda>(f, fec). let nd = ucast (fb_numData fec) :: u32 in
                nd \<noteq> 0 \<and> f + nd > start \<and> f \<le> bcIdx) (fecSets a))"

definition fillForFlush :: "environ \<Rightarrow> u32 \<Rightarrow> u32 \<Rightarrow> slotAccumulator \<Rightarrow> world \<Rightarrow> slotAccumulator \<times> world" where
  "fillForFlush env start bcIdx a w =
     (case order32 env (flushHints start bcIdx a) w of (hints, w) \<Rightarrow> fillAll env hints a w)"

text \<open>One round of the flush loop.\<close>

definition flushRound :: "environ \<Rightarrow> acc_state \<Rightarrow> (bool \<times> acc_state) option" where
  "flushRound env st =
     (case st of (a, w, out) \<Rightarrow>
       (case smallestBatchCompleteIdxFrom (batchStart a) a of
          None \<Rightarrow> Some (False, a, w, out)
        | Some (bcIdx, firstSeen) \<Rightarrow>
           (let start = batchStart a; expected = unat (bcIdx - start) + 1 in
            case (if countPendingInRange a start bcIdx < expected
                  then fillForFlush env start bcIdx a w else (a, w)) of
              (a, w) \<Rightarrow>
               (if countPendingInRange a start bcIdx < expected then
                  (case time_now env w of
                     (t, w) \<Rightarrow>
                      (if t - firstSeen \<ge> StuckBatchTimeout (cfg a) then
                         (case salvageBatch (w_pool w) start bcIdx a out of
                            (a, out) \<Rightarrow>
                             (let a = a\<lparr>batchesForceFinalizedTimeout := batchesForceFinalizedTimeout a + 1\<rparr> in
                              case completeBatch env bcIdx a w of (a, w) \<Rightarrow> Some (True, a, w, out)))
                       else Some (False, a, w, out)))
                else
                  Option.bind (gatherLoop (w_pool w) (pending a) start bcIdx []) (\<lambda>scratch.
                    case decodeFlushed scratch a out of
                      (a, out) \<Rightarrow>
                        (case completeBatch env bcIdx a w of (a, w) \<Rightarrow> Some (True, a, w, out)))))))"

definition tryFlushBatches :: "environ \<Rightarrow> slotAccumulator \<Rightarrow> world
    \<Rightarrow> VersionedTransaction list \<Rightarrow> acc_state option" where
  "tryFlushBatches env a w out = go_loop (flushRound env) (a, w, out)"

section \<open>Receiving shreds\<close>

definition release_handle :: "BufferHandle option \<Rightarrow> world \<Rightarrow> world" where
  "release_handle h w = w\<lparr>w_pool := snd (Release h (w_pool w))\<rparr>"

definition pushData :: "environ \<Rightarrow> u32 \<Rightarrow> u32 \<Rightarrow> BufferHandle option \<Rightarrow> u16 \<Rightarrow> bool \<Rightarrow> bool \<Rightarrow> slotAccumulator
    \<Rightarrow> world \<Rightarrow> acc_state option" where
  "pushData env index fecSetIndex handle pEnd bComplete isLast a w =
     (if isLast then
        tryFlushBatches env (a\<lparr>slotComplete := True\<rparr>) (release_handle handle w) []
      else if index < batchStart a then Some (a, release_handle handle w, [])
      else if map_of (pending a) index \<noteq> None then Some (a, release_handle handle w, [])
      else
        (let a = a\<lparr>pending := AList.update index
                 \<lparr>source = PoolPayload handle, payloadEnd = pEnd, batchComplete = bComplete,
                  pd_fecSetIndex = fecSetIndex\<rparr> (pending a)\<rparr> in
         case (if bComplete \<and> map_of (batchCompleteIdx a) index = None then
                 (case time_now env w of (t, w) \<Rightarrow>
                    (a\<lparr>batchCompleteIdx := AList.update index t (batchCompleteIdx a)\<rparr>, w))
               else (a, w)) of
           (a, w) \<Rightarrow>
            Option.bind (advanceStreaming env a w []) (\<lambda>(a, w, out).
            Option.bind
              (if streamingCursor a \<le> index then
                 (case tryFecFill env fecSetIndex a w of
                    (filled, a, w) \<Rightarrow> if filled then advanceStreaming env a w out else Some (a, w, out))
               else Some (a, w, out))
              (\<lambda>(a, w, out). tryFlushBatches env a w out))))"

definition pushCode :: "environ \<Rightarrow> u32 \<Rightarrow> u16 \<Rightarrow> u16 \<Rightarrow> u16 \<Rightarrow> byte list \<Rightarrow> VariantKind \<Rightarrow> slotAccumulator
    \<Rightarrow> world \<Rightarrow> acc_state option" where
  "pushCode env fecSetIndex numData numCoding position coded variant a w =
     (let a = (if int (length (fecSets a)) \<ge> MaxFECSetsPerSlot (cfg a) \<and> map_of (fecSets a) fecSetIndex = None
               then (case smallestFecSetKey a of
                       None \<Rightarrow> a
                     | Some oldest \<Rightarrow>
                        (if oldest < fecSetIndex
                         then a\<lparr>fecSets := AList.delete oldest (fecSets a),
                                fecSetsEvictedEarly := fecSetsEvictedEarly a + 1\<rparr>
                         else a))
               else a);
          entry = (case map_of (fecSets a) fecSetIndex of None \<Rightarrow> newFecSetBuffer fecSetIndex | Some f \<Rightarrow> f);
          a = a\<lparr>fecSets := AList.update fecSetIndex
                 (recordCode position numData numCoding coded variant entry) (fecSets a)\<rparr>
      in case tryFecFill env fecSetIndex a w of
           (filled, a, w) \<Rightarrow>
             Option.bind (if filled then advanceStreaming env a w [] else Some (a, w, []))
               (\<lambda>(a, w, out). tryFlushBatches env a w out))"

section \<open>Harvest and release\<close>

definition contiguousRange :: "slotAccumulator \<Rightarrow> u32 \<Rightarrow> u32 \<Rightarrow> bool" where
  "contiguousRange a s e \<longleftrightarrow> list_all (\<lambda>i. map_of (pending a) i \<noteq> None) (range32 s e)"

fun harvestBoundaries :: "environ \<Rightarrow> u32 list \<Rightarrow> slotAccumulator \<Rightarrow> world \<Rightarrow> VersionedTransaction list
    \<Rightarrow> acc_state option" where
  "harvestBoundaries env [] a w out = Some (a, w, out)"
| "harvestBoundaries env (bcIdx # bs) a w out =
     (let start = batchStart a in
      if bcIdx < start then harvestBoundaries env bs a w out
      else
        Option.bind
          (if contiguousRange a start bcIdx then
             Option.bind (gatherLoop (w_pool w) (pending a) start bcIdx []) (\<lambda>scratch.
               Some (decodeFlushed scratch a out))
           else Some (salvageBatch (w_pool w) start bcIdx a out))
          (\<lambda>(a, out). case completeBatch env bcIdx a w of (a, w) \<Rightarrow> harvestBoundaries env bs a w out))"

text \<open>The inner loop over the sorted pending indices: one run of consecutive indices.\<close>

fun takeRun :: "bufferPool \<Rightarrow> (u32 \<times> pendingShred) list \<Rightarrow> u32 \<Rightarrow> u32 list \<Rightarrow> byte list
    \<Rightarrow> u32 list \<times> byte list" where
  "takeRun p pd expected [] scratch = ([], scratch)"
| "takeRun p pd expected (i # is) scratch =
     (if i = expected
      then takeRun p pd (i + 1) is
             (scratch @ (case map_of pd i of None \<Rightarrow> [] | Some ps \<Rightarrow> payload_or_empty p ps))
      else (i # is, scratch))"

lemma length_takeRun: "length (fst (takeRun p pd x is s)) \<le> length is"
  by (induction p pd x "is" s rule: takeRun.induct) (auto intro: le_SucI)

function tailRuns :: "bufferPool \<Rightarrow> u32 list \<Rightarrow> slotAccumulator \<Rightarrow> VersionedTransaction list
    \<Rightarrow> slotAccumulator \<times> VersionedTransaction list" where
  "tailRuns p [] a out = (a, out)"
| "tailRuns p (i # is) a out =
     (case takeRun p (pending a) (i + 1) is
             (case map_of (pending a) i of None \<Rightarrow> [] | Some ps \<Rightarrow> payload_or_empty p ps) of
        (rest, scratch) \<Rightarrow>
          (case (if scratch \<noteq> [] then emitTxs (DecodeConcatenated scratch) a out else (a, out, 0)) of
             (a, out, n) \<Rightarrow> tailRuns p rest a out))"
  by pat_completeness auto
termination
proof (relation "measure (\<lambda>(p, is, a, out). length is)", goal_cases)
  case (2 p i "is" a out rest t)
  let ?s = "case map_of (pending a) i of None \<Rightarrow> [] | Some ps \<Rightarrow> payload_or_empty p ps"
  from 2(1) have "rest = fst (takeRun p (pending a) (i + 1) is ?s)" by (metis fst_conv)
  then show ?case using length_takeRun [of p "pending a" "i + 1" "is" ?s] by simp
qed simp

definition tryHarvestTail :: "environ \<Rightarrow> slotAccumulator \<Rightarrow> world
    \<Rightarrow> acc_state option" where
  "tryHarvestTail env a w =
     (case order32 env (map fst (fecSets a)) w of
        (hints, w) \<Rightarrow>
         (case fillAll env hints a w of
            (a, w) \<Rightarrow>
             (let boundaries = sort (map fst (filter (\<lambda>(idx, ps). batchComplete ps \<and> idx \<ge> batchStart a)
                                 (pending a))) in
              Option.bind (harvestBoundaries env boundaries a w []) (\<lambda>(a, w, out).
                case tailRuns (w_pool w) (sort (map fst (pending a))) a out of
                  (a, out) \<Rightarrow>
                   (let a = a\<lparr>fecSetsDiscardedUnused := fecSetsDiscardedUnused a + of_nat (length (fecSets a)),
                              salvagedTailTx := salvagedTailTx a + of_nat (length out)\<rparr> in
                    Some (a, w, if ac_disableSalvageDelivery a then [] else out))))))"

definition acc_release :: "environ \<Rightarrow> slotAccumulator \<Rightarrow> world \<Rightarrow> slotAccumulator \<times> world" where
  "acc_release env a w =
     (a\<lparr>pending := [], fecSets := [], batchCompleteIdx := []\<rparr>, release_where env (\<lambda>_. True) a w)"

end
