(* ===== verification/Accumulator_Inv.thy ===== *)
theory Accumulator_Inv
  imports Accumulator
begin

text \<open>
  Invariants of the slot accumulator: the consistency of its maps, the ownership of pool buffers
  by its pending shreds, and that every operation that returns keeps both. The ownership proofs
  rest on the contract of the pool (\<open>resource_pool\<close>).
\<close>

declare map_of_eq_Some_iff [simp del] Some_eq_map_of_iff [simp del]

section \<open>Buffers held by pending shreds\<close>

definition fair_env :: "environ \<Rightarrow> bool" where
  "fair_env env \<longleftrightarrow> (\<forall>n ks. mset (mapOrder env n ks) = mset ks) \<and>
     (\<forall>n ks. mset (slotOrder env n ks) = mset ks)"

fun src_held :: "payloadSource \<Rightarrow> u16 multiset" where
  "src_held (PoolPayload (Some h)) = (if attached h then {#h_idx h#} else {#})"
| "src_held _ = {#}"

definition held :: "(u32 \<times> pendingShred) list \<Rightarrow> u16 multiset" where
  "held pd = (\<Sum>e\<in>#mset pd. src_held (source (snd e)))"

lemma held_simps [simp]:
  "held [] = {#}" "held ((k, ps) # pd) = src_held (source ps) + held pd"
  by (simp_all add: held_def)

lemma held_update_new: "k \<notin> fst ` set pd \<Longrightarrow> held (AList.update k ps pd) = src_held (source ps) + held pd"
  by (induction pd) (auto simp: add.left_commute)

lemma held_filter_split: "held pd = held (filter P pd) + held (filter (\<lambda>e. \<not> P e) pd)"
  by (induction pd) (auto simp: ac_simps)

lemma held_delete:
  assumes "distinct (map fst pd)" and "map_of pd k = Some ps"
  shows "held pd = src_held (source ps) + held (AList.delete k pd)"
  using assms
proof (induction pd)
  case (Cons e pd)
  obtain j q where e: "e = (j, q)" by fastforce
  show ?case
  proof (cases "j = k")
    case True
    then have "k \<notin> fst ` set pd" using Cons.prems e by auto
    then have "AList.delete k pd = pd" by simp
    then show ?thesis using Cons.prems True e by simp
  next
    case False
    then show ?thesis using Cons e by (simp add: ac_simps)
  qed
qed simp

lemma src_release_ok:
  "pool_ok (src_held s + R) p \<Longrightarrow> pool_ok R (snd (src_release s p))"
  by (cases s rule: src_held.cases) (auto simp: Release_def bp.give_ok split: if_splits)

lemma buffers_src_release [simp]: "buffers (snd (src_release s p)) = buffers p"
  by (cases s rule: src_held.cases) (auto simp: Release_def pool_release_def)

section \<open>Releasing pending shreds\<close>

definition share :: "(u32 \<times> pendingShred) list \<Rightarrow> (u32 \<Rightarrow> bool) \<Rightarrow> u32 \<Rightarrow> u16 multiset" where
  "share pd P k = (case map_of pd k of None \<Rightarrow> {#} | Some ps \<Rightarrow> if P k then src_held (source ps) else {#})"

lemma release_step_ok:
  "pool_ok (share pd P k + R) p \<Longrightarrow> pool_ok R (release_step pd P k p)"
  by (auto simp: share_def release_step_def src_release_ok split: option.splits if_splits)

lemma release_fold_ok:
  "pool_ok ((\<Sum>k\<in>#mset ks. share pd P k) + R) p \<Longrightarrow> pool_ok R (fold (release_step pd P) ks p)"
proof (induction ks arbitrary: p)
  case (Cons k ks)
  have "pool_ok (share pd P k + ((\<Sum>k\<in>#mset ks. share pd P k) + R)) p"
    using Cons.prems by (simp add: add.assoc)
  from Cons.IH [OF release_step_ok [OF this]] show ?case by simp
qed simp

lemma share_sum:
  assumes "distinct (map fst pd)"
  shows "(\<Sum>k\<in>#mset (map fst pd). share pd P k) = held (filter (\<lambda>(k, _). P k) pd)"
  using assms
proof (induction pd)
  case (Cons e pd)
  obtain j q where e: "e = (j, q)" by fastforce
  have "share (e # pd) P k = share pd P k" if "k \<in># mset (map fst pd)" for k
    using that Cons.prems e by (auto simp: share_def)
  then have "(\<Sum>k\<in>#mset (map fst pd). share (e # pd) P k) = (\<Sum>k\<in>#mset (map fst pd). share pd P k)"
    by (intro arg_cong [where f = sum_mset] image_mset_cong) simp
  then show ?case using Cons e by (simp add: share_def)
qed simp

lemma release_where_ok:
  assumes "fair_env env" and "distinct (map fst (pending a))"
    and "pool_ok (held (pending a) + H) (w_pool w)"
  shows "pool_ok (held (filter (\<lambda>(k, _). \<not> P k) (pending a)) + H) (w_pool (release_where env P a w))"
proof -
  let ?pd = "pending a" and ?ks = "mapOrder env (w_ticks w) (map fst (pending a))"
  have "mset ?ks = mset (map fst ?pd)" using assms(1) by (simp add: fair_env_def)
  then have "(\<Sum>k\<in>#mset ?ks. share ?pd P k) = held (filter (\<lambda>(k, _). P k) ?pd)"
    using share_sum [OF assms(2)] by simp
  moreover have "held ?pd = held (filter (\<lambda>(k, _). P k) ?pd) + held (filter (\<lambda>(k, _). \<not> P k) ?pd)"
    using held_filter_split [of ?pd "\<lambda>(k, _). P k"] by (simp add: case_prod_beta')
  ultimately have "pool_ok ((\<Sum>k\<in>#mset ?ks. share ?pd P k)
      + (held (filter (\<lambda>(k, _). \<not> P k) ?pd) + H)) (w_pool w)"
    using assms(3) by (simp add: add.assoc)
  from release_fold_ok [OF this] show ?thesis by (simp add: release_where_def order32_def)
qed

lemma release_where_cache [simp]: "w_cache (release_where env P a w) = w_cache w"
  by (simp add: release_where_def order32_def)

section \<open>The invariant\<close>

text \<open>
  Keys are distinct, nothing before the current batch is kept, and the recorded batch ends are
  exactly the pending shreds that carry the batch-complete flag.
\<close>

definition acc_ok :: "slotAccumulator \<Rightarrow> bool" where
  "acc_ok a \<longleftrightarrow>
     distinct (map fst (pending a)) \<and> distinct (map fst (fecSets a)) \<and>
     distinct (map fst (batchCompleteIdx a)) \<and>
     (\<forall>k ps. map_of (pending a) k = Some ps \<longrightarrow> batchStart a \<le> k) \<and>
     (\<forall>k. map_of (batchCompleteIdx a) k \<noteq> None \<longleftrightarrow>
        (\<exists>ps. map_of (pending a) k = Some ps \<and> batchComplete ps))"

definition good :: "u16 multiset \<Rightarrow> slotAccumulator \<Rightarrow> world \<Rightarrow> bool" where
  "good H a w \<longleftrightarrow> acc_ok a \<and> pool_ok (held (pending a) + H) (w_pool w) \<and> cache_ok (w_cache w)"

text \<open>The fields the invariant depends on.\<close>

definition core :: "slotAccumulator \<Rightarrow>
    (u32 \<times> pendingShred) list \<times> (u32 \<times> fecSetBuffer) list \<times> (u32 \<times> int) list \<times> u32" where
  "core a = (pending a, fecSets a, batchCompleteIdx a, batchStart a)"

lemma acc_ok_core: "core a = core b \<Longrightarrow> acc_ok a = acc_ok b"
  by (simp add: acc_ok_def core_def)

lemma good_core: "core a = core b \<Longrightarrow> good H a w = good H b w"
  using acc_ok_core [of a b] by (simp add: good_def core_def)

lemma good_newSlotAccumulator:
  "good H (newSlotAccumulator c) w \<longleftrightarrow> pool_ok H (w_pool w) \<and> cache_ok (w_cache w)"
  by (simp add: good_def acc_ok_def newSlotAccumulator_def)

section \<open>Output and statistics\<close>

lemma yieldedSigs_self: "\<exists>ys. a = a\<lparr>yieldedSigs := ys\<rparr>"
  by (rule exI [of _ "yieldedSigs a"]) simp

lemma recordSig_only: "recordSig tx a = (new, c) \<Longrightarrow> \<exists>ys. c = a\<lparr>yieldedSigs := ys\<rparr>"
  by (auto simp: recordSig_def yieldedSigs_self split: list.splits if_splits)

lemma emitTxs_only: "emitTxs txs a out = (b, out', n) \<Longrightarrow> \<exists>ys. b = a\<lparr>yieldedSigs := ys\<rparr>"
proof (induction txs arbitrary: a out b out' n)
  case Nil
  then show ?case using yieldedSigs_self by simp
next
  case (Cons tx txs)
  obtain new c where r: "recordSig tx a = (new, c)" by fastforce
  then obtain ys where c: "c = a\<lparr>yieldedSigs := ys\<rparr>" using recordSig_only by blast
  obtain out1 k where "emitTxs txs c out1 = (b, out', k)"
    using Cons.prems r by (cases new) (auto split: prod.splits)
  from Cons.IH [OF this] c show ?case by auto
qed

lemma emitTxs_core: "emitTxs txs a out = (b, out', n) \<Longrightarrow> core b = core a"
  by (auto simp: core_def dest!: emitTxs_only)

lemma salvageLoop_core: "salvageLoop p c e a out n = (b, out', m) \<Longrightarrow> core b = core a"
proof (induction p c e a out n arbitrary: b out' m rule: salvageLoop.induct)
  case (1 p c e a out n)
  show ?case
  proof (cases "c \<le> e \<and> (\<exists>c1. skipMissing (pending a) c e = Some c1 \<and> \<not> e < c1)")
    case False
    then show ?thesis
      using "1.prems" by (subst (asm) salvageLoop.simps) (auto split: if_splits option.splits)
  next
    case True
    then obtain c1 where c1: "skipMissing (pending a) c e = Some c1" "\<not> e < c1" and le: "c \<le> e" by blast
    obtain c2 rd s where run: "collectRun p (pending a) c1 e [] = (c2, rd, s)" by (metis prod_cases3)
    obtain a1 out1 k where em:
      "(if s \<noteq> [] then emitTxs (DecodeConcatenated s) a out else (a, out, 0)) = (a1, out1, k)"
      by (metis prod_cases3)
    then have core1: "core a1 = core a" by (auto dest: emitTxs_core split: if_splits)
    have step: "salvageLoop p c e a out n =
        (if rd then (a1, out1, n + k) else salvageLoop p c2 e a1 out1 (n + k))"
      using c1 le run em by (subst salvageLoop.simps) simp
    show ?thesis
    proof (cases rd)
      case True
      then show ?thesis using "1.prems" step core1 by simp
    next
      case False
      have "core b = core a1"
        by (rule "1.IH" [OF le c1(1,2) run [symmetric] refl em [symmetric] refl False])
          (use "1.prems" step False in simp)
      then show ?thesis using core1 by simp
    qed
  qed
qed

lemma salvageBatch_core: "salvageBatch p s e a out = (b, out') \<Longrightarrow> core b = core a"
  by (auto simp: salvageBatch_def salvageContiguousRunsIn_def core_def
      dest!: salvageLoop_core split: prod.splits if_splits)

lemma decodeFlushed_core: "decodeFlushed s a out = (b, out') \<Longrightarrow> core b = core a"
  by (auto simp: decodeFlushed_def core_def dest!: emitTxs_core split: sum.splits prod.splits if_splits)

lemma tailRuns_core: "tailRuns p is a out = (b, out') \<Longrightarrow> core b = core a"
proof (induction p "is" a out arbitrary: b out' rule: tailRuns.induct)
  case (2 p i "is" a out)
  obtain rest s where tr: "takeRun p (pending a) (i + 1) is
      (case map_of (pending a) i of None \<Rightarrow> [] | Some ps \<Rightarrow> payload_or_empty p ps) = (rest, s)" by fastforce
  obtain a1 out1 k where em:
    "(if s \<noteq> [] then emitTxs (DecodeConcatenated s) a out else (a, out, 0)) = (a1, out1, k)"
    by (metis prod_cases3)
  then have "core a1 = core a" by (auto dest: emitTxs_core split: if_splits)
  moreover have "tailRuns p rest a1 out1 = (b, out')" using "2.prems" tr em by simp
  ultimately show ?case using "2.IH" [OF tr [symmetric] em [symmetric] refl] by simp
qed simp

section \<open>Completing a batch\<close>

lemma map_of_filter_key: "map_of (filter (\<lambda>(k, _). P k) xs) k = (if P k then map_of xs k else None)"
  by (induction xs) auto

lemma distinct_filter_keys: "distinct (map fst xs) \<Longrightarrow> distinct (map fst (filter Q xs))"
  by (induction xs) auto

lemma completeBatch_fields:
  assumes "completeBatch env bcIdx a w = (b, v)"
  shows "pending b = filter (\<lambda>(k, _). \<not> k < saturatingAddU32 bcIdx 1) (pending a)"
    "batchCompleteIdx b = filter (\<lambda>(k, _). \<not> k < saturatingAddU32 bcIdx 1) (batchCompleteIdx a)"
    "batchStart b = saturatingAddU32 bcIdx 1" "cfg b = cfg a"
    "fecSets b = filter (\<lambda>(setIdx, fec). let nd = ucast (fb_numData fec) :: u32 in
        \<not> (nd > 0 \<and> setIdx + nd \<le> saturatingAddU32 bcIdx 1)) (fecSets a)"
    "v = release_where env (\<lambda>k. k < saturatingAddU32 bcIdx 1) a w"
    "slotComplete b = slotComplete a"
  using assms [symmetric] by (simp_all add: completeBatch_def Let_def)

lemma completeBatch_good:
  assumes "fair_env env" and "good H a w" and "completeBatch env bcIdx a w = (b, v)"
  shows "good H b v"
proof -
  note f = completeBatch_fields [OF assms(3)]
  have ok: "acc_ok a" using assms(2) by (simp add: good_def)
  have "acc_ok b"
    using ok unfolding acc_ok_def f map_of_filter_key by (auto simp: distinct_filter_keys not_less)
  moreover have "pool_ok (held (pending b) + H) (w_pool v)"
    using release_where_ok [OF assms(1)] ok assms(2) unfolding f good_def by (simp add: acc_ok_def)
  ultimately show ?thesis using assms(2) by (simp add: good_def f)
qed

section \<open>FEC fill\<close>

text \<open>Adding a shred at a free index at or after the batch start, with its batch-complete mark.\<close>

lemma acc_ok_add:
  assumes "acc_ok a" and "map_of (pending a) i = None" and "batchStart a \<le> i"
    and "pending b = AList.update i ps (pending a)" and "fecSets b = fecSets a"
    and "batchStart b = batchStart a"
    and "batchCompleteIdx b = (if batchComplete ps then AList.update i t (batchCompleteIdx a)
           else batchCompleteIdx a)"
  shows "acc_ok b"
proof -
  show ?thesis
    using assms unfolding acc_ok_def
    by (auto simp: distinct_update update_conv' split: if_splits)
qed

lemma acc_ok_free: "acc_ok a \<Longrightarrow> map_of (pending a) i = None \<Longrightarrow> map_of (batchCompleteIdx a) i = None"
  unfolding acc_ok_def by (metis option.distinct(1) option.exhaust)

lemma good_add:
  assumes "good (src_held (source ps) + H) a w" and "map_of (pending a) i = None" and "batchStart a \<le> i"
    and "pending b = AList.update i ps (pending a)" and "fecSets b = fecSets a"
    and "batchStart b = batchStart a"
    and "batchCompleteIdx b = (if batchComplete ps then AList.update i t (batchCompleteIdx a)
           else batchCompleteIdx a)"
  shows "good H b w"
proof -
  have "acc_ok b" using acc_ok_add [OF _ assms(2-7)] assms(1) by (simp add: good_def)
  moreover have "held (pending b) = src_held (source ps) + held (pending a)"
    unfolding assms(4) by (rule held_update_new) (use assms(2) in \<open>simp add: map_of_eq_None_iff\<close>)
  ultimately show ?thesis using assms(1) by (simp add: good_def ac_simps)
qed

lemma good_ticks [simp]: "good H a (w\<lparr>w_ticks := n\<rparr>) = good H a w"
  by (simp add: good_def)

lemma recover_step_good:
  assumes "good H a w" and "recover_step env setIdx r (a, w, anyRec) = (b, v, anyRec')"
  shows "good H b v"
proof -
  let ?i = "setIdx + ucast (dr_pos r)"
  show ?thesis
  proof (cases "?i < batchStart a \<or> map_of (pending a) ?i \<noteq> None")
    case True
    then show ?thesis using assms by (auto simp: recover_step_def Let_def split: if_splits)
  next
    case free: False
    then have none: "map_of (batchCompleteIdx a) ?i = None"
      using acc_ok_free assms(1) by (simp add: good_def)
    show ?thesis
    proof (cases "\<exists>d. ParseKind (dr_raw r) = Inr (DataKind d) \<and> \<not> ds_LastInSlot d")
      case False
      then show ?thesis
        using assms free good_core [of "a\<lparr>slotComplete := True\<rparr>" a H w]
        by (auto simp: recover_step_def Let_def core_def split: sum.splits ShredKind.splits if_splits)
    next
      case True
      then obtain d where d: "ParseKind (dr_raw r) = Inr (DataKind d)" "\<not> ds_LastInSlot d" by blast
      let ?ps = "\<lparr>source = RecoveredPayload (dr_raw r),
        payloadEnd = of_nat (DataHeaderSize + length (ds_Payload d)),
        batchComplete = ds_BatchComplete d, pd_fecSetIndex = setIdx\<rparr>"
      have b: "pending b = AList.update ?i ?ps (pending a)" "fecSets b = fecSets a"
        "batchStart b = batchStart a"
        "batchCompleteIdx b = (if batchComplete ?ps then AList.update ?i (clock env (w_ticks w)) (batchCompleteIdx a)
           else batchCompleteIdx a)"
        and v: "\<exists>n. v = w\<lparr>w_ticks := n\<rparr>"
        using assms(2) free d none
        by (auto simp: recover_step_def Let_def time_now_def split: if_splits) (metis world.surjective world.update_convs(3))
      have "good H b w"
        by (rule good_add [OF _ _ _ b]) (use assms(1) free in \<open>simp_all add: not_less\<close>)
      then show ?thesis using v by auto
    qed
  qed
qed

lemma recover_fold_good:
  "good H a w \<Longrightarrow> fold (recover_step env setIdx) rs (a, w, anyRec) = (b, v, anyRec') \<Longrightarrow> good H b v"
proof (induction rs arbitrary: a w anyRec)
  case (Cons r rs)
  obtain a1 w1 any1 where s: "recover_step env setIdx r (a, w, anyRec) = (a1, w1, any1)"
    by (metis prod_cases3)
  from Cons.IH [OF recover_step_good [OF Cons.prems(1) s]] Cons.prems(2) s show ?case by simp
qed simp

lemma good_fec_delete:
  "good H a w \<Longrightarrow> pending b = pending a \<Longrightarrow> batchCompleteIdx b = batchCompleteIdx a \<Longrightarrow>
   batchStart b = batchStart a \<Longrightarrow> distinct (map fst (fecSets b)) \<Longrightarrow> good H b w"
  by (simp add: good_def acc_ok_def)

lemma tryFecFill_good:
  assumes "good H a w" and "tryFecFill env hint a w = (filled, b, v)"
  shows "good H b v"
proof (cases "\<exists>setIdx fec. selectRecoverableSet hint a = Some setIdx \<and> map_of (fecSets a) setIdx = Some fec
    \<and> fb_numData fec \<noteq> 0")
  case False
  then show ?thesis using assms by (auto simp: tryFecFill_def split: option.splits if_splits)
next
  case True
  then obtain setIdx fec where sel: "selectRecoverableSet hint a = Some setIdx"
    "map_of (fecSets a) setIdx = Some fec" "fb_numData fec \<noteq> 0" by blast
  obtain res cache where rec:
    "tryReconstruct fec (fec_refs (w_pool w) a setIdx (fb_numData fec)) (w_cache w) = (res, cache)"
    by fastforce
  have "cache_ok cache"
    using tryReconstruct_cache [of "w_cache w" fec "fec_refs (w_pool w) a setIdx (fb_numData fec)"] rec assms(1)
    by (simp add: good_def)
  then have w1: "good H a (w\<lparr>w_cache := cache\<rparr>)" using assms(1) by (simp add: good_def)
  show ?thesis
  proof (cases res)
    case (Inl e)
    then have "b = a\<lparr>recoveryFailures := recoveryFailures a + 1\<rparr>" "v = w\<lparr>w_cache := cache\<rparr>"
      using assms(2) sel rec by (auto simp: tryFecFill_def Let_def)
    then show ?thesis using w1 good_core [of b a H v] by (simp add: core_def)
  next
    case (Inr recovered)
    obtain a1 v1 any1 where f: "fold (recover_step env setIdx) recovered (a, w\<lparr>w_cache := cache\<rparr>, False) = (a1, v1, any1)"
      by (metis prod_cases3)
    have g1: "good H a1 v1" by (rule recover_fold_good [OF w1 f])
    then have g2: "good H (a1\<lparr>recoveriesDone := recoveriesDone a1 + 1,
        fecSets := AList.delete setIdx (fecSets a1)\<rparr>) v1"
      by (rule good_fec_delete) (use g1 in \<open>auto simp: good_def acc_ok_def intro: distinct_delete\<close>)
    show ?thesis
      using assms(2) sel rec Inr f g1 g2 w1 by (auto simp: tryFecFill_def Let_def split: if_splits)
  qed
qed

lemma fillAll_good: "good H a w \<Longrightarrow> fillAll env hints a w = (b, v) \<Longrightarrow> good H b v"
proof (induction hints arbitrary: a w)
  case (Cons h hints)
  obtain f a1 w1 where s: "tryFecFill env h a w = (f, a1, w1)" by (metis prod_cases3)
  from Cons.IH [OF tryFecFill_good [OF Cons.prems(1) s]] Cons.prems(2) s
  show ?case by (simp add: fillAll_def)
qed (simp add: fillAll_def)

section \<open>Streaming and flushing\<close>

lemma good_drop:
  assumes "good H a w" and "map_of (pending a) i = Some ps"
    and "pending b = AList.delete i (pending a)" and "fecSets b = fecSets a" and "batchStart b = batchStart a"
    and "batchCompleteIdx b = (if batchComplete ps then AList.delete i (batchCompleteIdx a)
           else batchCompleteIdx a)"
    and "w_pool v = snd (src_release (source ps) (w_pool w))" and "w_cache v = w_cache w"
  shows "good H b v"
proof -
  have "acc_ok a" and dist: "distinct (map fst (pending a))" using assms(1) by (simp_all add: good_def acc_ok_def)
  then have "acc_ok b"
    using assms(2-6) unfolding acc_ok_def
    by (auto simp: distinct_delete delete_conv' split: if_splits)
  moreover have "pool_ok (src_held (source ps) + (held (pending b) + H)) (w_pool w)"
    using assms(1,3) held_delete [OF dist assms(2)] by (simp add: good_def add.assoc)
  ultimately show ?thesis using assms(1,7,8) src_release_ok by (simp add: good_def)
qed

lemma dropCorrupted_good:
  assumes "fair_env env" and "good H a w" and "map_of (pending a) (streamingCursor a) = Some ps"
    and "dropCorrupted env ps a w out = (b, v, out')"
  shows "good H b v"
proof -
  let ?i = "streamingCursor a"
  define w1 where "w1 = w\<lparr>w_pool := snd (src_release (source ps) (w_pool w))\<rparr>"
  define a1 where "a1 = (let a = a\<lparr>pending := AList.delete ?i (pending a)\<rparr>;
      a = (if batchComplete ps then a\<lparr>batchCompleteIdx := AList.delete ?i (batchCompleteIdx a)\<rparr> else a)
      in a\<lparr>streamingCursor := streamingCursor a + 1, decodeErrors := decodeErrors a + 1\<rparr>)"
  have g1: "good H a1 w1"
    by (rule good_drop [OF assms(2,3)]) (auto simp: a1_def w1_def Let_def)
  show ?thesis
  proof (cases "batchComplete ps \<and> ?i > batchStart a1")
    case False
    then have "b = a1" "v = w1"
      using assms(4) by (auto simp: dropCorrupted_def a1_def w1_def Let_def split: if_splits)
    then show ?thesis using g1 by simp
  next
    case True
    obtain a2 out2 where s: "salvageBatch (w_pool w1) (batchStart a1) (?i - 1) a1 out = (a2, out2)" by fastforce
    let ?a3 = "a2\<lparr>batchesForceFinalizedCorrupted := batchesForceFinalizedCorrupted a2 + 1\<rparr>"
    have "completeBatch env ?i ?a3 w1 = (b, v)"
      using assms(4) True s by (auto simp: dropCorrupted_def a1_def w1_def Let_def split: prod.splits)
    moreover have "good H ?a3 w1"
      using g1 good_core [of ?a3 a1 H w1] salvageBatch_core [OF s] by (simp add: core_def)
    ultimately show ?thesis using completeBatch_good [OF assms(1)] by blast
  qed
qed

text \<open>The invariant of the loops, on their state.\<close>

abbreviation good_state :: "u16 multiset \<Rightarrow> acc_state \<Rightarrow> bool" where
  "good_state H st \<equiv> (case st of (a, w, out) \<Rightarrow> good H a w)"

lemma good_stats [simp]:
  "good H (a\<lparr>streamingDecoder := d\<rparr>) w = good H a w"
  "good H (a\<lparr>streamingCursor := c\<rparr>) w = good H a w"
  "good H (a\<lparr>decodeErrors := n\<rparr>) w = good H a w"
  "good H (a\<lparr>batchesForceFinalizedTimeout := m\<rparr>) w = good H a w"
  "good H (a\<lparr>slotComplete := s\<rparr>) w = good H a w"
  "good H (a\<lparr>salvagedTailTx := m\<rparr>) w = good H a w"
  "good H (a\<lparr>fecSetsDiscardedUnused := m\<rparr>) w = good H a w"
  by (rule good_core, simp add: core_def)+

lemma advanceRound_good:
  assumes "fair_env env" and "good_state H st" and "advanceRound env st = (again, st')"
  shows "good_state H st'"
proof -
  obtain a w out where st: "st = (a, w, out)" by (metis prod_cases3)
  with assms(2) have g: "good H a w" by simp
  show ?thesis
  proof (cases "\<exists>ps h. map_of (pending a) (streamingCursor a) = Some ps \<and> source ps = PoolPayload h")
    case False
    then show ?thesis
      using assms(3) g st by (auto simp: advanceRound_def split: option.splits payloadSource.splits)
  next
    case True
    then obtain ps h where ps: "map_of (pending a) (streamingCursor a) = Some ps" "source ps = PoolPayload h"
      by blast
    show ?thesis
    proof (cases "pd_payload (w_pool w) ps")
      case None
      then have "st' = dropCorrupted env ps a w out" using assms(3) st ps by (simp add: advanceRound_def)
      then show ?thesis
        using dropCorrupted_good [OF assms(1) g ps(1)] by (cases st') (metis case_prodI)
    next
      case (Some pl)
      then show ?thesis
        using assms(3) st ps g
        by (auto simp: advanceRound_def Let_def good_core [OF emitTxs_core]
            split: prod.splits sum.splits)
    qed
  qed
qed

lemma advanceStreaming_good:
  assumes "fair_env env" and "good H a w" and "advanceStreaming env a w out = Some (b, v, out')"
  shows "good H b v"
proof -
  have "good_state H (b, v, out')"
    using go_loop_invariant [where I = "good_state H", OF assms(3) [unfolded advanceStreaming_def]]
      assms(2) advanceRound_good [OF assms(1)] by (metis case_prodI option.inject)
  then show ?thesis by simp
qed

lemma fillForFlush_good:
  "good H a w \<Longrightarrow> fillForFlush env s e a w = (b, v) \<Longrightarrow> good H b v"
  by (auto simp: fillForFlush_def order32_def intro: fillAll_good [of H a "w\<lparr>w_ticks := Suc (w_ticks w)\<rparr>"])

lemma flushRound_good:
  assumes "fair_env env" and "good_state H st" and "flushRound env st = Some (again, st')"
  shows "good_state H st'"
proof -
  obtain a w out where st: "st = (a, w, out)" by (metis prod_cases3)
  with assms(2) have g: "good H a w" by simp
  show ?thesis
  proof (cases "smallestBatchCompleteIdxFrom (batchStart a) a")
    case None
    then show ?thesis using assms(3) st g by (auto simp: flushRound_def)
  next
    case (Some bt)
    obtain bcIdx t0 where bt: "bt = (bcIdx, t0)" by fastforce
    let ?start = "batchStart a" and ?ex = "unat (bcIdx - batchStart a) + 1"
    obtain a1 w1 where fill: "(if countPendingInRange a ?start bcIdx < ?ex
        then fillForFlush env ?start bcIdx a w else (a, w)) = (a1, w1)" by fastforce
    have g1: "good H a1 w1" using fill g fillForFlush_good by (auto split: if_splits)
    obtain a2 out2 where sal: "salvageBatch (w_pool w1) ?start bcIdx a1 out = (a2, out2)" by fastforce
    have g2: "good H a2 w1" using g1 good_core [OF salvageBatch_core [OF sal]] by simp
    show ?thesis
    proof (cases "countPendingInRange a1 ?start bcIdx < ?ex")
      case True
      have "good H (a2\<lparr>batchesForceFinalizedTimeout := batchesForceFinalizedTimeout a2 + 1\<rparr>)
          (w1\<lparr>w_ticks := Suc (w_ticks w1)\<rparr>)" using g2 by simp
      from True completeBatch_good [OF assms(1) this, of bcIdx] show ?thesis
        using assms(3) st Some bt fill g1 sal
        by (auto simp: flushRound_def Let_def time_now_def split: if_splits prod.splits)
    next
      case False
      then obtain scratch where
        ga: "gatherLoop (w_pool w1) (pending a1) ?start bcIdx [] = Some scratch"
        using assms(3) st Some bt fill by (auto simp: flushRound_def Let_def bind_eq_Some_conv)
      obtain a3 out3 where dec: "decodeFlushed scratch a1 out = (a3, out3)" by fastforce
      have fin: "Some (again, st') = (case completeBatch env bcIdx a3 w1 of (a, w) \<Rightarrow> Some (True, a, w, out3))"
        using assms(3) st Some bt fill False ga dec by (simp add: flushRound_def Let_def)
      have "good H a3 w1" using g1 good_core [OF decodeFlushed_core [OF dec]] by simp
      then show ?thesis using fin completeBatch_good [OF assms(1)] by (auto split: prod.splits)
    qed
  qed
qed

lemma tryFlushBatches_good:
  assumes "fair_env env" and "good H a w" and "tryFlushBatches env a w out = Some (b, v, out')"
  shows "good H b v"
proof -
  have "good_state H (b, v, out')"
    by (rule go_loop_invariant [where I = "good_state H", OF assms(3) [unfolded tryFlushBatches_def]])
      (use assms(2) flushRound_good [OF assms(1)] in blast)+
  then show ?thesis by simp
qed

section \<open>Every operation keeps the invariant\<close>

lemma release_handle_good:
  assumes "good (src_held (PoolPayload handle) + H) a w"
  shows "good H a (release_handle handle w)"
proof -
  have "pool_ok (src_held (PoolPayload handle) + (held (pending a) + H)) (w_pool w)"
    using assms by (simp add: good_def ac_simps)
  from src_release_ok [OF this] assms show ?thesis
    by (cases handle) (simp_all add: good_def release_handle_def Release_def)
qed

lemma pushData_good:
  assumes "fair_env env" and "good (src_held (PoolPayload handle) + H) a w"
    and "pushData env index fec handle pEnd bc isLast a w = Some (b, v, out)"
  shows "good H b v"
proof (cases "isLast \<or> index < batchStart a \<or> map_of (pending a) index \<noteq> None")
  case True
  then show ?thesis
    using assms(3) release_handle_good [OF assms(2)] tryFlushBatches_good [OF assms(1)]
    by (auto simp: pushData_def split: if_splits) (metis good_stats(5))
next
  case False
  let ?ps = "\<lparr>source = PoolPayload handle, payloadEnd = pEnd, batchComplete = bc, pd_fecSetIndex = fec\<rparr>"
  have none: "map_of (batchCompleteIdx a) index = None"
    using acc_ok_free False assms(2) by (simp add: good_def)
  define a1 where "a1 = (let a = a\<lparr>pending := AList.update index ?ps (pending a)\<rparr> in
    if bc then a\<lparr>batchCompleteIdx := AList.update index (clock env (w_ticks w)) (batchCompleteIdx a)\<rparr> else a)"
  define w1 where "w1 = (if bc then w\<lparr>w_ticks := Suc (w_ticks w)\<rparr> else w)"
  have "good H a1 w"
    by (rule good_add [where ps = ?ps and a = a and i = index and t = "clock env (w_ticks w)"])
      (use assms(2) False in \<open>auto simp: a1_def Let_def not_less\<close>)
  then have g1: "good H a1 w1" by (simp add: w1_def)
  have "Option.bind (advanceStreaming env a1 w1 []) (\<lambda>(a, w, out).
      Option.bind
        (if streamingCursor a \<le> index then
           (case tryFecFill env fec a w of
              (filled, a, w) \<Rightarrow> if filled then advanceStreaming env a w out else Some (a, w, out))
         else Some (a, w, out))
        (\<lambda>(a, w, out). tryFlushBatches env a w out)) = Some (b, v, out)"
    using assms(3) False none
    by (auto simp: pushData_def Let_def time_now_def a1_def w1_def split: if_splits)
  then obtain a2 w2 out2 a3 w3 out3 where adv: "advanceStreaming env a1 w1 [] = Some (a2, w2, out2)"
    and mid: "(if streamingCursor a2 \<le> index then
           (case tryFecFill env fec a2 w2 of
              (filled, a, w) \<Rightarrow> if filled then advanceStreaming env a w out2 else Some (a, w, out2))
         else Some (a2, w2, out2)) = Some (a3, w3, out3)"
    and fin: "tryFlushBatches env a3 w3 out3 = Some (b, v, out)"
    by (auto simp: bind_eq_Some_conv)
  have g2: "good H a2 w2" by (rule advanceStreaming_good [OF assms(1) g1 adv])
  obtain filled a4 w4 where fill: "tryFecFill env fec a2 w2 = (filled, a4, w4)" by (metis prod_cases3)
  have "good H a3 w3"
    using mid g2 fill tryFecFill_good [OF g2 fill] advanceStreaming_good [OF assms(1), of H a4 w4 out2]
    by (auto split: if_splits)
  then show ?thesis by (rule tryFlushBatches_good [OF assms(1) _ fin])
qed

lemma pushCode_good:
  assumes "fair_env env" and "good H a w"
    and "pushCode env fecSetIndex numData numCoding position coded variant a w = Some (b, v, out)"
  shows "good H b v"
proof -
  define a1 where "a1 = (if int (length (fecSets a)) \<ge> MaxFECSetsPerSlot (cfg a) \<and> map_of (fecSets a) fecSetIndex = None
      then (case smallestFecSetKey a of None \<Rightarrow> a
            | Some oldest \<Rightarrow> if oldest < fecSetIndex
                then a\<lparr>fecSets := AList.delete oldest (fecSets a), fecSetsEvictedEarly := fecSetsEvictedEarly a + 1\<rparr>
                else a) else a)"
  define entry where "entry = (case map_of (fecSets a1) fecSetIndex of None \<Rightarrow> newFecSetBuffer fecSetIndex | Some f \<Rightarrow> f)"
  define a2 where "a2 = a1\<lparr>fecSets := AList.update fecSetIndex
      (recordCode position numData numCoding coded variant entry) (fecSets a1)\<rparr>"
  have d: "distinct (map fst (fecSets a))" using assms(2) by (simp add: good_def acc_ok_def)
  have g1: "good H a1 w"
    by (rule good_fec_delete [OF assms(2)])
      (use d in \<open>auto simp: a1_def distinct_delete split: option.split\<close>)
  then have g2: "good H a2 w"
    by (rule good_fec_delete) (use g1 in \<open>auto simp: a2_def good_def acc_ok_def distinct_update\<close>)
  obtain filled a3 w3 where fill: "tryFecFill env fecSetIndex a2 w = (filled, a3, w3)" by (metis prod_cases3)
  then have g3: "good H a3 w3" using tryFecFill_good [OF g2] by blast
  have "Option.bind (if filled then advanceStreaming env a3 w3 [] else Some (a3, w3, []))
      (\<lambda>(a, w, out). tryFlushBatches env a w out) = Some (b, v, out)"
    using assms(3) fill unfolding pushCode_def a1_def [symmetric] entry_def [symmetric] Let_def a2_def [symmetric]
    by simp
  then obtain a4 w4 out4 where mid: "(if filled then advanceStreaming env a3 w3 [] else Some (a3, w3, []))
      = Some (a4, w4, out4)" and fin: "tryFlushBatches env a4 w4 out4 = Some (b, v, out)"
    by (auto simp: bind_eq_Some_conv)
  have "good H a4 w4"
    using mid g3 advanceStreaming_good [OF assms(1) g3] by (auto split: if_splits)
  then show ?thesis by (rule tryFlushBatches_good [OF assms(1) _ fin])
qed

lemma harvestBoundaries_good:
  "fair_env env \<Longrightarrow> good H a w \<Longrightarrow> harvestBoundaries env bs a w out = Some (b, v, out') \<Longrightarrow> good H b v"
proof (induction bs arbitrary: a w out)
  case (Cons bcIdx bs)
  show ?case
  proof (cases "bcIdx < batchStart a")
    case True
    then show ?thesis using Cons by simp
  next
    case False
    then obtain a1 out1 where
      one: "(if contiguousRange a (batchStart a) bcIdx then
             Option.bind (gatherLoop (w_pool w) (pending a) (batchStart a) bcIdx []) (\<lambda>scratch.
               Some (decodeFlushed scratch a out))
           else Some (salvageBatch (w_pool w) (batchStart a) bcIdx a out)) = Some (a1, out1)"
      and nxt: "(case completeBatch env bcIdx a1 w of (a, w) \<Rightarrow> harvestBoundaries env bs a w out1)
          = Some (b, v, out')"
      using Cons.prems(3) by (auto simp: bind_eq_Some_conv Let_def simp del: if_split)
    obtain a2 w2 where cb: "completeBatch env bcIdx a1 w = (a2, w2)" by fastforce
    with nxt have rest: "harvestBoundaries env bs a2 w2 out1 = Some (b, v, out')" by simp
    have "core a1 = core a"
      using one by (auto simp: bind_eq_Some_conv dest: decodeFlushed_core salvageBatch_core split: if_splits)
    then have "good H a1 w" using Cons.prems(2) good_core by blast
    from completeBatch_good [OF Cons.prems(1) this cb] Cons.IH [OF Cons.prems(1) _ rest]
    show ?thesis by blast
  qed
qed simp

lemma tryHarvestTail_good:
  assumes "fair_env env" and "good H a w" and "tryHarvestTail env a w = Some (b, v, out)"
  shows "good H b v"
proof -
  obtain hints w0 where o: "order32 env (map fst (fecSets a)) w = (hints, w0)" by fastforce
  obtain a1 w1 where f: "fillAll env hints a w0 = (a1, w1)" by fastforce
  have "good H a w0" using assms(2) o by (auto simp: order32_def)
  then have g1: "good H a1 w1" using fillAll_good f by blast
  let ?bs = "sort (map fst (filter (\<lambda>(idx, ps). batchComplete ps \<and> idx \<ge> batchStart a1) (pending a1)))"
  obtain a2 w2 out2 where h: "harvestBoundaries env ?bs a1 w1 [] = Some (a2, w2, out2)"
    using assms(3) o f by (auto simp: tryHarvestTail_def Let_def bind_eq_Some_conv)
  obtain a3 out3 where t: "tailRuns (w_pool w2) (sort (map fst (pending a2))) a2 out2 = (a3, out3)"
    by fastforce
  have b: "b = a3\<lparr>fecSetsDiscardedUnused := fecSetsDiscardedUnused a3 + of_nat (length (fecSets a3)),
                  salvagedTailTx := salvagedTailTx a3 + of_nat (length out3)\<rparr>" and v: "v = w2"
    using assms(3) o f h t by (auto simp: tryHarvestTail_def Let_def)
  have "good H a3 w2"
    using harvestBoundaries_good [OF assms(1) g1 h] good_core [OF tailRuns_core [OF t]] by simp
  then show ?thesis by (simp add: b v)
qed

lemma acc_release_good:
  assumes "fair_env env" and "good H a w" and "acc_release env a w = (b, v)"
  shows "good H b v \<and> pending b = [] \<and> pool_ok H (w_pool v)"
proof -
  have "pool_ok (held (filter (\<lambda>(k, _). \<not> True) (pending a)) + H) (w_pool v)"
    using release_where_ok [OF assms(1), of a H w "\<lambda>_. True"] assms(2,3)
    by (auto simp: good_def acc_ok_def acc_release_def)
  then show ?thesis using assms(2,3) by (auto simp: good_def acc_ok_def acc_release_def)
qed

section \<open>A concrete world\<close>

definition demo_env :: environ where
  "demo_env = \<lparr>clock = \<lambda>n. int n, mapOrder = \<lambda>n ks. ks, slotOrder = \<lambda>n ks. ks\<rparr>"

definition demo_world :: world where
  "demo_world = \<lparr>w_pool = the (newBufferPool 2), w_cache = newReedSolomonCache, w_ticks = 0\<rparr>"

lemma demo_env_fair: "fair_env demo_env"
  by (simp add: fair_env_def demo_env_def)

lemma demo_pool: "newBufferPool 2 = Some (the (newBufferPool 2))"
  by (simp add: newBufferPool_def maxPoolCapacity_def)

lemma demo_world_good: "good {#} (newSlotAccumulator c) demo_world"
  using newBufferPool_ok [OF demo_pool]
  by (simp add: good_newSlotAccumulator demo_world_def cache_ok_def newReedSolomonCache_def cacheCapacity_def)

end
