(* ===== verification/Accumulator_Term.thy ===== *)
theory Accumulator_Term
  imports Accumulator_Inv
begin

text \<open>
  Termination of the accumulator: when no batch can end at the largest 32-bit index and the map of
  pending shreds is smaller than the index space, every operation returns. The bound is
  sharp: with a batch end at the largest index the flush loop does not end.
\<close>

section \<open>The gather loop\<close>

definition gathered :: "bufferPool \<Rightarrow> (u32 \<times> pendingShred) list \<Rightarrow> u32 list \<Rightarrow> byte list" where
  "gathered p pd is =
     concat (map (\<lambda>i. case map_of pd i of None \<Rightarrow> [] | Some ps \<Rightarrow> payload_or_empty p ps) is)"

lemma range32_step:
  assumes "s \<le> e" and "e \<noteq> 0xFFFFFFFF"
  shows "range32 s e = s # range32 (s + 1) e"
proof -
  have "unat s \<le> unat e" using assms(1) by (simp add: word_le_nat_alt)
  then have "[unat s..<Suc (unat e)] = unat s # [Suc (unat s)..<Suc (unat e)]" by (rule upt_conv_Cons [OF le_imp_less_Suc])
  then show ?thesis
    unfolding range32_def u32_next [OF u32_below_max [OF assms]] by simp
qed

lemma range32_empty: "\<not> s \<le> e \<Longrightarrow> range32 s e = []"
  by (simp add: range32_def word_le_nat_alt)

lemma gatherLoop_returns:
  assumes "e \<noteq> 0xFFFFFFFF"
  shows "gatherLoop p pd s e scratch = Some (scratch @ gathered p pd (range32 s e))"
proof (induction "unat e + 1 - unat s" arbitrary: s scratch)
  case 0
  then have "\<not> s \<le> e" by (simp add: word_le_nat_alt)
  then show ?case by (subst gatherLoop.simps) (simp add: range32_empty gathered_def)
next
  case (Suc n)
  then have le: "s \<le> e" by (simp add: word_le_nat_alt)
  have "n = unat e + 1 - unat (s + 1)"
    using Suc.hyps(2) u32_next [OF u32_below_max [OF le assms]] by simp
  from Suc.hyps(1) [OF this] le show ?case
    by (subst gatherLoop.simps) (simp add: range32_step [OF le assms] gathered_def)
qed

lemma gatherLoop_diverges: "gatherLoop p pd s 0xFFFFFFFF scratch = None"
proof (rule ccontr)
  assume "gatherLoop p pd s 0xFFFFFFFF scratch \<noteq> None"
  then obtain y where y: "gatherLoop p pd s 0xFFFFFFFF scratch = Some y" by blast
  have "e = 0xFFFFFFFF \<longrightarrow> False" if "gatherLoop p pd s e scratch = Some y" for e
  proof (rule gatherLoop.raw_induct [OF _ that], goal_cases)
    case (1 loop p pd s e scratch y)
    then show ?case using u32_le_max [of s] by (auto split: if_splits)
  qed
  from this [OF y] show False by simp
qed

section \<open>The streaming loop\<close>

text \<open>The number of consecutive indices from \<open>c\<close> on that are present.\<close>

definition run_length :: "(u32 \<times> pendingShred) list \<Rightarrow> u32 \<Rightarrow> nat" where
  "run_length pd c = (LEAST n. map_of pd (c + of_nat n) = None)"

lemma missing_index:
  fixes pd :: "(u32 \<times> pendingShred) list"
  assumes "length pd < 4294967296"
  shows "\<exists>n \<le> length pd. map_of pd (c + of_nat n) = None"
proof (rule ccontr)
  assume "\<not> ?thesis"
  then have "(\<lambda>n. c + of_nat n) ` {..length pd} \<subseteq> fst ` set pd"
    by (auto simp: map_of_eq_None_iff)
  then have "card ((\<lambda>n. c + of_nat n) ` {..length pd}) \<le> card (fst ` set pd)"
    by (intro card_mono) simp_all
  also have "\<dots> \<le> length pd" by (metis card_length length_map set_map)
  finally have "card ((\<lambda>n. c + of_nat n) ` {..length pd}) \<le> length pd" .
  moreover have "inj_on (\<lambda>n. c + of_nat n) {..length pd}"
  proof (rule inj_onI)
    fix x y
    assume "x \<in> {..length pd}" "y \<in> {..length pd}" "c + of_nat x = c + of_nat y"
    then have "(of_nat x :: u32) = of_nat y" "x < 4294967296" "y < 4294967296" using assms by auto
    then show "x = y" by (simp add: word_unat_eq_iff unat_of_nat)
  qed
  ultimately show False by (simp add: card_image)
qed

lemma run_length_le: "length pd < 4294967296 \<Longrightarrow> run_length pd c \<le> length pd"
  using missing_index [of pd c] unfolding run_length_def by (meson Least_le order_trans)

lemma run_length_next:
  fixes pd :: "(u32 \<times> pendingShred) list"
  assumes "length pd < 4294967296" and "map_of pd c \<noteq> None"
  shows "run_length pd (c + 1) < run_length pd c"
proof -
  let ?P = "\<lambda>n. map_of pd (c + of_nat n) = None"
  have "\<exists>n. ?P n" using missing_index [OF assms(1)] by blast
  then have p: "?P (run_length pd c)" unfolding run_length_def by (rule LeastI_ex)
  have "run_length pd c \<noteq> 0"
  proof
    assume "run_length pd c = 0"
    with p assms(2) show False by simp
  qed
  then obtain k where k: "run_length pd c = Suc k" by (cases "run_length pd c") simp_all
  with p have k2: "?P (Suc k)" by simp
  have "map_of pd ((c + 1) + of_nat k) = None" using k2 by (simp add: ac_simps)
  then have "run_length pd (c + 1) \<le> k" unfolding run_length_def by (rule Least_le)
  then show ?thesis using k by simp
qed

definition stream_measure :: "acc_state \<Rightarrow> nat" where
  "stream_measure st = (case st of (a, w, out) \<Rightarrow>
     length (pending a) * 4294967296 + run_length (pending a) (streamingCursor a))"

lemma length_delete_less: "map_of xs k \<noteq> None \<Longrightarrow> length (AList.delete k xs) < length xs"
proof (induction xs)
  case (Cons e xs)
  show ?case
  proof (cases "fst e = k")
    case True
    then show ?thesis by (cases e) (simp add: le_imp_less_Suc length_delete_le)
  next
    case False
    then show ?thesis using Cons by (cases e) simp
  qed
qed simp

lemma set_alist_delete: "set (AList.delete k xs) \<subseteq> set xs"
  by (induction xs) auto

lemma set_alist_update: "set (AList.update k v xs) \<subseteq> insert (k, v) (set xs)"
  by (induction xs) auto

lemma length_alist_update: "length (AList.update k v xs) \<le> Suc (length xs)"
  by (induction xs) auto

lemma pending_core: "core a = core b \<Longrightarrow> pending a = pending b"
  by (simp add: core_def)

lemma dropCorrupted_length:
  assumes "dropCorrupted env ps a w out = (b, v, out')" and "map_of (pending a) (streamingCursor a) \<noteq> None"
  shows "length (pending b) < length (pending a)"
proof -
  let ?pd = "AList.delete (streamingCursor a) (pending a)"
  have "length (pending b) \<le> length ?pd"
    using assms(1)
    by (auto simp: dropCorrupted_def Let_def completeBatch_def length_filter_le
        dest!: salvageBatch_core [THEN pending_core] split: if_splits prod.splits)
  then show ?thesis using length_delete_less [OF assms(2)] by simp
qed

lemma advanceRound_measure:
  assumes "advanceRound env (a, w, out) = (True, b, v, out')" and "length (pending a) < 4294967296"
  shows "length (pending b) \<le> length (pending a) \<and> stream_measure (b, v, out') < stream_measure (a, w, out)"
proof -
  from assms(1) obtain ps h where ps: "map_of (pending a) (streamingCursor a) = Some ps" "source ps = PoolPayload h"
    by (auto simp: advanceRound_def split: option.splits payloadSource.splits)
  show ?thesis
  proof (cases "pd_payload (w_pool w) ps")
    case None
    then have "dropCorrupted env ps a w out = (b, v, out')" using assms(1) ps by (simp add: advanceRound_def)
    from dropCorrupted_length [OF this] ps(1) have l: "length (pending b) < length (pending a)" by simp
    then have "run_length (pending b) (streamingCursor b) < 4294967296"
      using run_length_le [of "pending b" "streamingCursor b"] assms(2) by simp
    moreover have "Suc (length (pending b)) * 4294967296 \<le> length (pending a) * 4294967296"
      using l by (intro mult_le_mono1) simp
    ultimately show ?thesis using l by (simp add: stream_measure_def)
  next
    case (Some pl)
    then have "pending b = pending a \<and> streamingCursor b = streamingCursor a + 1"
      using assms(1) ps
      by (auto simp: advanceRound_def Let_def dest!: emitTxs_only split: prod.splits sum.splits)
    then show ?thesis using run_length_next [OF assms(2)] ps(1) by (simp add: stream_measure_def)
  qed
qed

lemma advanceStreaming_returns:
  assumes "length (pending a) < 4294967296"
  shows "\<exists>st. advanceStreaming env a w out = Some st"
  unfolding advanceStreaming_def
proof (rule go_loop_terminates [where m = stream_measure
      and I = "\<lambda>(a, w, out). length (pending a) < 4294967296"])
  show "case (a, w, out) of (a, w, out) \<Rightarrow> length (pending a) < 4294967296" using assms by simp
  fix st :: acc_state
  assume I: "case st of (a, w, out) \<Rightarrow> length (pending a) < 4294967296"
  obtain a w out where st: "st = (a, w, out)" by (metis prod_cases3)
  obtain again b v out' where r: "advanceRound env (a, w, out) = (again, b, v, out')" by (metis prod_cases4)
  have "again \<longrightarrow> length (pending b) < 4294967296 \<and> stream_measure (b, v, out') < stream_measure st"
    using advanceRound_measure [of env a w out b v out'] r I st by auto
  then show "\<exists>again t. Some (advanceRound env st) = Some (again, t) \<and>
      (again \<longrightarrow> (case t of (a, w, out) \<Rightarrow> length (pending a) < 4294967296) \<and> stream_measure t < stream_measure st)"
    using r st by auto
qed

section \<open>The flush loop\<close>

text \<open>
  No batch ends at the largest index, and no FEC set reaches it: neither a recorded batch end
  nor a recovered shred has that index.
\<close>

definition no_max :: "slotAccumulator \<Rightarrow> bool" where
  "no_max a \<longleftrightarrow> map_of (batchCompleteIdx a) 0xFFFFFFFF = None \<and>
     (\<forall>(s, f) \<in> set (fecSets a). unat s + unat (fb_numData f) < 4294967296)"

lemma no_max_core: "core a = core b \<Longrightarrow> no_max a = no_max b"
  by (simp add: core_def no_max_def)

lemma smallest_in:
  assumes "smallestBatchCompleteIdxFrom start a = Some (i, t)"
  shows "start \<le> i \<and> i \<in> fst ` set (batchCompleteIdx a)"
proof -
  let ?f = "\<lambda>(idx, t) m. if idx < start then m else case m of None \<Rightarrow> Some (idx, t)
      | Some (minIdx, minTime) \<Rightarrow> if idx < minIdx then Some (idx, t) else m"
  have "start \<le> i \<and> i \<in> fst ` set xs \<union> S"
    if "fold ?f xs m = Some (i, t)" "\<And>j u. m = Some (j, u) \<Longrightarrow> start \<le> j \<and> j \<in> S"
    for xs :: "(u32 \<times> int) list" and m S
    using that
  proof (induction xs arbitrary: m S)
    case (Cons e xs)
    have m: "start \<le> j \<and> j \<in> insert (fst e) S" if "?f e m = Some (j, u)" for j u
      using that Cons.prems(2) by (cases e) (auto split: if_splits option.splits prod.splits)
    from Cons.IH [OF Cons.prems(1) [unfolded fold_Cons o_apply] m] show ?case by auto
  qed auto
  from this [of "batchCompleteIdx a" None "{}"] assms show ?thesis
    by (simp add: smallestBatchCompleteIdxFrom_def)
qed

lemma tryReconstruct_pos:
  "fst (tryReconstruct f refs cache) = Inr rs \<Longrightarrow> r \<in> set rs \<Longrightarrow> unat (dr_pos r) < unat (fb_numData f)"
proof -
  have lt: "unat (of_nat k :: u16) < unat (fb_numData f)" if "k < unat (fb_numData f)" for k
    using that unsigned_less [where ?w = "fb_numData f" and ?'a = nat] by (simp add: unat_of_nat)
  show "fst (tryReconstruct f refs cache) = Inr rs \<Longrightarrow> r \<in> set rs \<Longrightarrow> unat (dr_pos r) < unat (fb_numData f)"
    using lt by (auto simp: tryReconstruct_def Let_def split: if_splits prod.splits sum.splits)
qed

lemma recover_step_no_max:
  assumes "no_max a" and "unat s + unat (dr_pos r) < 4294967295"
    and "recover_step env s r (a, w, any0) = (b, v, any1)"
  shows "no_max b \<and> fecSets b = fecSets a \<and> length (pending b) \<le> Suc (length (pending a))"
proof -
  let ?g = "s + ucast (dr_pos r)"
  have "unat ?g = unat s + unat (dr_pos r)"
    using assms(2) by (simp add: unat_word_ariths unat_ucast_u16)
  then have "?g \<noteq> 0xFFFFFFFF" using assms(2) by auto
  then show ?thesis
    using assms(1,3) length_alist_update [of ?g _ "pending a"]
    by (auto simp: recover_step_def Let_def no_max_def update_conv' time_now_def
        split: if_splits sum.splits ShredKind.splits)
qed

lemma recover_fold_no_max:
  assumes "no_max a" and "\<And>r. r \<in> set rs \<Longrightarrow> unat s + unat (dr_pos r) < 4294967295"
    and "fold (recover_step env s) rs (a, w, any0) = (b, v, any1)"
  shows "no_max b \<and> fecSets b = fecSets a \<and> length (pending b) \<le> length rs + length (pending a)"
  using assms
proof (induction rs arbitrary: a w any0)
  case (Cons r rs)
  obtain a1 w1 any2 where s: "recover_step env s r (a, w, any0) = (a1, w1, any2)" by (metis prod_cases3)
  have "unat s + unat (dr_pos r) < 4294967295" using Cons.prems(2) by simp
  from recover_step_no_max [OF Cons.prems(1) this s] Cons.IH [of a1 w1 any2] Cons.prems s
  show ?case by auto
qed simp

lemma length_recovered:
  "fst (tryReconstruct f refs cache) = Inr rs \<Longrightarrow> length rs \<le> 65535"
proof -
  have le: "length (filter P (map of_nat [0..<unat (fb_numData f)])) \<le> 65535" for P :: "u16 \<Rightarrow> bool"
    using length_filter_le [of P "map of_nat [0..<unat (fb_numData f)]"]
      unsigned_less [where ?w = "fb_numData f" and ?'a = nat] by simp
  show "fst (tryReconstruct f refs cache) = Inr rs \<Longrightarrow> length rs \<le> 65535"
    using le by (auto simp: tryReconstruct_def Let_def split: if_splits prod.splits sum.splits)
qed

lemma tryFecFill_no_max:
  assumes "no_max a" and "tryFecFill env hint a w = (filled, b, v)"
  shows "no_max b \<and> length (pending b) \<le> 65535 + length (pending a)"
proof (cases "\<exists>s f. selectRecoverableSet hint a = Some s \<and> map_of (fecSets a) s = Some f")
  case False
  then show ?thesis using assms by (auto simp: tryFecFill_def split: option.splits)
next
  case True
  then obtain s f where sel: "selectRecoverableSet hint a = Some s" "map_of (fecSets a) s = Some f" by blast
  let ?refs = "fec_refs (w_pool w) a s (fb_numData f)"
  obtain res cache where rec: "tryReconstruct f ?refs (w_cache w) = (res, cache)" by fastforce
  have bound: "unat s + unat (fb_numData f) < 4294967296" using assms(1) map_of_SomeD [OF sel(2)] by (auto simp: no_max_def)
  show ?thesis
  proof (cases res)
    case (Inl e)
    then show ?thesis
      using assms sel rec no_max_core [of "a\<lparr>recoveryFailures := recoveryFailures a + 1\<rparr>" a]
      by (auto simp: tryFecFill_def Let_def core_def split: if_splits)
  next
    case (Inr rs)
    obtain a1 v1 any1 where f: "fold (recover_step env s) rs (a, w\<lparr>w_cache := cache\<rparr>, False) = (a1, v1, any1)"
      by (metis prod_cases3)
    have pos: "unat s + unat (dr_pos r) < 4294967295" if "r \<in> set rs" for r
      using tryReconstruct_pos [of f ?refs "w_cache w" rs r] rec Inr that bound by simp
    have n: "no_max a1" "fecSets a1 = fecSets a" "length (pending a1) \<le> 65535 + length (pending a)"
      using recover_fold_no_max [OF assms(1) pos f] length_recovered [of f ?refs "w_cache w" rs] rec Inr by auto
    have "no_max (a1\<lparr>recoveriesDone := recoveriesDone a1 + 1, fecSets := AList.delete s (fecSets a1)\<rparr>)"
      using n(1) set_alist_delete [of s "fecSets a1"] by (auto simp: no_max_def)
    then show ?thesis
      using assms sel rec Inr f n by (auto simp: tryFecFill_def Let_def split: if_splits)
  qed
qed

lemma fillAll_no_max: "no_max a \<Longrightarrow> fillAll env hints a w = (b, v) \<Longrightarrow> no_max b"
proof (induction hints arbitrary: a w)
  case (Cons h hints)
  obtain f a1 w1 where s: "tryFecFill env h a w = (f, a1, w1)" by (metis prod_cases3)
  from Cons.IH [of a1 w1] tryFecFill_no_max [OF Cons.prems(1) s] Cons.prems(2) s
  show ?case by (simp add: fillAll_def)
qed (simp add: fillAll_def)

lemma completeBatch_no_max:
  assumes "no_max a" and "completeBatch env bcIdx a w = (b, v)"
  shows "no_max b"
  using assms(1) unfolding no_max_def completeBatch_fields [OF assms(2)] map_of_filter_key by auto

definition flush_measure :: "acc_state \<Rightarrow> nat" where
  "flush_measure st = (case st of (a, w, out) \<Rightarrow> 4294967296 - unat (batchStart a))"

lemma completeBatch_measure:
  assumes "completeBatch env bcIdx a w = (b, v)" and "s \<le> bcIdx" and "bcIdx \<noteq> 0xFFFFFFFF"
  shows "4294967296 - unat (batchStart b) < 4294967296 - unat s"
proof (rule u32_measure)
  have "unat bcIdx < 4294967295"
    using u32_bound [of bcIdx] assms(3) by (simp add: word_unat_eq_iff)
  then have "unat (batchStart b) = unat bcIdx + 1"
    unfolding completeBatch_fields(3) [OF assms(1)] by simp
  then show "unat s < unat (batchStart b)" using assms(2) by (simp add: word_le_nat_alt)
qed

lemma flushRound_returns:
  assumes "no_max a"
  shows "\<exists>again b v out'. flushRound env (a, w, out) = Some (again, b, v, out') \<and> no_max b \<and>
    (again \<longrightarrow> flush_measure (b, v, out') < flush_measure (a, w, out))"
proof (cases "smallestBatchCompleteIdxFrom (batchStart a) a")
  case None
  then show ?thesis using assms by (auto simp: flushRound_def)
next
  case (Some bt)
  obtain bcIdx t0 where bt: "bt = (bcIdx, t0)" by fastforce
  let ?s = "batchStart a" and ?ex = "unat (bcIdx - batchStart a) + 1"
  have bc: "?s \<le> bcIdx" "bcIdx \<noteq> 0xFFFFFFFF"
    using smallest_in [OF Some [unfolded bt]] assms by (auto simp: no_max_def map_of_eq_None_iff)
  obtain a1 w1 where fill: "(if countPendingInRange a ?s bcIdx < ?ex
      then fillForFlush env ?s bcIdx a w else (a, w)) = (a1, w1)" by fastforce
  have n1: "no_max a1"
    using fill assms fillAll_no_max by (auto simp: fillForFlush_def order32_def split: if_splits)
  obtain a2 out2 where sal: "salvageBatch (w_pool w1) ?s bcIdx a1 out = (a2, out2)" by fastforce
  obtain a3 out3 where dec: "decodeFlushed (gathered (w_pool w1) (pending a1) (range32 ?s bcIdx)) a1 out = (a3, out3)"
    by fastforce
  let ?a2 = "a2\<lparr>batchesForceFinalizedTimeout := batchesForceFinalizedTimeout a2 + 1\<rparr>"
  let ?w2 = "w1\<lparr>w_ticks := Suc (w_ticks w1)\<rparr>"
  obtain b2 v2 where c2: "completeBatch env bcIdx ?a2 ?w2 = (b2, v2)" by fastforce
  obtain b3 v3 where c3: "completeBatch env bcIdx a3 w1 = (b3, v3)" by fastforce
  have "no_max ?a2" "no_max a3"
    using n1 no_max_core [OF salvageBatch_core [OF sal]] no_max_core [OF decodeFlushed_core [OF dec]]
    by (simp_all add: no_max_def)
  then have n: "no_max b2" "no_max b3" using completeBatch_no_max c2 c3 by blast+
  have "flushRound env (a, w, out) =
      (if countPendingInRange a1 ?s bcIdx < ?ex then
         (if clock env (w_ticks w1) - t0 \<ge> StuckBatchTimeout (cfg a1) then Some (True, b2, v2, out2)
          else Some (False, a1, ?w2, out))
       else Some (True, b3, v3, out3))"
    using Some bt fill sal dec c2 c3 gatherLoop_returns [OF bc(2), of "w_pool w1" "pending a1" ?s "[]"]
    by (simp add: flushRound_def Let_def time_now_def)
  then show ?thesis
    using n n1 completeBatch_measure [OF c2 bc] completeBatch_measure [OF c3 bc]
    by (auto simp: flush_measure_def)
qed

lemma tryFlushBatches_returns:
  assumes "no_max a"
  shows "\<exists>st. tryFlushBatches env a w out = Some st"
  unfolding tryFlushBatches_def
proof (rule go_loop_terminates [where m = flush_measure and I = "\<lambda>(a, w, out). no_max a"])
  show "case (a, w, out) of (a, w, out) \<Rightarrow> no_max a" using assms by simp
  fix st :: acc_state
  assume "case st of (a, w, out) \<Rightarrow> no_max a"
  then show "\<exists>again t. flushRound env st = Some (again, t) \<and>
      (again \<longrightarrow> (case t of (a, w, out) \<Rightarrow> no_max a) \<and> flush_measure t < flush_measure st)"
    using flushRound_returns by (cases st) fastforce
qed

lemma tryFlushBatches_no_max:
  assumes "no_max a"
  shows "\<exists>b v out'. tryFlushBatches env a w out = Some (b, v, out') \<and> no_max b"
proof -
  obtain b v out' where r: "tryFlushBatches env a w out = Some (b, v, out')"
    using tryFlushBatches_returns [OF assms] by fastforce
  have "case (b, v, out') of (a, w, out) \<Rightarrow> no_max a"
  proof (rule go_loop_invariant [where I = "\<lambda>(a, w, out). no_max a", OF r [unfolded tryFlushBatches_def]])
    show "case (a, w, out) of (a, w, out) \<Rightarrow> no_max a" using assms by simp
    fix st again and st' :: acc_state
    assume "case st of (a, w, out) \<Rightarrow> no_max a" and "flushRound env st = Some (again, st')"
    then show "case st' of (a, w, out) \<Rightarrow> no_max a"
      using flushRound_returns [of "fst st" env "fst (snd st)" "snd (snd st)"] by (cases st) auto
  qed
  with r show ?thesis by simp
qed

section \<open>The operations return\<close>

lemma no_max_stats [simp]:
  "no_max (a\<lparr>streamingDecoder := d\<rparr>) = no_max a" "no_max (a\<lparr>streamingCursor := c\<rparr>) = no_max a"
  "no_max (a\<lparr>decodeErrors := n\<rparr>) = no_max a" "no_max (a\<lparr>slotComplete := s\<rparr>) = no_max a"
  "no_max (a\<lparr>yieldedSigs := ys\<rparr>) = no_max a" "no_max (a\<lparr>pending := pd\<rparr>) = no_max a"
  "no_max (a\<lparr>batchesForceFinalizedCorrupted := k\<rparr>) = no_max a"
  "no_max (a\<lparr>fecSetsEvictedEarly := k\<rparr>) = no_max a"
  by (simp_all add: no_max_def)

lemma no_max_delete:
  "no_max a \<Longrightarrow> no_max (a\<lparr>batchCompleteIdx := AList.delete i (batchCompleteIdx a)\<rparr>)"
  by (auto simp: no_max_def delete_conv')

lemma dropCorrupted_no_max:
  assumes "no_max a" and "dropCorrupted env ps a w out = (b, v, out')"
  shows "no_max b"
proof -
  let ?i = "streamingCursor a"
  define w1 where "w1 = w\<lparr>w_pool := snd (src_release (source ps) (w_pool w))\<rparr>"
  define a1 where "a1 = (let a = a\<lparr>pending := AList.delete ?i (pending a)\<rparr>;
      a = (if batchComplete ps then a\<lparr>batchCompleteIdx := AList.delete ?i (batchCompleteIdx a)\<rparr> else a)
      in a\<lparr>streamingCursor := streamingCursor a + 1, decodeErrors := decodeErrors a + 1\<rparr>)"
  have n1: "no_max a1"
    using assms(1) no_max_delete [of "a\<lparr>pending := AList.delete ?i (pending a)\<rparr>" ?i]
    by (simp add: a1_def Let_def)
  show ?thesis
  proof (cases "batchComplete ps \<and> ?i > batchStart a1")
    case False
    then have "b = a1"
      using assms(2) by (auto simp: dropCorrupted_def a1_def Let_def split: if_splits)
    then show ?thesis using n1 by simp
  next
    case True
    obtain a2 out2 where s: "salvageBatch (w_pool w1) (batchStart a1) (?i - 1) a1 out = (a2, out2)" by fastforce
    let ?a3 = "a2\<lparr>batchesForceFinalizedCorrupted := batchesForceFinalizedCorrupted a2 + 1\<rparr>"
    have "completeBatch env ?i ?a3 w1 = (b, v)"
      using assms(2) True s by (auto simp: dropCorrupted_def a1_def w1_def Let_def split: prod.splits)
    moreover have "no_max ?a3" using n1 no_max_core [OF salvageBatch_core [OF s]] by simp
    ultimately show ?thesis using completeBatch_no_max by blast
  qed
qed

text \<open>What the streaming loop keeps: no batch end at the largest index, no more pending shreds.\<close>

lemma advanceRound_keeps:
  assumes "no_max a" and "advanceRound env (a, w, out) = (again, b, v, out')"
  shows "no_max b \<and> length (pending b) \<le> length (pending a)"
proof (cases "\<exists>ps h. map_of (pending a) (streamingCursor a) = Some ps \<and> source ps = PoolPayload h \<and>
    pd_payload (w_pool w) ps = None")
  case True
  then obtain ps where ps: "map_of (pending a) (streamingCursor a) = Some ps"
    and "dropCorrupted env ps a w out = (b, v, out')"
    using assms(2) by (auto simp: advanceRound_def)
  from dropCorrupted_no_max [OF assms(1) this(2)] dropCorrupted_length [OF this(2)] ps show ?thesis by simp
next
  case False
  then have "core b = core a"
    using assms(2)
    by (auto simp: advanceRound_def Let_def core_def dest!: emitTxs_only
        split: option.splits payloadSource.splits prod.splits sum.splits)
  then show ?thesis using assms(1) no_max_core [of b a] pending_core [of b a] by simp
qed

lemma advanceStreaming_keeps:
  assumes "no_max a" and "advanceStreaming env a w out = Some (b, v, out')"
  shows "no_max b \<and> length (pending b) \<le> length (pending a)"
proof -
  let ?I = "\<lambda>(c, u, o'). no_max c \<and> length (pending c) \<le> length (pending a)"
  have "?I (b, v, out')"
  proof (rule go_loop_invariant [where I = ?I, OF assms(2) [unfolded advanceStreaming_def]])
    show "?I (a, w, out)" using assms(1) by simp
    fix st again st'
    assume "?I st" and r: "Some (advanceRound env st) = Some (again, st')"
    moreover obtain c u o1 d u2 o2 where "st = (c, u, o1)" "st' = (d, u2, o2)" by (metis prod_cases3)
    ultimately show "?I st'" using advanceRound_keeps [of c env u o1 again d u2 o2] by auto
  qed
  then show ?thesis by simp
qed

lemma advance_then_flush_returns:
  assumes "no_max a" and "length (pending a) < 4294967296"
  shows "\<exists>b v out'. Option.bind (if go then advanceStreaming env a w out else Some (a, w, out))
    (\<lambda>(a, w, out). tryFlushBatches env a w out) = Some (b, v, out') \<and> no_max b"
proof -
  obtain b v out' where s: "(if go then advanceStreaming env a w out else Some (a, w, out)) = Some (b, v, out')"
    using advanceStreaming_returns [OF assms(2), of env w out] by fastforce
  then have "no_max b" using assms(1) advanceStreaming_keeps by (auto split: if_splits)
  then show ?thesis using s tryFlushBatches_no_max by simp
qed

lemma pushData_terminates:
  assumes "no_max a" and "index \<noteq> 0xFFFFFFFF" and "length (pending a) + 65536 < 4294967296"
  shows "\<exists>b v out. pushData env index fec handle pEnd bc isLast a w = Some (b, v, out) \<and> no_max b"
proof (cases "isLast \<or> index < batchStart a \<or> map_of (pending a) index \<noteq> None")
  case True
  have "\<exists>b v out. tryFlushBatches env (a\<lparr>slotComplete := True\<rparr>) (release_handle handle w) [] =
      Some (b, v, out) \<and> no_max b"
    using assms(1) by (intro tryFlushBatches_no_max) simp
  with True assms(1) show ?thesis by (auto simp: pushData_def)
next
  case False
  let ?ps = "\<lparr>source = PoolPayload handle, payloadEnd = pEnd, batchComplete = bc, pd_fecSetIndex = fec\<rparr>"
  define aw where "aw = (let a = a\<lparr>pending := AList.update index ?ps (pending a)\<rparr> in
    if bc \<and> map_of (batchCompleteIdx a) index = None then
      (case time_now env w of (t, w) \<Rightarrow>
        (a\<lparr>batchCompleteIdx := AList.update index t (batchCompleteIdx a)\<rparr>, w)) else (a, w))"
  obtain a1 w1 where aw: "aw = (a1, w1)" by fastforce
  have len: "length (AList.update index ?ps (pending a)) \<le> Suc (length (pending a))" for index
    by (simp add: length_alist_update)
  have n1: "no_max a1" and l1: "length (pending a1) \<le> Suc (length (pending a))"
    using aw assms(1,2) len
    by (auto simp: aw_def Let_def time_now_def no_max_def update_conv' split: if_splits)
  obtain a2 w2 out2 where s2: "advanceStreaming env a1 w1 [] = Some (a2, w2, out2)"
    using advanceStreaming_returns [of a1 env w1 "[]"] l1 assms(3) by force
  have k2: "no_max a2" "length (pending a2) \<le> length (pending a1)"
    using advanceStreaming_keeps [OF n1 s2] by simp_all
  obtain filled a3 w3 where s3: "tryFecFill env fec a2 w2 = (filled, a3, w3)" by (metis prod_cases3)
  have k3: "no_max a3" "length (pending a3) < 4294967296"
    using tryFecFill_no_max [OF k2(1) s3] k2(2) l1 assms(3) by simp_all
  have "pushData env index fec handle pEnd bc isLast a w =
      (if streamingCursor a2 \<le> index
       then Option.bind (if filled then advanceStreaming env a3 w3 out2 else Some (a3, w3, out2))
         (\<lambda>(a, w, out). tryFlushBatches env a w out)
       else tryFlushBatches env a2 w2 out2)"
    using False aw s2 s3 by (simp add: pushData_def aw_def Let_def)
  then show ?thesis
    using advance_then_flush_returns [OF k3] tryFlushBatches_no_max [OF k2(1)] by simp
qed

lemma pushCode_terminates:
  assumes "no_max a" and "unat fecSetIndex + 65535 < 4294967296" and "length (pending a) + 65536 < 4294967296"
  shows "\<exists>b v out. pushCode env fecSetIndex numData numCoding position coded variant a w =
    Some (b, v, out) \<and> no_max b"
proof -
  define a1 where "a1 = (if int (length (fecSets a)) \<ge> MaxFECSetsPerSlot (cfg a) \<and> map_of (fecSets a) fecSetIndex = None
      then (case smallestFecSetKey a of None \<Rightarrow> a
            | Some oldest \<Rightarrow> if oldest < fecSetIndex
                then a\<lparr>fecSets := AList.delete oldest (fecSets a), fecSetsEvictedEarly := fecSetsEvictedEarly a + 1\<rparr>
                else a) else a)"
  define entry where "entry = (case map_of (fecSets a1) fecSetIndex of None \<Rightarrow> newFecSetBuffer fecSetIndex | Some f \<Rightarrow> f)"
  define rc where "rc = recordCode position numData numCoding coded variant entry"
  define a2 where "a2 = a1\<lparr>fecSets := AList.update fecSetIndex rc (fecSets a1)\<rparr>"
  have n1: "no_max a1"
    using assms(1) set_alist_delete by (fastforce simp: a1_def no_max_def split: option.splits)
  have "unat fecSetIndex + unat (fb_numData rc) < 4294967296"
    using assms(2) unsigned_less [where ?w = "fb_numData rc" and ?'a = nat] by simp
  then have n2: "no_max a2"
    using n1 set_alist_update [of fecSetIndex rc "fecSets a1"] by (fastforce simp: a2_def no_max_def)
  have p2: "pending a2 = pending a" by (simp add: a2_def a1_def split: option.splits)
  obtain filled a3 w3 where fill: "tryFecFill env fecSetIndex a2 w = (filled, a3, w3)" by (metis prod_cases3)
  have k3: "no_max a3" "length (pending a3) < 4294967296"
    using tryFecFill_no_max [OF n2 fill] assms(3) p2 by simp_all
  have "pushCode env fecSetIndex numData numCoding position coded variant a w =
      Option.bind (if filled then advanceStreaming env a3 w3 [] else Some (a3, w3, []))
        (\<lambda>(a, w, out). tryFlushBatches env a w out)"
    unfolding pushCode_def a1_def [symmetric] entry_def [symmetric] rc_def [symmetric] Let_def a2_def [symmetric]
    using fill by simp
  then show ?thesis using advance_then_flush_returns [OF k3] by simp
qed

lemma harvestBoundaries_returns:
  "\<forall>i \<in> set bs. i \<noteq> 0xFFFFFFFF \<Longrightarrow> \<exists>st. harvestBoundaries env bs a w out = Some st"
proof (induction bs arbitrary: a w out)
  case (Cons i bs)
  have "\<exists>st. (case completeBatch env i a1 w of (a, w) \<Rightarrow> harvestBoundaries env bs a w out1) = Some st"
    for a1 out1 using Cons by (simp split: prod.split)
  then show ?case
    using Cons by (simp add: Let_def gatherLoop_returns case_prod_beta)
qed simp

lemma tryHarvestTail_returns:
  assumes "good H a w" and "no_max a"
  shows "\<exists>st. tryHarvestTail env a w = Some st"
proof -
  obtain hints w0 where o: "order32 env (map fst (fecSets a)) w = (hints, w0)" by fastforce
  obtain a1 w1 where f: "fillAll env hints a w0 = (a1, w1)" by fastforce
  have "good H a w0" using assms(1) o by (auto simp: order32_def)
  from fillAll_good [OF this f] have ok: "acc_ok a1" by (simp add: good_def)
  have "map_of (batchCompleteIdx a1) 0xFFFFFFFF = None"
    using fillAll_no_max [OF assms(2) f] by (simp add: no_max_def)
  then have "\<not> batchComplete ps" if "(0xFFFFFFFF, ps) \<in> set (pending a1)" for ps
    using ok that unfolding acc_ok_def by (metis map_of_is_SomeI)
  then have "\<forall>i \<in> set (sort (map fst (filter (\<lambda>(idx, ps). batchComplete ps \<and> idx \<ge> batchStart a1) (pending a1)))).
      i \<noteq> 0xFFFFFFFF"
    by fastforce
  from harvestBoundaries_returns [OF this, of env a1 w1 "[]"] o f show ?thesis
    by (auto simp: tryHarvestTail_def Let_def split: prod.split)
qed

section \<open>Batches that end at the largest index\<close>

lemma length_range32: "length (range32 s e) = unat e + 1 - unat s"
  by (simp add: range32_def del: upt_Suc)

lemma in_range32: "i \<in> set (range32 s e) \<longleftrightarrow> s \<le> i \<and> i \<le> e"
proof
  assume "i \<in> set (range32 s e)"
  then obtain n where n: "i = of_nat n" "unat s \<le> n" "n \<le> unat e"
    by (auto simp: range32_def less_Suc_eq_le simp del: upt_Suc)
  then have "unat i = n" using u32_bound [of e] by (simp add: unat_of_nat)
  with n show "s \<le> i \<and> i \<le> e" by (simp add: word_le_nat_alt)
next
  assume "s \<le> i \<and> i \<le> e"
  then have "unat i \<in> set [unat s..<Suc (unat e)]" by (simp add: word_le_nat_alt del: upt_Suc)
  then have "of_nat (unat i) \<in> set (range32 s e)" unfolding range32_def set_map by (rule imageI)
  then show "i \<in> set (range32 s e)" by simp
qed

lemma count_less:
  assumes "i \<in> set (range32 s e)" and "map_of (pending a) i = None"
  shows "countPendingInRange a s e < unat e + 1 - unat s"
proof -
  have "length (filter (\<lambda>i. map_of (pending a) i \<noteq> None) (range32 s e)) < length (range32 s e)"
    using assms by (intro length_filter_less) auto
  then show ?thesis by (simp add: countPendingInRange_def length_range32 del: upt_Suc)
qed

text \<open>
  At the largest index a batch is never completed: the batch start saturates there and the
  batch end is kept.
\<close>

lemma flush_at_max_diverges:
  assumes "batchStart a = 0xFFFFFFFF" and "map_of (pending a) 0xFFFFFFFF \<noteq> None"
    and "smallestBatchCompleteIdxFrom 0xFFFFFFFF a = Some (0xFFFFFFFF, t0)"
  shows "tryFlushBatches env a w out = None"
proof -
  have "range32 0xFFFFFFFF 0xFFFFFFFF = [0xFFFFFFFF]" by (simp add: range32_def)
  then have "countPendingInRange a 0xFFFFFFFF 0xFFFFFFFF = 1"
    using assms(2) by (simp add: countPendingInRange_def)
  then have "flushRound env (a, w, out) = None"
    using assms by (simp add: flushRound_def gatherLoop_diverges)
  then show ?thesis unfolding tryFlushBatches_def by (subst go_loop.simps) simp
qed

text \<open>A slot whose only pending shred has the largest index and ends a batch.\<close>

definition only_max :: "int \<Rightarrow> slotAccumulator \<Rightarrow> bool" where
  "only_max t0 a \<longleftrightarrow> batchStart a = 0 \<and> fecSets a = [] \<and> batchCompleteIdx a = [(0xFFFFFFFF, t0)] \<and>
     (\<exists>ps. pending a = [(0xFFFFFFFF, ps)])"

lemma only_max_round:
  assumes "fair_env env" and "only_max t0 a"
  shows "flushRound env (a, w, out) =
    (let w1 = w\<lparr>w_ticks := w_ticks w + 2\<rparr> in
     if clock env (w_ticks w + 1) - t0 \<ge> StuckBatchTimeout (cfg a) then
       (case salvageBatch (w_pool w) 0 0xFFFFFFFF a out of
          (a, out) \<Rightarrow>
           (case completeBatch env 0xFFFFFFFF
               (a\<lparr>batchesForceFinalizedTimeout := batchesForceFinalizedTimeout a + 1\<rparr>) w1 of
              (a, w) \<Rightarrow> Some (True, a, w, out)))
     else Some (False, a, w1, out))"
proof -
  have "(0 :: u32) \<in> set (range32 0 0xFFFFFFFF)" by (simp add: in_range32)
  moreover have "map_of (pending a) 0 = None" using assms(2) by (auto simp: only_max_def)
  ultimately have cnt: "countPendingInRange a 0 0xFFFFFFFF < 4294967296"
    using count_less [of 0 0 "0xFFFFFFFF" a] by simp
  have "mset (mapOrder env (w_ticks w) []) = {#}" using assms(1) by (simp add: fair_env_def)
  then have "fillForFlush env 0 0xFFFFFFFF a w = (a, w\<lparr>w_ticks := w_ticks w + 1\<rparr>)"
    using assms(2) by (simp add: fillForFlush_def flushHints_def order32_def fillAll_def only_max_def)
  moreover have "smallestBatchCompleteIdxFrom 0 a = Some (0xFFFFFFFF, t0)"
    using assms(2) by (simp add: smallestBatchCompleteIdxFrom_def only_max_def)
  ultimately show ?thesis
    using assms(2) cnt by (simp add: flushRound_def only_max_def time_now_def Let_def)
qed

lemma only_max_waits:
  assumes "fair_env env" and "only_max t0 a" and "clock env (w_ticks w + 1) - t0 < StuckBatchTimeout (cfg a)"
  shows "tryFlushBatches env a w out = Some (a, w\<lparr>w_ticks := w_ticks w + 2\<rparr>, out)"
  unfolding tryFlushBatches_def
  by (subst go_loop.simps) (use assms in \<open>simp add: only_max_round Let_def\<close>)

lemma only_max_diverges:
  assumes "fair_env env" and "only_max t0 a" and "clock env (w_ticks w + 1) - t0 \<ge> StuckBatchTimeout (cfg a)"
  shows "tryFlushBatches env a w out = None"
proof -
  obtain a1 out1 where sal: "salvageBatch (w_pool w) 0 0xFFFFFFFF a out = (a1, out1)" by fastforce
  let ?a1 = "a1\<lparr>batchesForceFinalizedTimeout := batchesForceFinalizedTimeout a1 + 1\<rparr>"
  obtain b v where cb: "completeBatch env 0xFFFFFFFF ?a1 (w\<lparr>w_ticks := w_ticks w + 2\<rparr>) = (b, v)" by fastforce
  have c: "core a1 = core a" by (rule salvageBatch_core [OF sal])
  obtain ps where a: "pending a = [(0xFFFFFFFF, ps)]" "batchCompleteIdx a = [(0xFFFFFFFF, t0)]"
    using assms(2) by (auto simp: only_max_def)
  have sat: "saturatingAddU32 0xFFFFFFFF 1 = 0xFFFFFFFF" by (simp add: saturatingAddU32_def)
  have "batchStart b = 0xFFFFFFFF" "pending b = pending a" "batchCompleteIdx b = batchCompleteIdx a"
    using completeBatch_fields(1-3) [OF cb] c a by (simp_all add: sat core_def)
  then have "tryFlushBatches env b v out1 = None"
    using a by (intro flush_at_max_diverges) (simp_all add: smallestBatchCompleteIdxFrom_def)
  moreover have "flushRound env (a, w, out) = Some (True, b, v, out1)"
    using assms sal cb by (simp add: only_max_round Let_def)
  ultimately show ?thesis unfolding tryFlushBatches_def by (subst go_loop.simps) simp
qed

lemma first_max_push:
  assumes "fair_env env" and "clock env (w_ticks w + 2) - clock env (w_ticks w) < StuckBatchTimeout c"
  shows "\<exists>b. pushData env 0xFFFFFFFF fec handle pEnd True False (newSlotAccumulator c) w =
      Some (b, w\<lparr>w_ticks := w_ticks w + 3\<rparr>, []) \<and> only_max (clock env (w_ticks w)) b \<and> cfg b = c"
proof -
  let ?ps = "\<lparr>source = PoolPayload handle, payloadEnd = pEnd, batchComplete = True, pd_fecSetIndex = fec\<rparr>"
  let ?b = "(newSlotAccumulator c)\<lparr>pending := [(0xFFFFFFFF, ?ps)],
      batchCompleteIdx := [(0xFFFFFFFF, clock env (w_ticks w))]\<rparr>"
  let ?w1 = "w\<lparr>w_ticks := Suc (w_ticks w)\<rparr>"
  have m: "only_max (clock env (w_ticks w)) ?b" by (simp add: only_max_def newSlotAccumulator_def)
  have "advanceStreaming env ?b ?w1 [] = Some (?b, ?w1, [])"
    unfolding advanceStreaming_def
    by (subst go_loop.simps) (simp add: advanceRound_def newSlotAccumulator_def)
  moreover have "tryFecFill env fec ?b ?w1 = (False, ?b, ?w1)"
    by (simp add: tryFecFill_def selectRecoverableSet_def newSlotAccumulator_def)
  moreover have "tryFlushBatches env ?b ?w1 [] = Some (?b, w\<lparr>w_ticks := w_ticks w + 3\<rparr>, [])"
    using only_max_waits [OF assms(1) m, of ?w1 "[]"] assms(2)
    by (simp add: newSlotAccumulator_def numeral_3_eq_3)
  ultimately have "pushData env 0xFFFFFFFF fec handle pEnd True False (newSlotAccumulator c) w =
      Some (?b, w\<lparr>w_ticks := w_ticks w + 3\<rparr>, [])"
    by (simp add: pushData_def Let_def time_now_def newSlotAccumulator_def)
  with m show ?thesis by (auto simp: newSlotAccumulator_def)
qed

section \<open>Properties\<close>

text \<open>
  Property C11. The accumulator's operations terminate. If no batch end recorded so far has the
  largest 32-bit index and no FEC set reaches it, and the pending map does not fill the index
  space, then pushing a data shred with a smaller index, pushing a coding shred and harvesting the
  tail all return, whatever the bytes, the clock and the map orders are; the pushes keep the condition.\<close>

theorem accumulator_operations_return:
  assumes "good H a w" and "no_max a" and "length (pending a) + 65536 < 2 ^ 32"
    and "index \<noteq> 0xFFFFFFFF" and "unat fecIdx + 65535 < 2 ^ 32"
  shows "(\<exists>b v out. pushData env index fec handle pEnd bc isLast a w = Some (b, v, out) \<and> no_max b) \<and>
    (\<exists>b v out. pushCode env fecIdx numData numCoding position coded variant a w = Some (b, v, out) \<and> no_max b) \<and>
    (\<exists>b v out. tryHarvestTail env a w = Some (b, v, out))"
  using pushData_terminates [OF assms(2,4)] pushCode_terminates [OF assms(2)] assms(3,5)
    tryHarvestTail_returns [OF assms(1,2), of env]
  by fastforce

theorem accumulator_operations_return_witness:
  "\<exists>b v out. pushData demo_env 5 0 None 100 True False (newSlotAccumulator DefaultAccumulatorConfig) demo_world =
     Some (b, v, out) \<and> no_max b"
proof -
  have "no_max (newSlotAccumulator DefaultAccumulatorConfig)"
    by (simp add: no_max_def newSlotAccumulator_def)
  from accumulator_operations_return [OF demo_world_good this, of 5 0] show ?thesis
    by (simp add: newSlotAccumulator_def)
qed

text \<open>
  Property C27. The condition on the largest index is needed. If a slot's first shred has index
  0xFFFFFFFF and the batch-complete flag, its push returns without output; the next call that
  flushes after the batch timeout, here a last-in-slot shred, never returns: the
  batch start saturates at 0xFFFFFFFF, the batch end there is not removed, and the
  loop over the indices up to 0xFFFFFFFF wraps around.\<close>

theorem max_index_shred_hangs:
  assumes "fair_env env"
    and "clock env (w_ticks w + 2) - clock env (w_ticks w) < StuckBatchTimeout c"
    and "clock env (w_ticks w + 4) - clock env (w_ticks w) \<ge> StuckBatchTimeout c"
  shows "\<exists>b v. pushData env 0xFFFFFFFF fec handle pEnd True False (newSlotAccumulator c) w = Some (b, v, []) \<and>
    pushData env index fec' handle' pEnd' bc True b v = None"
proof -
  obtain b where b: "pushData env 0xFFFFFFFF fec handle pEnd True False (newSlotAccumulator c) w =
      Some (b, w\<lparr>w_ticks := w_ticks w + 3\<rparr>, [])" "only_max (clock env (w_ticks w)) b" "cfg b = c"
    using first_max_push [OF assms(1,2)] by blast
  let ?v = "release_handle handle' (w\<lparr>w_ticks := w_ticks w + 3\<rparr>)"
  have "tryFlushBatches env (b\<lparr>slotComplete := True\<rparr>) ?v [] = None"
    using assms b(2,3)
    by (intro only_max_diverges [where ?t0.0 = "clock env (w_ticks w)"])
      (simp_all add: only_max_def release_handle_def add.commute [of _ 4])
  then have "pushData env index fec' handle' pEnd' bc True b (w\<lparr>w_ticks := w_ticks w + 3\<rparr>) = None"
    by (simp add: pushData_def)
  with b(1) show ?thesis by blast
qed

theorem max_index_shred_hangs_witness:
  "\<exists>b v. pushData demo_env 0xFFFFFFFF 0 None 100 True False
       (newSlotAccumulator \<lparr>MaxFECSetsPerSlot = 128, StuckBatchTimeout = 3\<rparr>) demo_world = Some (b, v, []) \<and>
     pushData demo_env 7 0 None 100 False True b v = None"
  using max_index_shred_hangs [OF demo_env_fair, of demo_world "\<lparr>MaxFECSetsPerSlot = 128, StuckBatchTimeout = 3\<rparr>"]
  by (simp add: demo_env_def demo_world_def)

end
