(* ===== verification/Accumulator_Delivery.thy ===== *)
theory Accumulator_Delivery
  imports Accumulator_Term
begin

text \<open>
  What the accumulator delivers: the transactions of a batch whose shreds arrive in order, each
  once per signature, and that a complete batch is delivered from its pending shreds even when
  streaming has failed.
\<close>

section \<open>Fresh transactions\<close>

definition first_sig :: "VersionedTransaction \<Rightarrow> Signature" where
  "first_sig tx = hd (Signatures tx)"

text \<open>The transactions whose first signature has not been seen, in order, each signature once.\<close>

fun fresh :: "Signature list \<Rightarrow> VersionedTransaction list \<Rightarrow> VersionedTransaction list" where
  "fresh ys [] = []"
| "fresh ys (t # ts) =
     (if Signatures t = [] \<or> first_sig t \<in> set ys then fresh ys ts else t # fresh (first_sig t # ys) ts)"

abbreviation seen :: "Signature list \<Rightarrow> VersionedTransaction list \<Rightarrow> Signature list" where
  "seen ys txs \<equiv> rev (map first_sig (fresh ys txs)) @ ys"

lemma emitTxs_fresh:
  "emitTxs txs a out = (a\<lparr>yieldedSigs := seen (yieldedSigs a) txs\<rparr>, out @ fresh (yieldedSigs a) txs,
     length (fresh (yieldedSigs a) txs))"
proof (induction txs arbitrary: a out)
  case (Cons t ts)
  have r: "recordSig t a = (if Signatures t = [] \<or> first_sig t \<in> set (yieldedSigs a) then (False, a)
      else (True, a\<lparr>yieldedSigs := first_sig t # yieldedSigs a\<rparr>))"
    by (cases "Signatures t") (simp_all add: recordSig_def first_sig_def)
  show ?case by (simp add: r Cons.IH)
qed simp

lemma fresh_append: "fresh ys (xs @ zs) = fresh ys xs @ fresh (seen ys xs) zs"
  by (induction xs arbitrary: ys) auto

lemma seen_append: "seen ys (xs @ zs) = seen (seen ys xs) zs"
  by (simp add: fresh_append)

lemma fresh_distinct: "distinct (map first_sig (fresh ys xs)) \<and> first_sig ` set (fresh ys xs) \<inter> set ys = {}"
proof (induction xs arbitrary: ys)
  case (Cons t ts)
  then show ?case using Cons.IH [of ys] Cons.IH [of "first_sig t # ys"] by auto
qed simp

lemma fresh_subset: "set (fresh ys xs) \<subseteq> {t \<in> set xs. Signatures t \<noteq> []}"
  by (induction xs arbitrary: ys) auto

lemma fresh_covers:
  "t \<in> set xs \<Longrightarrow> Signatures t \<noteq> [] \<Longrightarrow> first_sig t \<in> set (seen ys xs)"
proof (induction xs arbitrary: ys)
  case (Cons u us)
  have mono: "set ys \<subseteq> set (seen zs us)" if "set ys \<subseteq> set zs" for zs using that by auto
  show ?case
  proof (cases "t = u")
    case True
    then show ?thesis using Cons.prems mono [of "first_sig u # ys"] by auto
  next
    case False
    then show ?thesis using Cons.prems Cons.IH [of ys] Cons.IH [of "first_sig u # ys"] by auto
  qed
qed simp

lemma fresh_seen: "set xs \<subseteq> set zs \<Longrightarrow> fresh (seen ys zs) xs = []"
proof (induction xs)
  case (Cons t ts)
  then have "Signatures t = [] \<or> first_sig t \<in> set (seen ys zs)" using fresh_covers by auto
  with Cons show ?case by auto
qed simp

section \<open>Runs of shreds\<close>

type_synonym arrival = "BufferHandle option \<times> u16"

definition mk_shred :: "u32 \<Rightarrow> bool \<Rightarrow> arrival \<Rightarrow> pendingShred" where
  "mk_shred fec bc x = \<lparr>source = PoolPayload (fst x), payloadEnd = snd x, batchComplete = bc,
     pd_fecSetIndex = fec\<rparr>"

fun shreds_at :: "u32 \<Rightarrow> pendingShred list \<Rightarrow> (u32 \<times> pendingShred) list" where
  "shreds_at i [] = []"
| "shreds_at i (x # xs) = (i, x) # shreds_at (i + 1) xs"

lemma map_fst_shreds_at:
  "unat s + length xs = unat e + 1 \<Longrightarrow> e \<noteq> 0xFFFFFFFF \<Longrightarrow> map fst (shreds_at s xs) = range32 s e"
proof (induction s xs rule: shreds_at.induct)
  case (1 s)
  then show ?case by (simp add: range32_empty word_le_nat_alt)
next
  case (2 s x xs)
  then have le: "s \<le> e" by (simp add: word_le_nat_alt)
  with "2.prems" "2.IH" show ?case
    by (simp add: range32_step u32_next [OF u32_below_max])
qed

lemma map_snd_shreds_at: "map snd (shreds_at s xs) = xs"
  by (induction s xs rule: shreds_at.induct) simp_all

lemma shreds_at_append: "shreds_at s (xs @ ys) = shreds_at s xs @ shreds_at (s + of_nat (length xs)) ys"
  by (induction s xs rule: shreds_at.induct) (simp_all add: ac_simps)

lemma distinct_range32: "distinct (range32 s e)"
proof -
  have "inj_on (of_nat :: nat \<Rightarrow> u32) (set [unat s..<Suc (unat e)])"
  proof (rule inj_onI)
    fix x y
    assume "x \<in> set [unat s..<Suc (unat e)]" "y \<in> set [unat s..<Suc (unat e)]" "(of_nat x :: u32) = of_nat y"
    then show "x = y" using u32_bound [of e] by (simp add: word_unat_eq_iff unat_of_nat del: upt_Suc)
  qed
  then show ?thesis by (simp add: range32_def distinct_map del: upt_Suc)
qed

lemma gathered_all:
  "distinct (map fst pd) \<Longrightarrow> gathered p pd (map fst pd) = concat (map (\<lambda>e. payload_or_empty p (snd e)) pd)"
  by (auto simp: gathered_def intro!: arg_cong [where f = concat])

lemma count_all: "map fst (pending a) = range32 s e \<Longrightarrow> countPendingInRange a s e = length (pending a)"
proof -
  assume k: "map fst (pending a) = range32 s e"
  then have "filter (\<lambda>i. map_of (pending a) i \<noteq> None) (range32 s e) = range32 s e"
    by (intro filter_True) (metis in_set_conv_decomp map_of_eq_None_iff set_map)
  then show ?thesis using k by (metis countPendingInRange_def length_map)
qed

section \<open>Output only grows\<close>

lemma salvageLoop_appends: "salvageLoop p c e a out n = (b, out', m) \<Longrightarrow> \<exists>more. out' = out @ more"
proof (induction p c e a out n arbitrary: b out' m rule: salvageLoop.induct)
  case (1 p c e a out n)
  show ?case
  proof (cases "c \<le> e \<and> (\<exists>c1. skipMissing (pending a) c e = Some c1 \<and> \<not> e < c1)")
    case False
    then show ?thesis
      using "1.prems" by (subst (asm) salvageLoop.simps) (auto split: if_splits option.splits)
  next
    case True
    then obtain c1 where c1: "skipMissing (pending a) c e = Some c1" "\<not> e < c1" and le: "c \<le> e" by blast
    obtain c2 rd s where run: "collectRun p (pending a) c1 e [] = (c2, rd, s)" by (metis prod_cases3)
    obtain a1 out1 k where em:
      "(if s \<noteq> [] then emitTxs (DecodeConcatenated s) a out else (a, out, 0)) = (a1, out1, k)"
      by (metis prod_cases3)
    then obtain m1 where out1: "out1 = out @ m1" by (auto simp: emitTxs_fresh split: if_splits)
    have step: "salvageLoop p c e a out n =
        (if rd then (a1, out1, n + k) else salvageLoop p c2 e a1 out1 (n + k))"
      using c1 le run em by (subst salvageLoop.simps) simp
    show ?thesis
    proof (cases rd)
      case True
      then show ?thesis using "1.prems" step out1 by auto
    next
      case False
      have "\<exists>more. out' = out1 @ more"
        by (rule "1.IH" [OF le c1(1,2) run [symmetric] refl em [symmetric] refl False])
          (use "1.prems" step False in simp)
      then show ?thesis using out1 by auto
    qed
  qed
qed

lemma salvageBatch_appends: "salvageBatch p s e a out = (b, out') \<Longrightarrow> \<exists>more. out' = out @ more"
  by (auto simp: salvageBatch_def salvageContiguousRunsIn_def dest!: salvageLoop_appends
      split: prod.splits if_splits)

lemma decodeFlushed_appends: "decodeFlushed s a out = (b, out') \<Longrightarrow> \<exists>more. out' = out @ more"
  by (auto simp: decodeFlushed_def emitTxs_fresh split: sum.splits if_splits)

lemma completeBatch_start: "completeBatch env e a w = (b, v) \<Longrightarrow> e \<le> batchStart b"
  using completeBatch_fields(3) saturatingAddU32_mono_left by simp

lemma fill_batchStart: "tryFecFill env h a w = (f, b, v) \<Longrightarrow> batchStart b = batchStart a"
proof -
  have step: "batchStart (fst (recover_step env s r st)) = batchStart (fst st)" for s r st
    by (cases st) (auto simp: recover_step_def Let_def time_now_def split: sum.splits ShredKind.splits)
  have fld: "batchStart (fst (fold (recover_step env s) rs st)) = batchStart (fst st)" for s rs st
    by (induction rs arbitrary: st) (simp_all add: step)
  have res: "fold (recover_step env s) rs (a, w, any0) = (b, v, any1) \<Longrightarrow> batchStart b = batchStart a"
    for s rs a w any0 b v any1 using fld [of s rs "(a, w, any0)"] by simp
  show "tryFecFill env h a w = (f, b, v) \<Longrightarrow> batchStart b = batchStart a"
    by (auto simp: tryFecFill_def Let_def dest!: res split: option.splits if_splits prod.splits sum.splits)
qed

lemma fillAll_batchStart: "fillAll env hs a w = (b, v) \<Longrightarrow> batchStart b = batchStart a"
proof (induction hs arbitrary: a w)
  case (Cons h hs)
  obtain f a1 w1 where s: "tryFecFill env h a w = (f, a1, w1)" by (metis prod_cases3)
  from Cons.IH [of a1 w1] fill_batchStart [OF s] Cons.prems s show ?case by (simp add: fillAll_def)
qed (simp add: fillAll_def)

lemma flushRound_appends:
  assumes "flushRound env (a, w, out) = Some (again, b, v, out')"
  shows "(\<exists>more. out' = out @ more) \<and> batchStart a \<le> batchStart b"
proof (cases "smallestBatchCompleteIdxFrom (batchStart a) a")
  case None
  then show ?thesis using assms by (auto simp: flushRound_def)
next
  case (Some bt)
  obtain e t0 where bt: "bt = (e, t0)" by fastforce
  let ?s = "batchStart a" and ?ex = "unat (e - batchStart a) + 1"
  have le: "?s \<le> e" using smallest_in [OF Some [unfolded bt]] by simp
  obtain a1 w1 where fill: "(if countPendingInRange a ?s e < ?ex
      then fillForFlush env ?s e a w else (a, w)) = (a1, w1)" by fastforce
  have b1: "batchStart a1 = ?s"
    using fill by (auto simp: fillForFlush_def order32_def dest: fillAll_batchStart split: if_splits)
  obtain a2 out2 where sal: "salvageBatch (w_pool w1) ?s e a1 out = (a2, out2)" by fastforce
  show ?thesis
  proof (cases "countPendingInRange a1 ?s e < ?ex")
    case True
    let ?a2 = "a2\<lparr>batchesForceFinalizedTimeout := batchesForceFinalizedTimeout a2 + 1\<rparr>"
    let ?w2 = "w1\<lparr>w_ticks := Suc (w_ticks w1)\<rparr>"
    obtain b2 v2 where c2: "completeBatch env e ?a2 ?w2 = (b2, v2)" by fastforce
    have "flushRound env (a, w, out) =
       (if clock env (w_ticks w1) - t0 \<ge> StuckBatchTimeout (cfg a1) then Some (True, b2, v2, out2)
        else Some (False, a1, ?w2, out))"
      using True Some bt fill sal c2 by (simp add: flushRound_def Let_def time_now_def)
    then show ?thesis
      using assms b1 le salvageBatch_appends [OF sal] completeBatch_start [OF c2]
      by (auto split: if_splits)
  next
    case False
    obtain scratch where ga: "gatherLoop (w_pool w1) (pending a1) ?s e [] = Some scratch"
      using assms Some bt fill False by (auto simp: flushRound_def Let_def bind_eq_Some_conv)
    obtain a3 out3 where dec: "decodeFlushed scratch a1 out = (a3, out3)" by fastforce
    obtain b3 v3 where c3: "completeBatch env e a3 w1 = (b3, v3)" by fastforce
    have "flushRound env (a, w, out) = Some (True, b3, v3, out3)"
      using Some bt fill False ga dec c3 by (simp add: flushRound_def Let_def)
    then show ?thesis
      using assms le decodeFlushed_appends [OF dec] completeBatch_start [OF c3] by auto
  qed
qed

lemma tryFlushBatches_appends:
  assumes "tryFlushBatches env a w out = Some (b, v, out')"
  shows "(\<exists>more. out' = out @ more) \<and> batchStart a \<le> batchStart b"
proof -
  let ?I = "\<lambda>(c, u, o'). (\<exists>more. o' = out @ more) \<and> batchStart a \<le> batchStart c"
  have "?I (b, v, out')"
  proof (rule go_loop_invariant [where I = ?I, OF assms [unfolded tryFlushBatches_def]])
    fix st again and st' :: acc_state
    assume I: "?I st" and r: "flushRound env st = Some (again, st')"
    obtain c u o1 d u2 o2 where st: "st = (c, u, o1)" "st' = (d, u2, o2)" by (metis prod_cases3)
    with r have "(\<exists>more. o2 = o1 @ more) \<and> batchStart c \<le> batchStart d" using flushRound_appends by blast
    then show "?I st'" using I st by auto
  qed simp
  then show ?thesis by simp
qed

section \<open>Flushing a complete batch\<close>

lemma count_present:
  assumes "\<forall>i \<in> set (range32 s e). map_of (pending a) i \<noteq> None" and "s \<le> e"
  shows "countPendingInRange a s e = unat (e - s) + 1"
proof -
  have "filter (\<lambda>i. map_of (pending a) i \<noteq> None) (range32 s e) = range32 s e"
    using assms(1) by (intro filter_True) blast
  moreover have "unat (e - s) = unat e - unat s" using assms(2) by (simp add: unat_sub)
  ultimately show ?thesis
    using assms(2) by (simp add: countPendingInRange_def length_range32 word_le_nat_alt)
qed

lemma flushRound_complete:
  assumes "smallestBatchCompleteIdxFrom (batchStart a) a = Some (e, t)" and "e \<noteq> 0xFFFFFFFF"
    and "\<forall>i \<in> set (range32 (batchStart a) e). map_of (pending a) i \<noteq> None"
    and "DecodeBatch (gathered (w_pool w) (pending a) (range32 (batchStart a) e)) = Inr txs"
  defines "n \<equiv> length (fresh (yieldedSigs a) txs)"
  shows "flushRound env (a, w, out) =
    (case completeBatch env e (if txs = []
         then a\<lparr>decodeErrors := decodeErrors a + 1, batchesSkipped := batchesSkipped a + 1\<rparr>
         else if n > 0 then a\<lparr>yieldedSigs := seen (yieldedSigs a) txs,
                              batchesDecodedFallback := batchesDecodedFallback a + 1\<rparr>
         else a\<lparr>yieldedSigs := seen (yieldedSigs a) txs,
                batchesDecodedStreaming := batchesDecodedStreaming a + 1\<rparr>) w of
       (b, v) \<Rightarrow> Some (True, b, v, out @ fresh (yieldedSigs a) txs))"
proof -
  have "batchStart a \<le> e" using smallest_in [OF assms(1)] by simp
  then show ?thesis
    using assms(1,2,4) count_present [OF assms(3)]
    by (simp add: flushRound_def Let_def gatherLoop_returns decodeFlushed_def emitTxs_fresh n_def)
qed

section \<open>Shreds that arrive in order\<close>

text \<open>
  The shreds of a batch, pushed in the order of their indices from \<open>i\<close> on; the last one carries the
  batch-complete flag, and none the flag of the last shred in its slot, with which \<open>pushData\<close> would discard
  it. The output is the concatenation of what the pushes return.
\<close>

fun pushRun :: "environ \<Rightarrow> u32 \<Rightarrow> u32 \<Rightarrow> arrival list \<Rightarrow> slotAccumulator \<Rightarrow> world \<Rightarrow> acc_state option" where
  "pushRun env i fec [] a w = Some (a, w, [])"
| "pushRun env i fec (x # xs) a w =
     Option.bind (pushData env i fec (fst x) (snd x) (xs = []) False a w) (\<lambda>(a, w, out).
       Option.bind (pushRun env (i + 1) fec xs a w) (\<lambda>(a, w, out'). Some (a, w, out @ out')))"

definition arr_payload :: "bufferPool \<Rightarrow> arrival \<Rightarrow> byte list option" where
  "arr_payload p x = pd_payload p (mk_shred 0 False x)"

lemma pd_payload_mk [simp]: "pd_payload p (mk_shred fec bc x) = arr_payload p x"
  by (simp add: arr_payload_def pd_payload_def mk_shred_def)

text \<open>The state between two batches.\<close>

definition at_batch_start :: "u32 \<Rightarrow> slotAccumulator \<Rightarrow> bool" where
  "at_batch_start i a \<longleftrightarrow> pending a = [] \<and> batchCompleteIdx a = [] \<and> batchStart a = i \<and>
     streamingCursor a = i \<and> streamingDecoder a = NewStreamingDecoder \<and> yieldedSigs a = []"

text \<open>In the middle of a batch: the shreds from the batch start up to the cursor are pending.\<close>

definition mid_batch :: "pendingShred list \<Rightarrow> slotAccumulator \<Rightarrow> bool" where
  "mid_batch ps a \<longleftrightarrow> pending a = shreds_at (batchStart a) ps \<and> batchCompleteIdx a = [] \<and>
     streamingCursor a = batchStart a + of_nat (length ps) \<and> unat (batchStart a) + length ps < 4294967295"

lemma keys_below:
  assumes "unat s + length ps < 4294967295" and "(s + of_nat (length ps)) \<le> k"
  shows "map_of (shreds_at s ps) k = None"
  using assms
proof (induction s ps rule: shreds_at.induct)
  case (2 s x xs)
  then have "s \<noteq> 0xFFFFFFFF" by auto
  then have n: "unat (s + 1) = Suc (unat s)" by (rule u32_next)
  have "unat (s + of_nat (length (x # xs))) = unat s + length (x # xs)"
    using "2.prems"(1) by (simp add: unat_word_ariths unat_of_nat)
  then have "unat s < unat k" using "2.prems"(2) by (simp add: word_le_nat_alt)
  then have "k \<noteq> s" by auto
  moreover have "map_of (shreds_at (s + 1) xs) k = None"
    using 2 n by (intro "2.IH") (simp_all add: ac_simps)
  ultimately show ?case by simp
qed simp

lemma mid_batch_cursor:
  assumes "mid_batch ps a"
  shows "unat (streamingCursor a) = unat (batchStart a) + length ps"
  using assms by (simp add: mid_batch_def unat_word_ariths unat_of_nat)

lemma mid_batch_free:
  assumes "mid_batch ps a"
  shows "map_of (pending a) (streamingCursor a) = None" "map_of (pending a) (streamingCursor a + 1) = None"
    "batchStart a \<le> streamingCursor a" "streamingCursor a \<noteq> 0xFFFFFFFF"
proof -
  note c = mid_batch_cursor [OF assms]
  then have lt: "unat (streamingCursor a) < 4294967295" using assms by (simp add: mid_batch_def)
  then show ne: "streamingCursor a \<noteq> 0xFFFFFFFF" by auto
  show "map_of (pending a) (streamingCursor a) = None"
    using assms keys_below [of "batchStart a" ps] by (simp add: mid_batch_def)
  have "streamingCursor a \<le> streamingCursor a + 1" by (simp add: word_le_nat_alt u32_next [OF ne])
  then show "map_of (pending a) (streamingCursor a + 1) = None"
    using assms keys_below [of "batchStart a" ps "streamingCursor a + 1"] by (simp add: mid_batch_def)
  show "batchStart a \<le> streamingCursor a" using c by (simp add: word_le_nat_alt)
qed

lemma update_absent: "map_of xs k = None \<Longrightarrow> AList.update k v xs = xs @ [(k, v)]"
  by (induction xs) (auto split: if_splits)

text \<open>The state after the shred \<open>x\<close> at the cursor has been streamed.\<close>

definition streamed :: "u32 \<Rightarrow> bool \<Rightarrow> arrival \<Rightarrow> StreamingDecoder \<Rightarrow> VersionedTransaction list
    \<Rightarrow> slotAccumulator \<Rightarrow> slotAccumulator" where
  "streamed fec bc x d txs a = a\<lparr>pending := pending a @ [(streamingCursor a, mk_shred fec bc x)],
     streamingCursor := streamingCursor a + 1, streamingDecoder := d,
     yieldedSigs := seen (yieldedSigs a) txs\<rparr>"

lemma stream_shred:
  assumes "mid_batch ps a" and "arr_payload (w_pool w) x = Some c" and "Push (streamingDecoder a) c = (d, Inr txs)"
    and "b = a\<lparr>pending := pending a @ [(streamingCursor a, mk_shred fec bc x)], batchCompleteIdx := bci\<rparr>"
  shows "advanceStreaming env b w [] =
    Some ((streamed fec bc x d txs a)\<lparr>batchCompleteIdx := bci\<rparr>, w, fresh (yieldedSigs a) txs)"
proof -
  let ?b = "(streamed fec bc x d txs a)\<lparr>batchCompleteIdx := bci\<rparr>" and ?out = "fresh (yieldedSigs a) txs"
  note free = mid_batch_free [OF assms(1)]
  have "source (mk_shred fec bc x) = PoolPayload (fst x)" "batchComplete (mk_shred fec bc x) = bc"
    by (simp_all add: mk_shred_def)
  then have one: "advanceRound env (b, w, []) = (\<not> bc, ?b, w, ?out)"
    using assms(2-4) free(1)
    by (simp add: advanceRound_def map_add_def Let_def emitTxs_fresh streamed_def)
  have "map_of (pending ?b) (streamingCursor ?b) = None"
    using free(2) by (simp add: streamed_def map_add_def)
  then have two: "advanceRound env (?b, w, ?out) = (False, ?b, w, ?out)"
    by (simp add: advanceRound_def)
  have "go_loop (\<lambda>st. Some (advanceRound env st)) (?b, w, ?out) = Some (?b, w, ?out)"
    by (subst go_loop.simps) (simp add: two)
  then show ?thesis
    unfolding advanceStreaming_def by (subst go_loop.simps, cases bc) (simp_all add: one)
qed

lemma streamed_cursor:
  assumes "mid_batch ps a"
  shows "\<not> streamingCursor ((streamed fec bc x d txs a)\<lparr>batchCompleteIdx := bci\<rparr>) \<le> streamingCursor a"
  using u32_next [OF mid_batch_free(4) [OF assms]] by (simp add: streamed_def word_le_nat_alt)

lemma push_middle:
  assumes "mid_batch ps a" and "arr_payload (w_pool w) x = Some c" and "Push (streamingDecoder a) c = (d, Inr txs)"
  shows "pushData env (streamingCursor a) fec (fst x) (snd x) False False a w =
    Some (streamed fec False x d txs a, w, fresh (yieldedSigs a) txs)"
proof -
  let ?b = "a\<lparr>pending := pending a @ [(streamingCursor a, mk_shred fec False x)]\<rparr>"
  have bci: "batchCompleteIdx a = []" using assms(1) by (simp add: mid_batch_def)
  have s: "advanceStreaming env ?b w [] = Some (streamed fec False x d txs a, w, fresh (yieldedSigs a) txs)"
    using stream_shred [OF assms, where b = ?b and fec = fec and bc = False and bci = "batchCompleteIdx a"]
    by (cases a) (simp add: streamed_def)
  have "tryFlushBatches env (streamed fec False x d txs a) w out = Some (streamed fec False x d txs a, w, out)" for out
    unfolding tryFlushBatches_def
    by (subst go_loop.simps) (simp add: flushRound_def smallestBatchCompleteIdxFrom_def streamed_def bci)
  moreover have "\<not> streamingCursor (streamed fec False x d txs a) \<le> streamingCursor a"
    using streamed_cursor [OF assms(1)] by (simp add: streamed_def)
  ultimately show ?thesis
    using mid_batch_free(1,3) [OF assms(1)] s
    by (simp add: pushData_def Let_def leD update_absent mk_shred_def)
qed

lemma shreds_payload:
  assumes "mid_batch ps a"
  shows "gathered p (pending (streamed fec bc x d txs a)) (range32 (batchStart a) (streamingCursor a)) =
      concat (map (payload_or_empty p) ps) @ payload_or_empty p (mk_shred fec bc x)"
    and "\<forall>i \<in> set (range32 (batchStart a) (streamingCursor a)). map_of (pending (streamed fec bc x d txs a)) i \<noteq> None"
    and "map fst (pending (streamed fec bc x d txs a)) = range32 (batchStart a) (streamingCursor a)"
proof -
  let ?ps = "ps @ [mk_shred fec bc x]" and ?r = "range32 (batchStart a) (streamingCursor a)"
  have pd: "pending (streamed fec bc x d txs a) = shreds_at (batchStart a) ?ps"
    using assms by (simp add: streamed_def shreds_at_append mid_batch_def)
  have keys: "map fst (shreds_at (batchStart a) ?ps) = ?r"
    using mid_batch_cursor [OF assms] mid_batch_free(4) [OF assms] by (intro map_fst_shreds_at) simp_all
  have "gathered p (shreds_at (batchStart a) ?ps) ?r
      = concat (map (payload_or_empty p) (map snd (shreds_at (batchStart a) ?ps)))"
    using gathered_all [of "shreds_at (batchStart a) ?ps" p] distinct_range32 by (simp add: keys comp_def)
  then show "gathered p (pending (streamed fec bc x d txs a)) ?r =
      concat (map (payload_or_empty p) ps) @ payload_or_empty p (mk_shred fec bc x)"
    by (simp add: pd map_snd_shreds_at)
  show k: "map fst (pending (streamed fec bc x d txs a)) = ?r" using pd keys by simp
  then show "\<forall>i \<in> set ?r. map_of (pending (streamed fec bc x d txs a)) i \<noteq> None"
    by (metis map_of_eq_None_iff set_map)
qed

lemma completeBatch_resets:
  assumes "completeBatch env e a w = (b, v)"
  shows "streamingCursor b = max (streamingCursor a) (saturatingAddU32 e 1)"
    "streamingDecoder b = NewStreamingDecoder" "yieldedSigs b = []" "decodeErrors b = decodeErrors a"
  using assms [symmetric]
  by (auto simp: completeBatch_def Let_def Reset_def NewStreamingDecoder_def max_def)

lemma push_last:
  assumes "mid_batch ps a" and "arr_payload (w_pool w) x = Some c" and "Push (streamingDecoder a) c = (d, Inr txs)"
    and "DecodeBatch (concat (map (payload_or_empty (w_pool w)) ps) @ c) = Inr all"
    and "fresh (seen (yieldedSigs a) txs) all = []"
  shows "\<exists>b v. pushData env (streamingCursor a) fec (fst x) (snd x) True False a w =
      Some (b, v, fresh (yieldedSigs a) txs) \<and> at_batch_start (streamingCursor a + 1) b \<and>
      decodeErrors b = (if all = [] then decodeErrors a + 1 else decodeErrors a)"
proof -
  let ?i = "streamingCursor a" and ?t = "clock env (w_ticks w)" and ?w = "w\<lparr>w_ticks := Suc (w_ticks w)\<rparr>"
  let ?a1 = "(streamed fec True x d txs a)\<lparr>batchCompleteIdx := [(?i, ?t)]\<rparr>" and ?out = "fresh (yieldedSigs a) txs"
  note free = mid_batch_free [OF assms(1)]
  have bci: "batchCompleteIdx a = []" using assms(1) by (simp add: mid_batch_def)
  have bs: "batchStart ?a1 = batchStart a" "pending ?a1 = pending (streamed fec True x d txs a)"
    "yieldedSigs ?a1 = seen (yieldedSigs a) txs" "streamingCursor ?a1 = ?i + 1" "decodeErrors ?a1 = decodeErrors a"
    by (simp_all add: streamed_def)
  have s: "advanceStreaming env (a\<lparr>pending := pending a @ [(?i, mk_shred fec True x)],
      batchCompleteIdx := [(?i, ?t)]\<rparr>) ?w [] = Some (?a1, ?w, ?out)"
    using stream_shred [OF assms(1) _ assms(3), of ?w x] assms(2) by simp
  have "payload_or_empty (w_pool w) (mk_shred fec True x) = c" using assms(2) by (simp add: payload_or_empty_def)
  then have dec: "DecodeBatch (gathered (w_pool ?w) (pending ?a1) (range32 (batchStart ?a1) ?i)) = Inr all"
    using shreds_payload(1) [OF assms(1), of "w_pool w" fec True x d txs] assms(4) by (simp add: bs)
  have sm: "smallestBatchCompleteIdxFrom (batchStart ?a1) ?a1 = Some (?i, ?t)"
    using free(3) by (simp add: smallestBatchCompleteIdxFrom_def bs not_less)
  define a2 where "a2 = (if all = []
     then ?a1\<lparr>decodeErrors := decodeErrors ?a1 + 1, batchesSkipped := batchesSkipped ?a1 + 1\<rparr>
     else ?a1\<lparr>yieldedSigs := seen (yieldedSigs ?a1) all, batchesDecodedStreaming := batchesDecodedStreaming ?a1 + 1\<rparr>)"
  have a2: "pending a2 = pending ?a1" "batchCompleteIdx a2 = [(?i, ?t)]" "streamingCursor a2 = ?i + 1"
    "decodeErrors a2 = (if all = [] then decodeErrors a + 1 else decodeErrors a)"
    by (simp_all add: a2_def streamed_def)
  obtain b v where cb: "completeBatch env ?i a2 ?w = (b, v)" by fastforce
  have one: "flushRound env (?a1, ?w, ?out) = Some (True, b, v, ?out)"
    using flushRound_complete [OF sm free(4) _ dec, where env = env and out = ?out]
      shreds_payload(2) [OF assms(1)] assms(5) cb
    unfolding a2_def by (cases "all = []") (simp_all add: bs)
  have nxt: "saturatingAddU32 ?i 1 = ?i + 1"
    using u32_next [OF free(4)] u32_bound [of "?i + 1"] by (simp add: word_unat_eq_iff)
  have below: "k < ?i + 1" if "k \<le> ?i" for k
    using that u32_next [OF free(4)] by (simp add: word_le_nat_alt word_less_nat_alt)
  have "\<forall>k \<in> set (map fst (pending a2)). k < ?i + 1"
    using shreds_payload(3) [OF assms(1), of fec True x d txs] below by (simp only: a2 bs in_range32 Ball_def) simp
  then have "pending b = []"
    unfolding completeBatch_fields(1) [OF cb] nxt by (auto simp: filter_empty_conv)
  then have ab: "at_batch_start (?i + 1) b"
    using completeBatch_fields(2,3) [OF cb] completeBatch_resets [OF cb] below [OF order_refl]
    by (simp add: at_batch_start_def nxt a2)
  have "flushRound env (b, v, ?out) = Some (False, b, v, ?out)"
    using ab by (simp add: flushRound_def smallestBatchCompleteIdxFrom_def at_batch_start_def)
  then have "go_loop (flushRound env) (b, v, ?out) = Some (b, v, ?out)" by (subst go_loop.simps) simp
  then have fl: "tryFlushBatches env ?a1 ?w ?out = Some (b, v, ?out)"
    unfolding tryFlushBatches_def by (subst go_loop.simps) (simp add: one)
  have "pushData env ?i fec (fst x) (snd x) True False a w = Some (b, v, ?out)"
    using free(1,3) s fl streamed_cursor [OF assms(1)]
    by (simp add: pushData_def Let_def leD update_absent mk_shred_def bci time_now_def)
  then show ?thesis using ab completeBatch_resets(4) [OF cb] a2(4) by auto
qed

lemma mid_batch_streamed:
  assumes "mid_batch ps a" and "unat (batchStart a) + length ps < 4294967294"
  shows "mid_batch (ps @ [mk_shred fec False x]) (streamed fec False x d txs a)"
  using assms by (simp add: mid_batch_def streamed_def shreds_at_append ac_simps)

lemma pushRun_mid:
  assumes "mid_batch ps a" and "xs \<noteq> []" and "unat (batchStart a) + length ps + length xs < 4294967296"
    and "list_all2 (\<lambda>x c. arr_payload (w_pool w) x = Some c) xs cs"
    and "push_all (streamingDecoder a) cs = (d, Inr txs)"
    and "DecodeBatch (concat (map (payload_or_empty (w_pool w)) ps) @ concat cs) = Inr all"
    and "fresh (seen (yieldedSigs a) txs) all = []"
  shows "\<exists>b v. pushRun env (streamingCursor a) fec xs a w = Some (b, v, fresh (yieldedSigs a) txs) \<and>
    at_batch_start (streamingCursor a + of_nat (length xs)) b \<and>
    decodeErrors b = (if all = [] then decodeErrors a + 1 else decodeErrors a)"
  using assms
proof (induction xs arbitrary: a ps cs txs)
  case (Cons x xs)
  from Cons.prems(4) obtain c cs' where cs: "cs = c # cs'" "arr_payload (w_pool w) x = Some c"
    and rest: "list_all2 (\<lambda>x c. arr_payload (w_pool w) x = Some c) xs cs'"
    by (auto simp: list_all2_Cons1)
  obtain d1 t1 ts where p: "Push (streamingDecoder a) c = (d1, Inr t1)"
    "push_all d1 cs' = (d, Inr ts)" "txs = t1 @ ts"
    using Cons.prems(5) by (auto simp: cs split: prod.splits sum.splits)
  show ?case
  proof (cases "xs = []")
    case True
    with rest p have "ts = []" by auto
    then show ?thesis
      using push_last [OF Cons.prems(1) cs(2) p(1), of all env fec] Cons.prems(6,7) True rest
      by (auto simp: cs p(3))
  next
    case False
    let ?a = "streamed fec False x d1 t1 a" and ?ps = "ps @ [mk_shred fec False x]"
    have len: "length xs > 0" using False by simp
    have f: "batchStart ?a = batchStart a" "yieldedSigs ?a = seen (yieldedSigs a) t1"
      "streamingCursor ?a = streamingCursor a + 1" "streamingDecoder ?a = d1" "decodeErrors ?a = decodeErrors a"
      by (simp_all add: streamed_def)
    have mid: "mid_batch ?ps ?a"
      by (rule mid_batch_streamed [OF Cons.prems(1)]) (use Cons.prems(3) len in \<open>simp only: list.size\<close>)
    have pl: "payload_or_empty (w_pool w) (mk_shred fec False x) = c"
      using cs(2) by (simp add: payload_or_empty_def)
    have "\<exists>b v. pushRun env (streamingCursor ?a) fec xs ?a w = Some (b, v, fresh (yieldedSigs ?a) ts) \<and>
      at_batch_start (streamingCursor ?a + of_nat (length xs)) b \<and>
      decodeErrors b = (if all = [] then decodeErrors ?a + 1 else decodeErrors ?a)"
      by (rule Cons.IH [OF mid False _ rest])
        (use Cons.prems(3,6,7) p in \<open>simp_all add: f cs pl seen_append [symmetric]\<close>)
    then show ?thesis
      using push_middle [OF Cons.prems(1) cs(2) p(1), of env fec] False
      by (auto simp: f p(3) fresh_append ac_simps)
  qed
qed simp

lemma batch_chunks_nonempty: "concat cs = enc_batch es \<Longrightarrow> cs \<noteq> []"
proof -
  assume "concat cs = enc_batch es"
  then have "8 \<le> length (concat cs)" by (simp add: enc_batch_def)
  then show ?thesis by auto
qed

lemma push_all_batch:
  assumes "wf_batch es" and "concat cs = enc_batch es" and "push_all NewStreamingDecoder cs = (d, Inr txs)"
  shows "txs = batch_txs es"
  using push_all_concat [OF NewStreamingDecoder_ok batch_chunks_nonempty [OF assms(2)] assms(3)]
    Push_batch [OF assms(1), of "[]"] assms(2)
  by auto

section \<open>A concrete batch\<close>

text \<open>A packet that carries the whole batch \<open>demo_batch\<close>, in the first buffer of a pool.\<close>

definition demo_packet :: "byte list" where
  "demo_packet = replicate 88 0 @ enc_batch demo_batch"

definition demo_loaded :: world where
  "demo_loaded = \<lparr>w_pool = \<lparr>freelist = [], buffers = [demo_packet], capacity = 1\<rparr>,
     w_cache = newReedSolomonCache, w_ticks = 0\<rparr>"

definition demo_arrival :: arrival where
  "demo_arrival = (Some \<lparr>attached = True, h_idx = 0, h_length = 401\<rparr>, 401)"

lemma length_demo_batch: "length (enc_batch demo_batch) = 313"
  by (simp add: demo_batch_def enc_batch_def enc_entry_def demo_tx_def enc_tx_def enc_message_def
      enc_header_def enc_instruction_def enc_lookup_def enc_vec_def encodeCompactU16_def)

lemma demo_payload: "arr_payload (w_pool demo_loaded) demo_arrival = Some (enc_batch demo_batch)"
  by (simp add: arr_payload_def pd_payload_def mk_shred_def demo_arrival_def demo_loaded_def Bytes_def
      demo_packet_def length_demo_batch DataHeaderSize_def subslice_def Let_def)

lemma fresh_demo: "fresh [] (batch_txs demo_batch) = [demo_tx]"
  by (simp add: demo_batch_def demo_tx_def first_sig_def)

section \<open>Properties\<close>

text \<open>
  Property C5. In-order delivery of a batch that does not close its slot. Starting between two batches,
  the shreds of an encoded batch, none of them flagged as the last of the slot, are
  pushed in the order of their indices, cut in any way on which the streaming decoder reports no
  error. Then the pushes return, their outputs together are exactly the transactions of the batch in
  order, without those that have no signature or repeat a first signature, and the accumulator is again
  between two batches, right after the last shred, whatever FEC sets, clock and map orders there
  are. A batch without transactions is counted as a decode error.\<close>

theorem in_order_batch_delivered:
  assumes "at_batch_start s a" and "wf_batch es"
    and "list_all2 (\<lambda>x c. arr_payload (w_pool w) x = Some c) xs cs" and "concat cs = enc_batch es"
    and "push_all NewStreamingDecoder cs = (d, Inr txs)" and "unat s + length xs < 2 ^ 32"
  shows "\<exists>b v. pushRun env s fec xs a w = Some (b, v, fresh [] (batch_txs es)) \<and>
    at_batch_start (s + of_nat (length xs)) b \<and>
    decodeErrors b = (if batch_txs es = [] then decodeErrors a + 1 else decodeErrors a)"
proof -
  have "length xs = length cs" using assms(3) by (rule list_all2_lengthD)
  moreover have "cs \<noteq> []" using assms(4) by (rule batch_chunks_nonempty)
  ultimately have ne: "xs \<noteq> []" by auto
  then obtain n where "length xs = Suc n" by (cases xs) simp_all
  then have "unat s < 4294967295" using assms(6) by simp
  then have mid: "mid_batch [] a" using assms(1) by (simp add: at_batch_start_def mid_batch_def)
  have a: "streamingCursor a = s" "batchStart a = s" "streamingDecoder a = NewStreamingDecoder" "yieldedSigs a = []"
    using assms(1) by (simp_all add: at_batch_start_def)
  have txs: "txs = batch_txs es" by (rule push_all_batch [OF assms(2,4,5)])
  have "DecodeBatch (enc_batch es) = Inr (batch_txs es)" using DecodeBatch_enc [OF assms(2), of "[]"] by simp
  then show ?thesis
    using pushRun_mid [OF mid ne _ assms(3), of d txs "batch_txs es" env fec] assms(4,5,6)
      fresh_seen [of "batch_txs es" "batch_txs es" "[]"]
    by (simp add: a txs)
qed

theorem in_order_batch_delivered_witness:
  "\<exists>b v. pushRun demo_env 0 0 [demo_arrival] (newSlotAccumulator DefaultAccumulatorConfig) demo_loaded =
      Some (b, v, [demo_tx]) \<and> at_batch_start 1 b \<and> decodeErrors b = 0"
proof -
  let ?a = "newSlotAccumulator DefaultAccumulatorConfig" and ?b = "enc_batch demo_batch"
  obtain d where "Push NewStreamingDecoder ?b = (d, Inr (batch_txs demo_batch))"
    using Push_batch [OF wf_demo_batch, of "[]"] by auto
  then have p: "push_all NewStreamingDecoder [?b] = (d, Inr (batch_txs demo_batch))" by simp
  have "at_batch_start 0 ?a" by (simp add: at_batch_start_def newSlotAccumulator_def)
  from in_order_batch_delivered [OF this wf_demo_batch _ _ p, of demo_loaded "[demo_arrival]" demo_env 0]
  show ?thesis
    using demo_payload fresh_demo by (auto simp: newSlotAccumulator_def demo_batch_def)
qed

lemma flush_complete:
  assumes "no_max a" and "smallestBatchCompleteIdxFrom (batchStart a) a = Some (e, t)"
    and "\<forall>i \<in> set (range32 (batchStart a) e). map_of (pending a) i \<noteq> None"
    and "wf_batch es" and "gathered (w_pool w) (pending a) (range32 (batchStart a) e) = enc_batch es @ c"
  shows "\<exists>b v more. tryFlushBatches env a w out =
      Some (b, v, out @ fresh (yieldedSigs a) (batch_txs es) @ more) \<and> e < batchStart b"
proof -
  have e: "e \<noteq> 0xFFFFFFFF"
    using smallest_in [OF assms(2)] assms(1) by (auto simp: no_max_def map_of_eq_None_iff)
  have dec: "DecodeBatch (gathered (w_pool w) (pending a) (range32 (batchStart a) e)) = Inr (batch_txs es)"
    unfolding assms(5) by (rule DecodeBatch_enc [OF assms(4)])
  obtain a2 b1 v1 where one: "completeBatch env e a2 w = (b1, v1)"
    "flushRound env (a, w, out) = Some (True, b1, v1, out @ fresh (yieldedSigs a) (batch_txs es))"
    using flushRound_complete [OF assms(2) e assms(3) dec, of env out] by (fastforce split: prod.splits)
  obtain b v out' where all: "tryFlushBatches env a w out = Some (b, v, out')"
    using tryFlushBatches_returns [OF assms(1)] by fastforce
  then have "tryFlushBatches env b1 v1 (out @ fresh (yieldedSigs a) (batch_txs es)) = Some (b, v, out')"
    unfolding tryFlushBatches_def by (subst (asm) go_loop.simps) (simp add: one)
  from tryFlushBatches_appends [OF this] obtain more where
    "out' = out @ fresh (yieldedSigs a) (batch_txs es) @ more" "batchStart b1 \<le> batchStart b" by auto
  moreover have "e < batchStart b1"
    unfolding completeBatch_fields(3) [OF one(1)]
    using e u32_le_max [of e] by (intro saturatingAddU32_less) (simp_all add: order.strict_iff_order)
  ultimately show ?thesis using all by auto
qed

text \<open>
  Property C14. A complete batch is delivered even when streaming failed or never ran: if every
  shred from the batch start to the first batch end is pending and their payloads form an encoded
  batch, then flushing returns, appends to the output every transaction of the batch whose first
  signature has not been delivered in this batch, and moves the batch start past the batch end.\<close>

theorem complete_batch_delivered:
  assumes "no_max a" and "smallestBatchCompleteIdxFrom (batchStart a) a = Some (e, t)"
    and "\<forall>i \<in> set (range32 (batchStart a) e). map_of (pending a) i \<noteq> None"
    and "wf_batch es" and "gathered (w_pool w) (pending a) (range32 (batchStart a) e) = enc_batch es @ c"
  shows "\<exists>b v more. tryFlushBatches env a w out =
      Some (b, v, out @ fresh (yieldedSigs a) (batch_txs es) @ more) \<and> e < batchStart b"
  by (rule flush_complete [OF assms])

theorem complete_batch_delivered_witness:
  "\<exists>b v more. tryFlushBatches demo_env
     ((newSlotAccumulator DefaultAccumulatorConfig)\<lparr>pending := [(0, mk_shred 0 True demo_arrival)],
        batchCompleteIdx := [(0, 7)]\<rparr>) demo_loaded [] = Some (b, v, demo_tx # more) \<and> 0 < batchStart b"
proof -
  let ?a = "(newSlotAccumulator DefaultAccumulatorConfig)\<lparr>pending := [(0, mk_shred 0 True demo_arrival)],
        batchCompleteIdx := [(0, 7)]\<rparr>"
  have r: "range32 0 0 = [0]" by (simp add: range32_def)
  have "gathered (w_pool demo_loaded) (pending ?a) (range32 (batchStart ?a) 0) = enc_batch demo_batch @ []"
    using demo_payload by (simp add: r gathered_def payload_or_empty_def newSlotAccumulator_def)
  from complete_batch_delivered [OF _ _ _ wf_demo_batch this, of 7 demo_env "[]"] show ?thesis
    using fresh_demo r
    by (simp add: no_max_def newSlotAccumulator_def smallestBatchCompleteIdxFrom_def)
qed

text \<open>The positions whose transactions are new: signed, not yielded before, and the first of their signature.\<close>

abbreviation first_at :: "Signature list \<Rightarrow> VersionedTransaction list \<Rightarrow> nat set" where
  "first_at ys txs \<equiv> {i. i < length txs \<and> Signatures (txs ! i) \<noteq> [] \<and> first_sig (txs ! i) \<notin> set ys \<and>
     (\<forall>j < i. Signatures (txs ! j) \<noteq> [] \<longrightarrow> first_sig (txs ! j) \<noteq> first_sig (txs ! i))}"

lemma fresh_nths: "fresh ys txs = nths txs (first_at ys txs)"
proof (induction txs arbitrary: ys)
  case (Cons t ts)
  have skip: "{j. Suc j \<in> first_at ys (t # ts)} = first_at ys ts" if "Signatures t = [] \<or> first_sig t \<in> set ys"
    using that by (auto simp: All_less_Suc2)
  have keep: "{j. Suc j \<in> first_at ys (t # ts)} = first_at (first_sig t # ys) ts"
    if "Signatures t \<noteq> []" "first_sig t \<notin> set ys"
    using that by (auto simp: All_less_Suc2)
  show ?case
  proof (cases "Signatures t = [] \<or> first_sig t \<in> set ys")
    case True
    then show ?thesis unfolding nths_Cons skip [OF True] using Cons.IH by auto
  next
    case False
    then have k: "{j. Suc j \<in> first_at ys (t # ts)} = first_at (first_sig t # ys) ts" by (intro keep) simp_all
    show ?thesis unfolding nths_Cons k using False Cons.IH by simp
  qed
qed simp

text \<open>
  Property C26. Duplicate suppression. What the accumulator emits of a list of decoded transactions is,
  in the order of the list, exactly the transactions that have a signature, whose first signature was
  not yielded in this batch, and before which no transaction of the list has the same first
  signature. They are appended to the output and counted, their first signatures are recorded, and
  nothing else of the accumulator changes; so no two emitted transactions share a first signature.\<close>

theorem emitted_once:
  "emitTxs txs a out =
     (let new = nths txs {i. i < length txs \<and> Signatures (txs ! i) \<noteq> [] \<and>
          hd (Signatures (txs ! i)) \<notin> set (yieldedSigs a) \<and>
          (\<forall>j < i. Signatures (txs ! j) \<noteq> [] \<longrightarrow> hd (Signatures (txs ! j)) \<noteq> hd (Signatures (txs ! i)))}
      in (a\<lparr>yieldedSigs := rev (map (\<lambda>t. hd (Signatures t)) new) @ yieldedSigs a\<rparr>, out @ new, length new))"
  using emitTxs_fresh [of txs a out] unfolding fresh_nths by (simp add: Let_def first_sig_def [abs_def])

text \<open>A signed transaction after an unsigned one and before one with the same signature: only the first is emitted.\<close>

theorem emitted_once_witness:
  "emitTxs [demo_tx\<lparr>Signatures := []\<rparr>, demo_tx, demo_tx\<lparr>Signatures := Signatures demo_tx @ [[]]\<rparr>]
     (newSlotAccumulator DefaultAccumulatorConfig) [] =
   ((newSlotAccumulator DefaultAccumulatorConfig)\<lparr>yieldedSigs := [replicate 64 7]\<rparr>, [demo_tx], 1)"
proof -
  let ?txs = "[demo_tx\<lparr>Signatures := []\<rparr>, demo_tx, demo_tx\<lparr>Signatures := Signatures demo_tx @ [[]]\<rparr>]"
  have sg: "Signatures demo_tx = [replicate 64 7]" by (simp add: demo_tx_def)
  have at: "{i. i < length ?txs \<and> Signatures (?txs ! i) \<noteq> [] \<and> hd (Signatures (?txs ! i)) \<notin> set [] \<and>
      (\<forall>j < i. Signatures (?txs ! j) \<noteq> [] \<longrightarrow> hd (Signatures (?txs ! j)) \<noteq> hd (Signatures (?txs ! i)))} = {1}"
    by (auto simp: sg less_Suc_eq numeral_eq_Suc)
  have ys: "yieldedSigs (newSlotAccumulator DefaultAccumulatorConfig) = []" by (simp add: newSlotAccumulator_def)
  show ?thesis unfolding emitted_once ys at by (simp add: nths_Cons sg)
qed

end
