(* ===== verification/Accumulator_Fec.thy ===== *)
theory Accumulator_Fec
  imports Accumulator_Delivery
begin

text \<open>
  FEC recovery inside the accumulator: when the pending and coding shreds of a set are enough,
  one fill makes every data shred of the set pending, with the bytes of the codeword.
\<close>

section \<open>The pending map after a fill\<close>

fun parsed_data :: "dataShredRef \<Rightarrow> DataShred option" where
  "parsed_data r = (case ParseKind (dr_raw r) of Inr (DataKind d) \<Rightarrow> Some d | _ \<Rightarrow> None)"

definition recovered_shred :: "u32 \<Rightarrow> dataShredRef \<Rightarrow> pendingShred" where
  "recovered_shred s r =
     (let d = the (parsed_data r) in
      \<lparr>source = RecoveredPayload (dr_raw r), payloadEnd = of_nat (DataHeaderSize + length (ds_Payload d)),
       batchComplete = ds_BatchComplete d, pd_fecSetIndex = s\<rparr>)"

definition usable :: "dataShredRef \<Rightarrow> bool" where
  "usable r \<longleftrightarrow> (case parsed_data r of None \<Rightarrow> False | Some d \<Rightarrow> \<not> ds_LastInSlot d)"

lemma usable_iff: "usable r \<longleftrightarrow> (\<exists>d. ParseKind (dr_raw r) = Inr (DataKind d) \<and> \<not> ds_LastInSlot d)"
  by (auto simp: usable_def split: option.splits sum.splits ShredKind.splits)

lemma recover_step_pending:
  assumes "usable r" and "batchStart a \<le> s + ucast (dr_pos r)"
    and "recover_step env s r (a, w, any0) = (b, v, any1)"
  shows "pending b = (if map_of (pending a) (s + ucast (dr_pos r)) \<noteq> None then pending a
      else AList.update (s + ucast (dr_pos r)) (recovered_shred s r) (pending a))"
    and "any1 = (any0 \<or> map_of (pending a) (s + ucast (dr_pos r)) = None)"
    and "batchStart b = batchStart a" "fecSets b = fecSets a" "recoveriesDone b = recoveriesDone a"
proof -
  obtain d where d: "ParseKind (dr_raw r) = Inr (DataKind d)" "\<not> ds_LastInSlot d"
    using assms(1) by (auto simp: usable_iff)
  have rs: "recovered_shred s r = \<lparr>source = RecoveredPayload (dr_raw r),
       payloadEnd = of_nat (DataHeaderSize + length (ds_Payload d)),
       batchComplete = ds_BatchComplete d, pd_fecSetIndex = s\<rparr>"
    by (simp add: recovered_shred_def d)
  note unf = recover_step_def Let_def time_now_def leD [OF assms(2)] d rs
  show "pending b = (if map_of (pending a) (s + ucast (dr_pos r)) \<noteq> None then pending a
      else AList.update (s + ucast (dr_pos r)) (recovered_shred s r) (pending a))"
    "any1 = (any0 \<or> map_of (pending a) (s + ucast (dr_pos r)) = None)"
    "batchStart b = batchStart a" "fecSets b = fecSets a" "recoveriesDone b = recoveriesDone a"
    using assms(3) by (auto simp: unf split: if_splits)
qed

lemma ucast_u16_inj: "s + ucast (p :: u16) = s + (ucast q :: u32) \<longleftrightarrow> p = q"
  by (metis add_left_cancel unat_ucast_u16 word_unat_eq_iff)

lemma recover_fold_pending:
  assumes "\<forall>r \<in> set rs. usable r \<and> batchStart a \<le> s + ucast (dr_pos r)" and "distinct (map dr_pos rs)"
    and "fold (recover_step env s) rs (a, w, any0) = (b, v, any1)"
  shows "(\<forall>r \<in> set rs. map_of (pending b) (s + ucast (dr_pos r)) =
        (case map_of (pending a) (s + ucast (dr_pos r)) of None \<Rightarrow> Some (recovered_shred s r) | x \<Rightarrow> x)) \<and>
    (\<forall>i. i \<notin> (\<lambda>r. s + ucast (dr_pos r)) ` set rs \<longrightarrow> map_of (pending b) i = map_of (pending a) i) \<and>
    any1 = (any0 \<or> (\<exists>r \<in> set rs. map_of (pending a) (s + ucast (dr_pos r)) = None)) \<and>
    fecSets b = fecSets a \<and> recoveriesDone b = recoveriesDone a"
  using assms
proof (induction rs arbitrary: a w any0)
  case (Cons r rs)
  obtain a1 w1 any2 where s1: "recover_step env s r (a, w, any0) = (a1, w1, any2)" by (metis prod_cases3)
  have "usable r" "batchStart a \<le> s + ucast (dr_pos r)" using Cons.prems(1) by simp_all
  note st = recover_step_pending [OF this s1]
  let ?k = "s + ucast (dr_pos r)"
  have p1: "map_of (pending a1) i = (if i = ?k \<and> map_of (pending a) ?k = None then Some (recovered_shred s r)
      else map_of (pending a) i)" for i
    by (auto simp: st(1) update_conv')
  have "dr_pos r \<notin> dr_pos ` set rs" "distinct (map dr_pos rs)" using Cons.prems(2) by simp_all
  then have other: "s + ucast (dr_pos q) \<noteq> ?k" if "q \<in> set rs" for q
    using that by (metis image_eqI ucast_u16_inj)
  have rest: "fold (recover_step env s) rs (a1, w1, any2) = (b, v, any1)" using Cons.prems(3) s1 by simp
  have "\<forall>r \<in> set rs. usable r \<and> batchStart a1 \<le> s + ucast (dr_pos r)" using Cons.prems(1) by (simp add: st(3))
  note IHs = Cons.IH [OF this \<open>distinct (map dr_pos rs)\<close> rest]
  note IH = IHs [THEN conjunct1] IHs [THEN conjunct2, THEN conjunct1]
    IHs [THEN conjunct2, THEN conjunct2]
  have k: "map_of (pending b) ?k = map_of (pending a1) ?k" 
  proof (rule IH(2) [rule_format])
    show "?k \<notin> (\<lambda>r. s + ucast (dr_pos r)) ` set rs"
    proof
      assume "?k \<in> (\<lambda>r. s + ucast (dr_pos r)) ` set rs"
      then obtain q where "q \<in> set rs" "?k = s + ucast (dr_pos q)" by (rule imageE)
      then show False using other [of q] by metis
    qed
  qed
  have same: "map_of (pending a1) (s + ucast (dr_pos q)) = map_of (pending a) (s + ucast (dr_pos q))"
    if "q \<in> set rs" for q using p1 other [OF that] by simp
  show ?case
  proof (intro conjI ballI allI impI)
    fix q
    assume "q \<in> set (r # rs)"
    then consider "q = r" | "q \<in> set rs" by auto
    then show "map_of (pending b) (s + ucast (dr_pos q)) =
        (case map_of (pending a) (s + ucast (dr_pos q)) of None \<Rightarrow> Some (recovered_shred s q) | x \<Rightarrow> x)"
    proof cases
      case 1
      then show ?thesis using k p1 [of ?k] by (cases "map_of (pending a) ?k") simp_all
    next
      case 2
      then show ?thesis using bspec [OF IH(1) 2] same [OF 2] by simp
    qed
  next
    fix i
    assume "i \<notin> (\<lambda>r. s + ucast (dr_pos r)) ` set (r # rs)"
    then show "map_of (pending b) i = map_of (pending a) i" using IH(2) p1 [of i] by auto
  next
    show "any1 = (any0 \<or> (\<exists>r \<in> set (r # rs). map_of (pending a) (s + ucast (dr_pos r)) = None))"
      using IH(3) [THEN conjunct1] st(2) same by auto
  qed (use IH(3) st(4,5) in simp_all)
qed simp

section \<open>The references of a set\<close>

lemma in_set_range:
  assumes "unat s + unat nd < 4294967296" and "s \<le> i"
  shows "i < s + ucast (nd :: u16) \<longleftrightarrow> i - s < (ucast nd :: u32)"
  using assms by (simp add: word_less_nat_alt word_le_nat_alt unat_sub unat_word_ariths) linarith

lemma length_fec_refs:
  assumes "unat s + unat (fb_numData f) < 4294967296" and "fb_numData f \<noteq> 0"
  shows "length (fec_refs p a s (fb_numData f)) = dataCountFor a s f"
proof -
  have "(ucast (fb_numData f) :: u32) \<noteq> 0" using assms(2) by (simp add: word_unat_eq_iff)
  moreover have "filter (\<lambda>(idx, ps). idx \<ge> s \<and> idx < s + ucast (fb_numData f) \<and> pd_fecSetIndex ps = s) (pending a)
      = filter (\<lambda>(idx, ps). idx \<ge> s \<and> idx - s < ucast (fb_numData f) \<and> pd_fecSetIndex ps = s) (pending a)"
    using in_set_range [OF assms(1)] by (intro filter_cong) auto
  ultimately show ?thesis by (simp add: fec_refs_def dataCountFor_def Let_def)
qed

lemma unat_diff_u16:
  assumes "i - s < (ucast (nd :: u16) :: u32)"
  shows "unat (ucast (i - s) :: u16) = unat (i - s)"
proof -
  have "unat (i - s) < unat nd" using assms by (simp add: word_less_nat_alt)
  then have "unat (i - s) < 65536" using unsigned_less [where ?w = nd and ?'a = nat] by simp
  then show ?thesis by (simp add: unsigned_ucast_eq take_bit_nat_eq_self)
qed

lemma distinct_fec_refs:
  assumes "distinct (map fst (pending a))"
  shows "distinct (map dr_pos (fec_refs p a s nd))"
proof -
  let ?pd = "filter (\<lambda>(idx, ps). idx \<ge> s \<and> idx - s < ucast nd \<and> pd_fecSetIndex ps = s) (pending a)"
  have inj: "inj_on (\<lambda>i. ucast (i - s) :: u16) (set (map fst ?pd))"
  proof (rule inj_onI)
    fix x y
    assume x: "x \<in> set (map fst ?pd)" and y: "y \<in> set (map fst ?pd)" and "(ucast (x - s) :: u16) = ucast (y - s)"
    then have "unat (x - s) = unat (y - s)"
      using unat_diff_u16 [of x s nd] unat_diff_u16 [of y s nd] by auto
    then have "x - s = y - s" by (simp add: word_unat_eq_iff)
    then show "x = y" by simp
  qed
  have "distinct (map (\<lambda>i. ucast (i - s) :: u16) (map fst ?pd))"
    using distinct_filter_keys [OF assms] inj by (simp only: distinct_map)
  moreover have "map dr_pos (fec_refs p a s nd) = map (\<lambda>i. ucast (i - s) :: u16) (map fst ?pd)"
    by (auto simp: fec_refs_def)
  ultimately show ?thesis by simp
qed

lemma in_fec_refs:
  assumes "pos \<in> dr_pos ` set (fec_refs p a s nd)"
  shows "map_of (pending a) (s + ucast pos) \<noteq> None"
proof -
  from assms obtain i ps where i: "(i, ps) \<in> set (pending a)" "i - s < ucast nd" "pos = ucast (i - s)"
    by (auto simp: fec_refs_def)
  then have "unat (ucast pos :: u32) = unat (i - s)" using unat_diff_u16 [of i s nd] by simp
  then have "ucast pos = i - s" by (simp add: word_unat_eq_iff)
  then have "s + ucast pos = i" by simp
  then show ?thesis using i(1) by (simp add: map_of_eq_None_iff) (metis fst_conv image_eqI)
qed

section \<open>Recovery\<close>

lemma hint_selected:
  "map_of (fecSets a) s = Some f \<Longrightarrow> canRecoverWith f (dataCountFor a s f) \<Longrightarrow> selectRecoverableSet s a = Some s"
  by (simp add: selectRecoverableSet_def)

lemma tryFecFill_recovered:
  assumes "map_of (fecSets a) s = Some f" and "fb_numData f \<noteq> 0" and "selectRecoverableSet s a = Some s"
    and "fst (tryReconstruct f (fec_refs (w_pool w) a s (fb_numData f)) (w_cache w)) = Inr rs"
    and "\<forall>r \<in> set rs. usable r \<and> batchStart a \<le> s + ucast (dr_pos r)" and "distinct (map dr_pos rs)"
    and "\<exists>r \<in> set rs. map_of (pending a) (s + ucast (dr_pos r)) = None"
  shows "\<exists>b v. tryFecFill env s a w = (True, b, v) \<and>
    (\<forall>r \<in> set rs. map_of (pending b) (s + ucast (dr_pos r)) =
        (case map_of (pending a) (s + ucast (dr_pos r)) of None \<Rightarrow> Some (recovered_shred s r) | x \<Rightarrow> x)) \<and>
    (\<forall>i. i \<notin> (\<lambda>r. s + ucast (dr_pos r)) ` set rs \<longrightarrow> map_of (pending b) i = map_of (pending a) i) \<and>
    map_of (fecSets b) s = None \<and> recoveriesDone b = recoveriesDone a + 1"
proof -
  obtain cache where rec: "tryReconstruct f (fec_refs (w_pool w) a s (fb_numData f)) (w_cache w) = (Inr rs, cache)"
    using assms(4) by (metis prod.collapse)
  obtain b v any1 where f: "fold (recover_step env s) rs (a, w\<lparr>w_cache := cache\<rparr>, False) = (b, v, any1)"
    by (metis prod_cases3)
  note res = recover_fold_pending [OF assms(5,6) f]
  have "any1" "rs \<noteq> []" using res assms(7) by auto
  then have "tryFecFill env s a w = (True, b\<lparr>recoveriesDone := recoveriesDone b + 1,
      fecSets := AList.delete s (fecSets b)\<rparr>, v)"
    using assms(1-3) rec f by (simp add: tryFecFill_def Let_def)
  with res show ?thesis by (simp add: delete_conv')
qed

abbreviation codeword_shred :: "fecSetBuffer \<Rightarrow> byte list list \<Rightarrow> u16 \<Rightarrow> dataShredRef" where
  "codeword_shred f cw pos \<equiv> \<lparr>dr_pos = pos, dr_raw = recovered_raw (nat (fb_shardSize f)) (cw ! unat pos)\<rparr>"

lemma fill_restores:
  assumes "acc_ok a" and "cache_ok (w_cache w)" and "map_of (fecSets a) s = Some f"
    and "unat s + unat (fb_numData f) < 2 ^ 32" and "batchStart a \<le> s"
    and "newReedSolomon (int (unat (fb_numData f))) (int (unat (fb_numCoding f))) = Inr rs"
    and "codeword rs (nat (fb_shardSize f)) cw"
    and "0 < fb_shardSize f" "fb_hasVariant f" "kind (fb_variant f) = KindCodeMerkle"
    and "authentic_code f cw" "authentic_data f cw (fec_refs (w_pool w) a s (fb_numData f))"
    and "distinct (map fst (fb_code f))" "canRecoverWith f (dataCountFor a s f)"
    and "\<forall>pos < fb_numData f. usable (codeword_shred f cw pos)"
    and "missing < fb_numData f" "map_of (pending a) (s + ucast missing) = None"
  shows "\<exists>b v. tryFecFill env s a w = (True, b, v) \<and>
    (\<forall>pos < fb_numData f. map_of (pending b) (s + ucast pos) =
        (case map_of (pending a) (s + ucast pos) of
           None \<Rightarrow> Some (recovered_shred s (codeword_shred f cw pos)) | x \<Rightarrow> x)) \<and>
    (\<forall>i. map_of (pending a) i \<noteq> None \<longrightarrow> map_of (pending b) i = map_of (pending a) i) \<and>
    map_of (fecSets b) s = None \<and> recoveriesDone b = recoveriesDone a + 1"
proof -
  let ?refs = "fec_refs (w_pool w) a s (fb_numData f)" and ?nd = "fb_numData f"
  define R where "R = map (codeword_shred f cw)
    (filter (\<lambda>pos. pos \<notin> dr_pos ` set ?refs) (map of_nat [0..<unat ?nd]))"
  have nd: "?nd \<noteq> 0" using assms(16) by auto
  have len: "length ?refs = dataCountFor a s f" using assms(4) nd by (intro length_fec_refs) simp_all
  have "distinct (map dr_pos ?refs)" using assms(1) by (intro distinct_fec_refs) (simp add: acc_ok_def)
  with tryReconstruct_authentic [OF assms(2,6-13)] assms(14) len
  have rec: "fst (tryReconstruct f ?refs (w_cache w)) = Inr R" by (simp add: R_def)
  have small: "k < 65536" if "k < unat ?nd" for k
    using that unsigned_less [where ?w = "?nd" and ?'a = nat] by simp
  have pos: "pos \<in> set (map of_nat [0..<unat ?nd]) \<longleftrightarrow> pos < ?nd" for pos
    using small by (auto simp: word_less_nat_alt unat_of_nat image_iff intro: bexI [of _ "unat pos"])
  have mem: "r \<in> set R \<longleftrightarrow> (\<exists>pos < ?nd. pos \<notin> dr_pos ` set ?refs \<and> r = codeword_shred f cw pos)" for r
    using pos by (auto simp: R_def)
  have start: "batchStart a \<le> s + ucast pos" if "pos < ?nd" for pos
    using that assms(4,5) by (simp add: word_le_nat_alt word_less_nat_alt unat_word_ariths)
  have "distinct (map of_nat [0..<unat ?nd] :: u16 list)"
    using small by (simp add: distinct_map inj_on_def of_nat_u16_inj)
  then have dist: "distinct (map dr_pos R)" by (simp add: R_def comp_def)
  have use: "\<forall>r \<in> set R. usable r \<and> batchStart a \<le> s + ucast (dr_pos r)"
    using assms(15) start by (auto simp: mem)
  have held: "map_of (pending a) (s + ucast pos) \<noteq> None" if "pos \<in> dr_pos ` set ?refs" for pos
    by (rule in_fec_refs [OF that])
  have "codeword_shred f cw missing \<in> set R" unfolding mem using assms(16,17) held by blast
  then have "\<exists>r \<in> set R. map_of (pending a) (s + ucast (dr_pos r)) = None"
    by (rule bexI [rotated]) (simp add: assms(17))
  from tryFecFill_recovered [OF assms(3) nd hint_selected [OF assms(3,14)] rec use dist this, of env]
  obtain b v where fill: "tryFecFill env s a w = (True, b, v)" "map_of (fecSets b) s = None"
      "recoveriesDone b = recoveriesDone a + 1"
    and new: "\<forall>r \<in> set R. map_of (pending b) (s + ucast (dr_pos r)) =
        (case map_of (pending a) (s + ucast (dr_pos r)) of None \<Rightarrow> Some (recovered_shred s r) | x \<Rightarrow> x)"
    and old: "\<forall>i. i \<notin> (\<lambda>r. s + ucast (dr_pos r)) ` set R \<longrightarrow> map_of (pending b) i = map_of (pending a) i"
    by (elim exE conjE) (rule that)
  have kept: "map_of (pending b) i = map_of (pending a) i" if "map_of (pending a) i \<noteq> None" for i
  proof (cases "i \<in> (\<lambda>r. s + ucast (dr_pos r)) ` set R")
    case True
    then obtain r where "r \<in> set R" "i = s + ucast (dr_pos r)" by (rule imageE)
    then show ?thesis using new that by (auto split: option.splits)
  next
    case False
    then show ?thesis using old by blast
  qed
  have "map_of (pending b) (s + ucast pos) =
      (case map_of (pending a) (s + ucast pos) of
         None \<Rightarrow> Some (recovered_shred s (codeword_shred f cw pos)) | x \<Rightarrow> x)" if "pos < ?nd" for pos
  proof (cases "map_of (pending a) (s + ucast pos)")
    case None
    then have "codeword_shred f cw pos \<in> set R" unfolding mem using that held by blast
    from bspec [OF new this] None show ?thesis by simp
  qed (use kept in simp)
  with fill kept show ?thesis by blast
qed

text \<open>
  Property C6. Lost data shreds are restored. Let the pending and the buffered coding shreds of
  a FEC set at or after the batch start carry shards of one codeword and be together at least as many as
  the set has data shreds, let some data shred be missing and let the shards of the codeword parse as data shreds
  that are not the last of their slot. Then one fill with that set makes every data
  shred of the set pending: those that were pending are unchanged, the missing ones are the
  recovered packets; no other pending shred changes, the set is dropped and the recovery counted.\<close>

theorem fec_fill_restores:
  assumes "acc_ok a" and "cache_ok (w_cache w)" and "map_of (fecSets a) s = Some f"
    and "unat s + unat (fb_numData f) < 2 ^ 32" and "batchStart a \<le> s"
    and "newReedSolomon (int (unat (fb_numData f))) (int (unat (fb_numCoding f))) = Inr rs"
    and "codeword rs (nat (fb_shardSize f)) cw"
    and "0 < fb_shardSize f" "fb_hasVariant f" "kind (fb_variant f) = KindCodeMerkle"
    and "authentic_code f cw" "authentic_data f cw (fec_refs (w_pool w) a s (fb_numData f))"
    and "distinct (map fst (fb_code f))" "canRecoverWith f (dataCountFor a s f)"
    and "\<forall>pos < fb_numData f. usable (codeword_shred f cw pos)"
    and "missing < fb_numData f" "map_of (pending a) (s + ucast missing) = None"
  shows "\<exists>b v. tryFecFill env s a w = (True, b, v) \<and>
    (\<forall>pos < fb_numData f. map_of (pending b) (s + ucast pos) =
        (case map_of (pending a) (s + ucast pos) of
           None \<Rightarrow> Some (recovered_shred s (codeword_shred f cw pos)) | x \<Rightarrow> x)) \<and>
    (\<forall>i. map_of (pending a) i \<noteq> None \<longrightarrow> map_of (pending b) i = map_of (pending a) i) \<and>
    map_of (fecSets b) s = None \<and> recoveriesDone b = recoveriesDone a + 1"
  by (rule fill_restores [OF assms])

definition demo_fec_acc :: slotAccumulator where
  "demo_fec_acc = (newSlotAccumulator DefaultAccumulatorConfig)
     \<lparr>fecSets := [(4, demo_set)],
      pending := [(4, \<lparr>source = RecoveredPayload (replicate 1203 0), payloadEnd = 88,
                       batchComplete = False, pd_fecSetIndex = 4\<rparr>)]\<rparr>"

lemma le_nat_zeros [simp]: "le_nat (replicate n 0) = 0"
  by (induction n) simp_all

lemma zero_packet_usable: "usable \<lparr>dr_pos = pos, dr_raw = replicate 1203 0\<rparr>"
proof -
  have "ParseKind (replicate 1203 0) = Inr (DataKind
      \<lparr>ds_Slot = 0, ds_Index = 0, ds_Version = 0, ds_FecSetIndex = 0, ds_ParentOffset = 0, ds_Payload = [],
       ds_BatchComplete = False, ds_LastInSlot = False,
       ds_Variant = \<lparr>kind = KindDataLegacy, proofSize = 0, resigned = False\<rparr>, ds_RawLen = 1203\<rparr>)"
    by (simp add: ParseKind_def parser_consts readU64_def readU32_def readU16_def subslice_def
        parseDataLegacyFallback_def ClassifyVariant_def lastInSlot_def dataComplete_def Let_def)
  then show ?thesis by (simp add: usable_iff)
qed

lemma demo_fec_refs:
  "fec_refs p demo_fec_acc 4 2 = [\<lparr>dr_pos = 0, dr_raw = replicate 1203 0\<rparr>]"
  by (simp add: fec_refs_def demo_fec_acc_def)

theorem fec_fill_restores_witness:
  "\<exists>b v. tryFecFill demo_env 4 demo_fec_acc demo_world = (True, b, v) \<and>
     map_of (pending b) 5 =
       Some (recovered_shred 4 \<lparr>dr_pos = 1, dr_raw = recovered_raw 1107 (replicate 1107 0)\<rparr>) \<and>
     map_of (pending b) 4 = map_of (pending demo_fec_acc) 4"
proof -
  obtain rs where rs: "newReedSolomon 2 1 = Inr rs" "codeword rs 1107 zero_codeword"
    by (rule demo_set_codeword)
  have ok: "acc_ok demo_fec_acc" "map_of (fecSets demo_fec_acc) 4 = Some demo_set" "batchStart demo_fec_acc \<le> 4"
    "canRecoverWith demo_set (dataCountFor demo_fec_acc 4 demo_set)"
    "map_of (pending demo_fec_acc) (4 + ucast (1 :: u16)) = None"
    by (simp_all add: acc_ok_def demo_fec_acc_def newSlotAccumulator_def canRecoverWith_def dataCountFor_def)
  have cache: "cache_ok (w_cache demo_world)" using demo_world_good by (simp add: good_def)
  have z: "recovered_raw 1107 (replicate 1107 0) = replicate 1203 0"
    by (simp add: recovered_raw_def SizeOfSignature_def DataShredPayloadLen_def replicate_add [symmetric])
  have "usable (codeword_shred demo_set zero_codeword pos)" if "pos < 2" for pos
    using that zero_packet_usable z by (simp add: word_less_nat_alt)
  then have "\<exists>b v. tryFecFill demo_env 4 demo_fec_acc demo_world = (True, b, v) \<and>
    (\<forall>pos < 2. map_of (pending b) (4 + ucast pos) =
        (case map_of (pending demo_fec_acc) (4 + ucast pos) of
           None \<Rightarrow> Some (recovered_shred 4 (codeword_shred demo_set zero_codeword pos)) | x \<Rightarrow> x)) \<and>
    (\<forall>i. map_of (pending demo_fec_acc) i \<noteq> None \<longrightarrow> map_of (pending b) i = map_of (pending demo_fec_acc) i)"
    using fec_fill_restores [OF ok(1) cache ok(2) _ ok(3), of rs zero_codeword 1 demo_env] rs ok(4,5)
      demo_set_authentic demo_fec_refs
    by simp blast
  then obtain b v where f: "tryFecFill demo_env 4 demo_fec_acc demo_world = (True, b, v)"
    and new: "\<forall>pos < 2. map_of (pending b) (4 + ucast pos) =
        (case map_of (pending demo_fec_acc) (4 + ucast pos) of
           None \<Rightarrow> Some (recovered_shred 4 (codeword_shred demo_set zero_codeword pos)) | x \<Rightarrow> x)"
    and old: "\<forall>i. map_of (pending demo_fec_acc) i \<noteq> None \<longrightarrow>
        map_of (pending b) i = map_of (pending demo_fec_acc) i"
    by blast
  have "map_of (pending b) 5 =
      Some (recovered_shred 4 \<lparr>dr_pos = 1, dr_raw = recovered_raw 1107 (replicate 1107 0)\<rparr>)"
    using new [rule_format, of 1] ok(5) by simp
  moreover have "map_of (pending b) 4 = map_of (pending demo_fec_acc) 4"
    using old by (simp add: demo_fec_acc_def)
  ultimately show ?thesis using f by blast
qed

end
