(* ===== verification/Tuning.thy ===== *)
theory Tuning
  imports Options
begin

text \<open>
  Thread and socket tuning, \<^verbatim>\<open>src/tuning.go\<close> and its platform files \<^verbatim>\<open>tuning_linux.go\<close>,
  \<^verbatim>\<open>tuning_darwin.go\<close> and \<^verbatim>\<open>tuning_other.go\<close>. The operating system is a parameter: a
  \<open>sysenv\<close> answers every system call depending on all calls made before, nothing is assumed
  of the answers. An operation that makes system calls takes the calls made so far and returns them
  extended by its own.
\<close>

section \<open>The operating system\<close>

text \<open>
  An error carries what \<^verbatim>\<open>isRecoverableIOError\<close> looks at: a \<^verbatim>\<open>net.Error\<close> timeout, EINTR
  or EAGAIN, an exceeded deadline, and its text.
\<close>

record io_error =
  ioe_timeout :: bool
  ioe_eintr :: bool
  ioe_eagain :: bool
  ioe_deadline :: bool
  ioe_msg :: string

datatype platform = Linux | Darwin | OtherPlatform

datatype sys_call =
    ListenUDP int
  | SetsockoptInt int int int int
  | GetsockoptInt int int int
  | SchedSetaffinity int
  | RuntimeLockOSThread

text \<open>
  The answer to \<^verbatim>\<open>ListenUDP\<close> is an error or a socket; \<open>None\<close> is a socket whose descriptor
  \<^verbatim>\<open>SyscallConn\<close> and \<^verbatim>\<open>Control\<close> do not give access to.
\<close>

record sysenv =
  platform_of :: platform
  SOL_SOCKET :: int
  SO_RCVBUF :: int
  EINVAL :: io_error
  listen_answer :: "sys_call list \<Rightarrow> int \<Rightarrow> io_error + int option"
  set_answer :: "sys_call list \<Rightarrow> sys_call \<Rightarrow> io_error option"
  get_answer :: "sys_call list \<Rightarrow> sys_call \<Rightarrow> io_error + int"

definition perform :: "sysenv \<Rightarrow> sys_call \<Rightarrow> sys_call list \<Rightarrow> io_error option \<times> sys_call list" where
  "perform sys c tr = (set_answer sys tr c, tr @ [c])"

section \<open>Operations\<close>

definition soBusyPoll :: int where "soBusyPoll = 0x2E"

text \<open>One definition per platform file; the build picks one of them.\<close>

definition setBusyPollSyscall_linux :: "sysenv \<Rightarrow> int \<Rightarrow> u32 \<Rightarrow> sys_call list \<Rightarrow> io_error option \<times> sys_call list" where
  "setBusyPollSyscall_linux sys fd micros tr =
     perform sys (SetsockoptInt fd (SOL_SOCKET sys) soBusyPoll (int (unat micros))) tr"

definition setBusyPollSyscall_darwin :: "int \<Rightarrow> u32 \<Rightarrow> sys_call list \<Rightarrow> io_error option \<times> sys_call list" where
  "setBusyPollSyscall_darwin fd micros tr = (None, tr)"

definition setBusyPollSyscall_other :: "int \<Rightarrow> u32 \<Rightarrow> sys_call list \<Rightarrow> io_error option \<times> sys_call list" where
  "setBusyPollSyscall_other fd micros tr = (None, tr)"

definition setBusyPollSyscall :: "sysenv \<Rightarrow> int \<Rightarrow> u32 \<Rightarrow> sys_call list \<Rightarrow> io_error option \<times> sys_call list" where
  "setBusyPollSyscall sys fd micros tr =
     (case platform_of sys of
        Linux \<Rightarrow> setBusyPollSyscall_linux sys fd micros tr
      | Darwin \<Rightarrow> setBusyPollSyscall_darwin fd micros tr
      | OtherPlatform \<Rightarrow> setBusyPollSyscall_other fd micros tr)"

definition setBusyPoll :: "sysenv \<Rightarrow> int \<Rightarrow> u32 \<Rightarrow> sys_call list \<Rightarrow> io_error option \<times> sys_call list" where
  "setBusyPoll sys fd micros tr = setBusyPollSyscall sys fd micros tr"

definition setRecvBuf :: "sysenv \<Rightarrow> int \<Rightarrow> int \<Rightarrow> sys_call list \<Rightarrow> io_error option \<times> sys_call list" where
  "setRecvBuf sys fd sz tr = perform sys (SetsockoptInt fd (SOL_SOCKET sys) (SO_RCVBUF sys) sz) tr"

definition getRecvBuf :: "sysenv \<Rightarrow> int \<Rightarrow> sys_call list \<Rightarrow> (io_error + int) \<times> sys_call list" where
  "getRecvBuf sys fd tr =
     (let c = GetsockoptInt fd (SOL_SOCKET sys) (SO_RCVBUF sys) in (get_answer sys tr c, tr @ [c]))"

text \<open>The CPU set that holds only \<^verbatim>\<open>cpu\<close> is the argument of the affinity call.\<close>

definition pinThreadToCPU_linux :: "sysenv \<Rightarrow> int \<Rightarrow> sys_call list \<Rightarrow> io_error option \<times> sys_call list" where
  "pinThreadToCPU_linux sys cpu tr =
     (if cpu < 0 then (Some (EINVAL sys), tr) else perform sys (SchedSetaffinity cpu) tr)"

definition pinThreadToCPU_darwin :: "int \<Rightarrow> sys_call list \<Rightarrow> io_error option \<times> sys_call list" where
  "pinThreadToCPU_darwin cpu tr = (None, tr)"

definition pinThreadToCPU_other :: "int \<Rightarrow> sys_call list \<Rightarrow> io_error option \<times> sys_call list" where
  "pinThreadToCPU_other cpu tr = (None, tr)"

definition pinThreadToCPU :: "sysenv \<Rightarrow> int \<Rightarrow> sys_call list \<Rightarrow> io_error option \<times> sys_call list" where
  "pinThreadToCPU sys cpu tr =
     (case platform_of sys of
        Linux \<Rightarrow> pinThreadToCPU_linux sys cpu tr
      | Darwin \<Rightarrow> pinThreadToCPU_darwin cpu tr
      | OtherPlatform \<Rightarrow> pinThreadToCPU_other cpu tr)"

definition PinThreadToCPU :: "sysenv \<Rightarrow> int \<Rightarrow> sys_call list \<Rightarrow> io_error option \<times> sys_call list" where
  "PinThreadToCPU sys cpu tr = pinThreadToCPU sys cpu tr"

definition LockOSThread :: "sys_call list \<Rightarrow> sys_call list" where
  "LockOSThread tr = tr @ [RuntimeLockOSThread]"

text \<open>
  The closure \<^verbatim>\<open>BindWithOptions\<close> runs on the descriptor: an error of the receive buffer is
  ignored; the result says whether busy polling was accepted.
\<close>

definition tuneSocket :: "sysenv \<Rightarrow> ListenerOptions \<Rightarrow> int \<Rightarrow> sys_call list \<Rightarrow> bool \<times> sys_call list" where
  "tuneSocket sys opts fd tr =
     (let tr = (if RecvBuf opts > 0 then snd (setRecvBuf sys fd (RecvBuf opts) tr) else tr) in
      if BusyPollMicros opts > 0 then
        (case setBusyPoll sys fd (BusyPollMicros opts) tr of (err, tr) \<Rightarrow> (err = None, tr))
      else (False, tr))"

section \<open>Which calls are made\<close>

definition recv_calls :: "sysenv \<Rightarrow> ListenerOptions \<Rightarrow> int \<Rightarrow> sys_call list" where
  "recv_calls sys opts fd =
     (if RecvBuf opts > 0 then [SetsockoptInt fd (SOL_SOCKET sys) (SO_RCVBUF sys) (RecvBuf opts)] else [])"

definition poll_call :: "sysenv \<Rightarrow> ListenerOptions \<Rightarrow> int \<Rightarrow> sys_call" where
  "poll_call sys opts fd = SetsockoptInt fd (SOL_SOCKET sys) 0x2E (int (unat (BusyPollMicros opts)))"

lemma tuneSocket_calls:
  "tuneSocket sys opts fd tr =
     (if BusyPollMicros opts > 0 \<and> platform_of sys = Linux
      then (set_answer sys (tr @ recv_calls sys opts fd) (poll_call sys opts fd) = None,
            tr @ recv_calls sys opts fd @ [poll_call sys opts fd])
      else (BusyPollMicros opts > 0, tr @ recv_calls sys opts fd))"
  by (cases "platform_of sys")
    (simp_all add: tuneSocket_def recv_calls_def poll_call_def setRecvBuf_def setBusyPoll_def
      setBusyPollSyscall_def setBusyPollSyscall_linux_def setBusyPollSyscall_darwin_def
      setBusyPollSyscall_other_def soBusyPoll_def perform_def)

end
