(* ===== verification/Errors.thy ===== *)
theory Errors
  imports Parser
begin

text \<open>
  The error values of \<^verbatim>\<open>src/error.go\<close> as the program passes them around: sentinels wrapped in
  \<^verbatim>\<open>ParseError\<close>, and \<^verbatim>\<open>DecodeError\<close> with a message. The parser's functions return the sentinel, a
  \<open>parse_error\<close>; \<open>newParseError\<close> is the value their callers see, which the listener sorts with
  \<^verbatim>\<open>errors.Is\<close>. The decoder's errors are the constructors of \<open>decode_error\<close>; none of them wraps another.
\<close>

section \<open>Error values\<close>

text \<open>
  \<open>Foreign\<close> is an error of another package that wraps nothing. A missing inner error is \<^verbatim>\<open>nil\<close>.
\<close>

datatype go_error =
    Sentinel parse_error
  | Foreign string
  | ParseError (pe_Err: "go_error option")
  | DecodeError (de_Msg: string) (de_Err: "go_error option")

fun sentinel_text :: "parse_error \<Rightarrow> string" where
  "sentinel_text ErrTooShort = ''shred too short''"
| "sentinel_text ErrUnknownVariant = ''unknown variant''"
| "sentinel_text ErrPayloadInvalid = ''payload invalid''"

text \<open>The text of an error; \<open>None\<close> is the panic on a \<^verbatim>\<open>ParseError\<close> without an inner error.\<close>

fun Error :: "go_error \<Rightarrow> string option" where
  "Error (Sentinel e) = Some (sentinel_text e)"
| "Error (Foreign msg) = Some msg"
| "Error (ParseError None) = None"
| "Error (ParseError (Some e)) = Error e"
| "Error (DecodeError msg None) = Some msg"
| "Error (DecodeError msg (Some e)) = map_option (\<lambda>inner. msg @ '': '' @ inner) (Error e)"

fun Unwrap :: "go_error \<Rightarrow> go_error option" where
  "Unwrap (ParseError e) = e"
| "Unwrap (DecodeError msg e) = e"
| "Unwrap _ = None"

definition newParseError :: "parse_error \<Rightarrow> go_error" where
  "newParseError e = ParseError (Some (Sentinel e))"

text \<open>
  \<^verbatim>\<open>errors.Is\<close> for a sentinel as the target: the error itself, its own \<^verbatim>\<open>Is\<close> method, then the error it
  wraps. Only \<^verbatim>\<open>ParseError\<close> has the method, which asks the same of its inner error.
\<close>

fun errors_Is :: "go_error \<Rightarrow> parse_error \<Rightarrow> bool"
  and ParseError_Is :: "go_error option \<Rightarrow> parse_error \<Rightarrow> bool" where
  "errors_Is (Sentinel e) target = (e = target)"
| "errors_Is (Foreign msg) target = False"
| "errors_Is (ParseError e) target =
     (ParseError_Is e target \<or> (case e of None \<Rightarrow> False | Some inner \<Rightarrow> errors_Is inner target))"
| "errors_Is (DecodeError msg e) target = (case e of None \<Rightarrow> False | Some inner \<Rightarrow> errors_Is inner target)"
| "ParseError_Is None target = False"
| "ParseError_Is (Some e) target = errors_Is e target"

section \<open>What a test finds\<close>

lemma parse_error_is [simp]: "errors_Is (newParseError e) target \<longleftrightarrow> e = target"
  by (simp add: newParseError_def)

text \<open>What \<^verbatim>\<open>errors.Is\<close> finds is a sentinel at the end of the chain of wrapped errors.\<close>

fun root_cause :: "go_error \<Rightarrow> go_error" where
  "root_cause (ParseError (Some e)) = root_cause e"
| "root_cause (DecodeError msg (Some e)) = root_cause e"
| "root_cause e = e"

lemma errors_Is_root: "errors_Is err target \<longleftrightarrow> root_cause err = Sentinel target"
  by (induction err rule: root_cause.induct) auto

text \<open>Wrapping keeps the text, and different sentinels have different texts.\<close>

lemma parse_error_text: "Error (newParseError e) = Some (sentinel_text e)"
  by (simp add: newParseError_def)

lemma sentinel_text_inj: "sentinel_text d = sentinel_text e \<longleftrightarrow> d = e"
  by (cases d; cases e) simp_all

end
