(* ===== verification/Listener.thy ===== *)
theory Listener
  imports Accumulator_Fec Tuning Errors
begin

text \<open>
  The listener, \<^verbatim>\<open>src/listener.go\<close>: acceptance of slots, routing of parsed packets to
  the accumulators of their slots, eviction of old slots with harvest of their tails, the buffer
  fallback, receiving from the socket and the iterators. The atomic counters are the record
  \<open>counters\<close>; pool and codec cache are the \<open>world\<close> the accumulators share. The mutex makes
  every operation here one step; what \<^verbatim>\<open>recvOne\<close> does between its two critical sections is split
  off, so that other operations may run in between. An operation that does not return is
  \<open>None\<close>.
\<close>

section \<open>Constants and state\<close>

definition maxPlausibleSlot :: u64 where "maxPlausibleSlot = push_bit 40 1"
definition maxSlotJumpForward :: u64 where "maxSlotJumpForward = 1000000"
definition maxBootstrapSlot :: u64 where "maxBootstrapSlot = 10000000000"
definition blacklistExtraSlots :: u64 where "blacklistExtraSlots = 50"
definition completedRetentionSlots :: u64 where "completedRetentionSlots = 1"
definition maxLiveSlots :: nat where "maxLiveSlots = 64"

record slotBatch =
  sb_slot :: u64
  sb_txs :: "VersionedTransaction list"

record counters =
  poolExhausted :: u64
  dataShredCount :: u64
  codeShredCount :: u64
  bytesReceived :: u64
  unparseableTooShort :: u64
  unparseableVariant :: u64
  unparseablePayload :: u64
  unparseableSlotRange :: u64
  droppedKnownSlots :: u64
  decodeErrorsTotal :: u64
  fecRecoveriesTotal :: u64
  fecRecoveryFailuresTotal :: u64
  batchesSkippedTotal :: u64
  batchesDecodedStreamingTotal :: u64
  batchesDecodedFallbackTotal :: u64
  slotsCompletedTotal :: u64
  slotsEvictedByAge :: u64
  harvestedBatchesTotal :: u64
  salvagedTailTxTotal :: u64
  fecSetsDiscardedUnusedTotal :: u64
  fecSetsEvictedEarlyTotal :: u64
  batchesForceFinalizedCorruptedTotal :: u64
  batchesForceFinalizedTimeoutTotal :: u64

record Listener =
  l_world :: world
  slots :: "(u64 \<times> slotAccumulator) list"
  recentlySeenSlots :: "u64 list"
  pendingBatches :: "slotBatch list"
  l_maxAge :: u64
  lastSlot :: u64
  enableFEC :: bool
  disableSalvageDelivery :: bool
  accumulatorCfg :: AccumulatorConfig
  hasSocket :: bool
  busyPollActive :: bool
  lastIOErrKind :: string
  ctr :: counters

definition zero_counters :: counters where
  "zero_counters =
     \<lparr>poolExhausted = 0, dataShredCount = 0, codeShredCount = 0, bytesReceived = 0,
      unparseableTooShort = 0, unparseableVariant = 0, unparseablePayload = 0,
      unparseableSlotRange = 0, droppedKnownSlots = 0, decodeErrorsTotal = 0, fecRecoveriesTotal = 0,
      fecRecoveryFailuresTotal = 0, batchesSkippedTotal = 0, batchesDecodedStreamingTotal = 0,
      batchesDecodedFallbackTotal = 0, slotsCompletedTotal = 0, slotsEvictedByAge = 0,
      harvestedBatchesTotal = 0, salvagedTailTxTotal = 0, fecSetsDiscardedUnusedTotal = 0,
      fecSetsEvictedEarlyTotal = 0, batchesForceFinalizedCorruptedTotal = 0,
      batchesForceFinalizedTimeoutTotal = 0\<rparr>"

text \<open>
  \<open>None\<close> is the panic of the pool constructor. \<^verbatim>\<open>uint64(opts.MaxAge)\<close> wraps a negative age. The
  socket is set by the callers.
\<close>

definition newListener :: "ListenerOptions \<Rightarrow> Listener option" where
  "newListener opts =
     (case newBufferPool (PoolSize opts) of
        None \<Rightarrow> None
      | Some p \<Rightarrow> Some
         \<lparr>l_world = \<lparr>w_pool = p, w_cache = newReedSolomonCache, w_ticks = 0\<rparr>,
          slots = [], recentlySeenSlots = [], pendingBatches = [], l_maxAge = of_int (MaxAge opts),
          lastSlot = 0, enableFEC = EnableFEC opts, disableSalvageDelivery = DisableSalvageDelivery opts,
          accumulatorCfg = Accumulator opts, hasSocket = False, busyPollActive = False,
          lastIOErrKind = [], ctr = zero_counters\<rparr>)"

definition OfflineWithOptions :: "ListenerOptions \<Rightarrow> Listener option" where
  "OfflineWithOptions opts = newListener opts"

definition Offline :: "Listener option" where
  "Offline = OfflineWithOptions DefaultListenerOptions"

text \<open>The connection that \<^verbatim>\<open>FromConn\<close> is given is not \<^verbatim>\<open>nil\<close>.\<close>

definition FromConn :: "ListenerOptions \<Rightarrow> Listener option" where
  "FromConn opts = map_option (hasSocket_update (\<lambda>_. True)) (newListener opts)"

text \<open>
  Binding: the listener and the system calls made. The error is that of the validation or of
  opening the socket; the outer \<open>None\<close> is the panic of the pool constructor.
\<close>

definition BindWithOptions :: "sysenv \<Rightarrow> int \<Rightarrow> ListenerOptions \<Rightarrow> sys_call list
    \<Rightarrow> ((options_error + io_error) + Listener) option \<times> sys_call list" where
  "BindWithOptions sys port opts tr =
     (case validate opts of
        Some e \<Rightarrow> (Some (Inl (Inl e)), tr)
      | None \<Rightarrow>
         (case listen_answer sys tr port of
            Inl e \<Rightarrow> (Some (Inl (Inr e)), tr @ [ListenUDP port])
          | Inr descriptor \<Rightarrow>
             (let tr = tr @ [ListenUDP port] in
              case newListener opts of
                None \<Rightarrow> (None, tr)
              | Some l \<Rightarrow>
                 (let l = l\<lparr>hasSocket := True\<rparr> in
                  case descriptor of
                    None \<Rightarrow> (Some (Inr l), tr)
                  | Some fd \<Rightarrow>
                     (case tuneSocket sys opts fd tr of
                        (busyOK, tr) \<Rightarrow> (Some (Inr (l\<lparr>busyPollActive := busyOK\<rparr>)), tr))))))"

definition Bind :: "sysenv \<Rightarrow> int \<Rightarrow> sys_call list
    \<Rightarrow> ((options_error + io_error) + Listener) option \<times> sys_call list" where
  "Bind sys port tr = BindWithOptions sys port DefaultListenerOptions tr"

text \<open>Changing a counter.\<close>

definition bump :: "(counters \<Rightarrow> counters) \<Rightarrow> Listener \<Rightarrow> Listener" where
  "bump f l = l\<lparr>ctr := f (ctr l)\<rparr>"

definition l_pool_release :: "BufferHandle \<Rightarrow> Listener \<Rightarrow> Listener" where
  "l_pool_release h l = l\<lparr>l_world := release_handle (Some h) (l_world l)\<rparr>"

section \<open>Slot acceptance and parse errors\<close>

definition acceptSlot :: "u64 \<Rightarrow> Listener \<Rightarrow> bool \<times> Listener" where
  "acceptSlot slot l =
     (if slot > maxPlausibleSlot then (False, bump (unparseableSlotRange_update (\<lambda>n. n + 1)) l)
      else if lastSlot l = 0 \<and> slot > maxBootstrapSlot
        then (False, bump (unparseableSlotRange_update (\<lambda>n. n + 1)) l)
      else if lastSlot l > 0 \<and> slot > lastSlot l \<and> slot - lastSlot l > maxSlotJumpForward
        then (False, bump (unparseableSlotRange_update (\<lambda>n. n + 1)) l)
      else if map_of (slots l) slot = None \<and> length (slots l) \<ge> maxLiveSlots
        then (False, bump (unparseableSlotRange_update (\<lambda>n. n + 1)) l)
      else (True, l))"

definition bumpParseError :: "go_error \<Rightarrow> Listener \<Rightarrow> Listener" where
  "bumpParseError err l =
     (if errors_Is err ErrTooShort then bump (unparseableTooShort_update (\<lambda>n. n + 1)) l
      else if errors_Is err ErrUnknownVariant then bump (unparseableVariant_update (\<lambda>n. n + 1)) l
      else if errors_Is err ErrPayloadInvalid then bump (unparseablePayload_update (\<lambda>n. n + 1)) l
      else bump (unparseablePayload_update (\<lambda>n. n + 1)) l)"

lemma bumpParseError_new [simp]:
  "bumpParseError (newParseError ErrTooShort) l = bump (unparseableTooShort_update (\<lambda>n. n + 1)) l"
  "bumpParseError (newParseError ErrUnknownVariant) l = bump (unparseableVariant_update (\<lambda>n. n + 1)) l"
  "bumpParseError (newParseError ErrPayloadInvalid) l = bump (unparseablePayload_update (\<lambda>n. n + 1)) l"
  by (simp_all add: bumpParseError_def)

section \<open>Eviction\<close>

definition rollupAccumulator :: "slotAccumulator \<Rightarrow> Listener \<Rightarrow> Listener" where
  "rollupAccumulator acc l = bump (\<lambda>c. c
     \<lparr>decodeErrorsTotal := decodeErrorsTotal c + ucast (decodeErrors acc),
      fecRecoveriesTotal := fecRecoveriesTotal c + recoveriesDone acc,
      fecRecoveryFailuresTotal := fecRecoveryFailuresTotal c + recoveryFailures acc,
      batchesSkippedTotal := batchesSkippedTotal c + batchesSkipped acc,
      batchesDecodedStreamingTotal := batchesDecodedStreamingTotal c + batchesDecodedStreaming acc,
      batchesDecodedFallbackTotal := batchesDecodedFallbackTotal c + batchesDecodedFallback acc,
      salvagedTailTxTotal := salvagedTailTxTotal c + salvagedTailTx acc,
      fecSetsDiscardedUnusedTotal := fecSetsDiscardedUnusedTotal c + fecSetsDiscardedUnused acc,
      fecSetsEvictedEarlyTotal := fecSetsEvictedEarlyTotal c + fecSetsEvictedEarly acc,
      batchesForceFinalizedCorruptedTotal :=
        batchesForceFinalizedCorruptedTotal c + batchesForceFinalizedCorrupted acc,
      batchesForceFinalizedTimeoutTotal :=
        batchesForceFinalizedTimeoutTotal c + batchesForceFinalizedTimeout acc\<rparr>) l"

text \<open>
  The body both evictions share: harvest the tail, keep it for delivery, roll the statistics
  up, release the buffers and remember the slot. A slot that is not live is skipped.
\<close>

definition evictSlot :: "environ \<Rightarrow> u64 \<Rightarrow> Listener \<Rightarrow> Listener option" where
  "evictSlot env s l =
     (case map_of (slots l) s of
        None \<Rightarrow> Some l
      | Some acc \<Rightarrow>
         (let l = l\<lparr>slots := AList.delete s (slots l)\<rparr>; preSalvage = salvagedTailTx acc in
          Option.bind (tryHarvestTail env acc (l_world l)) (\<lambda>(acc, w, tail).
            (let l = l\<lparr>l_world := w\<rparr>;
                 harvested = (tail \<noteq> [] \<or> salvagedTailTx acc > preSalvage);
                 l = (if harvested then bump (harvestedBatchesTotal_update (\<lambda>n. n + 1)) l else l);
                 l = (if tail \<noteq> []
                      then l\<lparr>pendingBatches := pendingBatches l @ [\<lparr>sb_slot = s, sb_txs = tail\<rparr>]\<rparr> else l);
                 l = (if slotComplete acc then bump (slotsCompletedTotal_update (\<lambda>n. n + 1)) l
                      else bump (slotsEvictedByAge_update (\<lambda>n. n + 1)) l);
                 l = rollupAccumulator acc l
             in case acc_release env acc (l_world l) of
                  (acc, w) \<Rightarrow> Some (l\<lparr>l_world := w, recentlySeenSlots := List.insert s (recentlySeenSlots l)\<rparr>)))))"

fun evictAll :: "environ \<Rightarrow> u64 list \<Rightarrow> Listener \<Rightarrow> Listener option" where
  "evictAll env [] l = Some l"
| "evictAll env (s # ss) l = Option.bind (evictSlot env s l) (evictAll env ss)"

definition expired :: "Listener \<Rightarrow> u64 \<Rightarrow> bool" where
  "expired l s =
     (case map_of (slots l) s of
        None \<Rightarrow> False
      | Some acc \<Rightarrow>
         (let threshold = (if slotComplete acc then completedRetentionSlots else l_maxAge l) in
          lastSlot l > saturatingAddU64 s threshold))"

definition order64 :: "environ \<Rightarrow> u64 list \<Rightarrow> world \<Rightarrow> u64 list \<times> world" where
  "order64 env ks w = (slotOrder env (w_ticks w) ks, w\<lparr>w_ticks := Suc (w_ticks w)\<rparr>)"

definition evictOldSlots :: "environ \<Rightarrow> Listener \<Rightarrow> Listener option" where
  "evictOldSlots env l =
     (case order64 env (map fst (slots l)) (l_world l) of
        (ks, w) \<Rightarrow>
         (let l = l\<lparr>l_world := w\<rparr>; toEvict = filter (expired l) ks in
          Option.bind (evictAll env toEvict l) (\<lambda>l.
            (let floor = saturatingSubU64 (lastSlot l) (saturatingAddU64 (l_maxAge l) blacklistExtraSlots) in
             Some (l\<lparr>recentlySeenSlots := filter (\<lambda>s. \<not> s < floor) (recentlySeenSlots l)\<rparr>)))))"

definition oldestSlot :: "Listener \<Rightarrow> u64 option" where
  "oldestSlot l =
     fold (\<lambda>s m. case m of None \<Rightarrow> Some s | Some old \<Rightarrow> if s < old then Some s else m)
       (map fst (slots l)) None"

definition forceEvictOldestSlot :: "environ \<Rightarrow> Listener \<Rightarrow> Listener option" where
  "forceEvictOldestSlot env l =
     (case oldestSlot l of
        None \<Rightarrow> Some l
      | Some oldest \<Rightarrow> evictSlot env oldest l)"

definition l_acquire :: "Listener \<Rightarrow> (BufferHandle \<times> Listener) option" where
  "l_acquire l =
     map_option (\<lambda>(h, p). (h, l\<lparr>l_world := (l_world l)\<lparr>w_pool := p\<rparr>\<rparr>)) (acquire (w_pool (l_world l)))"

text \<open>The outer option is non-termination, the inner one an exhausted pool.\<close>

definition acquireBufferWithFallback :: "environ \<Rightarrow> Listener \<Rightarrow> (BufferHandle option \<times> Listener) option" where
  "acquireBufferWithFallback env l =
     (case l_acquire l of
        Some (h, l) \<Rightarrow> Some (Some h, l)
      | None \<Rightarrow>
         Option.bind (evictOldSlots env l) (\<lambda>l.
           case l_acquire l of
             Some (h, l) \<Rightarrow> Some (Some h, l)
           | None \<Rightarrow>
              Option.bind (forceEvictOldestSlot env l) (\<lambda>l.
                case l_acquire l of
                  Some (h, l) \<Rightarrow> Some (Some h, l)
                | None \<Rightarrow> Some (None, bump (poolExhausted_update (\<lambda>n. n + 1)) l))))"

section \<open>Packets\<close>

type_synonym packet_result = "u64 \<times> VersionedTransaction list \<times> bool"

definition no_result :: packet_result where
  "no_result = (0, [], False)"

definition hit_result :: "u64 \<Rightarrow> VersionedTransaction list \<Rightarrow> packet_result" where
  "hit_result slot txs = (if txs = [] then no_result else (slot, txs, True))"

text \<open>A newer slot moves the last slot forward and evicts what has become old.\<close>

definition noteSlot :: "environ \<Rightarrow> u64 \<Rightarrow> Listener \<Rightarrow> Listener option" where
  "noteSlot env slot l =
     (if slot > lastSlot l then evictOldSlots env (l\<lparr>lastSlot := slot\<rparr>) else Some l)"

definition slotAcc :: "u64 \<Rightarrow> Listener \<Rightarrow> slotAccumulator" where
  "slotAcc slot l =
     (case map_of (slots l) slot of
        Some acc \<Rightarrow> acc
      | None \<Rightarrow> (newSlotAccumulator (accumulatorCfg l))
                 \<lparr>ac_disableSalvageDelivery := disableSalvageDelivery l\<rparr>)"

definition putSlot :: "u64 \<Rightarrow> slotAccumulator \<Rightarrow> world \<Rightarrow> Listener \<Rightarrow> Listener" where
  "putSlot slot acc w l = l\<lparr>slots := AList.update slot acc (slots l), l_world := w\<rparr>"

definition handleData :: "environ \<Rightarrow> BufferHandle \<Rightarrow> DataShred \<Rightarrow> Listener \<Rightarrow> (packet_result \<times> Listener) option" where
  "handleData env h d l =
     (let slot = ds_Slot d; payloadEnd = of_nat (DataHeaderSize + length (ds_Payload d)) in
      case acceptSlot slot l of
        (False, l) \<Rightarrow> Some (no_result, l_pool_release h l)
      | (True, l) \<Rightarrow>
         (if slot \<in> set (recentlySeenSlots l) then
            Some (no_result, l_pool_release h (bump (droppedKnownSlots_update (\<lambda>n. n + 1)) l))
          else
            Option.bind (noteSlot env slot (bump (dataShredCount_update (\<lambda>n. n + 1)) l)) (\<lambda>l.
            Option.bind (pushData env (ds_Index d) (ds_FecSetIndex d) (Some h) payloadEnd
                (ds_BatchComplete d) (ds_LastInSlot d) (slotAcc slot l) (l_world l)) (\<lambda>(acc, w, txs).
              Some (hit_result slot txs, putSlot slot acc w l)))))"

definition handleCode :: "environ \<Rightarrow> BufferHandle \<Rightarrow> CodeShred \<Rightarrow> Listener \<Rightarrow> (packet_result \<times> Listener) option" where
  "handleCode env h c l =
     (let slot = cs_Slot c in
      case acceptSlot slot l of
        (False, l) \<Rightarrow> Some (no_result, l_pool_release h l)
      | (True, l) \<Rightarrow>
         (if slot \<in> set (recentlySeenSlots l) then
            Some (no_result, l_pool_release h (bump (droppedKnownSlots_update (\<lambda>n. n + 1)) l))
          else
            (let l = bump (codeShredCount_update (\<lambda>n. n + 1)) l in
             if \<not> enableFEC l then Some (no_result, l_pool_release h l)
             else
               Option.bind (noteSlot env slot l) (\<lambda>l.
               Option.bind (pushCode env (cs_FecSetIndex c) (cs_NumDataShreds c) (cs_NumCodingShreds c)
                   (cs_Position c) (cs_Coded c) (cs_Variant c) (slotAcc slot l) (l_world l)) (\<lambda>(acc, w, txs).
                 Some (hit_result slot txs, l_pool_release h (putSlot slot acc w l)))))))"

fun handlePacketParsed :: "environ \<Rightarrow> BufferHandle \<Rightarrow> ShredKind \<Rightarrow> Listener
    \<Rightarrow> (packet_result \<times> Listener) option" where
  "handlePacketParsed env h (DataKind d) l = handleData env h d l"
| "handlePacketParsed env h (CodeKind c) l = handleCode env h c l"

definition handlePacketOwned :: "environ \<Rightarrow> BufferHandle \<Rightarrow> Listener \<Rightarrow> (packet_result \<times> Listener) option" where
  "handlePacketOwned env h l =
     (let l = bump (bytesReceived_update (\<lambda>n. n + of_nat (Len (Some h)))) l in
      case ParseKind (Bytes (w_pool (l_world l)) (Some h)) of
        Inl err \<Rightarrow> Some (no_result, l_pool_release h (bumpParseError (newParseError err) l))
      | Inr kd \<Rightarrow> handlePacketParsed env h kd l)"

text \<open>The first \<open>n\<close> bytes of a packet are copied into the buffer, whose length becomes \<open>n\<close>.\<close>

definition fillBuffer :: "BufferHandle \<Rightarrow> byte list \<Rightarrow> Listener \<Rightarrow> BufferHandle \<times> Listener" where
  "fillBuffer h raw l =
     (let n = min (length raw) BufferSize;
          w = l_world l in
      (the (SetLen (int n) h), l\<lparr>l_world := w\<lparr>w_pool := write_buf h (take n raw) (w_pool w)\<rparr>\<rparr>))"

definition handlePacketLocked :: "environ \<Rightarrow> byte list \<Rightarrow> Listener \<Rightarrow> (packet_result \<times> Listener) option" where
  "handlePacketLocked env raw l =
     Option.bind (acquireBufferWithFallback env l) (\<lambda>(ho, l).
       case ho of
         None \<Rightarrow> Some (no_result, l)
       | Some h \<Rightarrow> (case fillBuffer h raw l of (h, l) \<Rightarrow> handlePacketOwned env h l))"

definition HandlePacket :: "environ \<Rightarrow> byte list \<Rightarrow> Listener \<Rightarrow> (packet_result \<times> Listener) option" where
  "HandlePacket env raw l = handlePacketLocked env raw l"

section \<open>Receiving from the socket\<close>

text \<open>What the socket returns from one read. A datagram longer than the buffer is cut by the read.\<close>

datatype io_result = Datagram "byte list" | IoError io_error

fun contains :: "string \<Rightarrow> string \<Rightarrow> bool" where
  "contains [] sub = (sub = [])"
| "contains (c # cs) sub = (take (length sub) (c # cs) = sub \<or> contains cs sub)"

definition isRecoverableIOError :: "io_error \<Rightarrow> bool" where
  "isRecoverableIOError e \<longleftrightarrow>
     ioe_timeout e \<or> ioe_eintr e \<or> ioe_eagain e \<or> ioe_deadline e \<or>
     contains (ioe_msg e) ''would block'' \<or> contains (ioe_msg e) ''interrupted'' \<or>
     contains (ioe_msg e) ''timed out''"

definition offline_error :: io_error where
  "offline_error = \<lparr>ioe_timeout = False, ioe_eintr = False, ioe_eagain = False, ioe_deadline = False,
     ioe_msg = ''listener: offline mode, no socket''\<rparr>"

text \<open>
  The operations that only forward to the socket, whose result is an argument, and report the
  error of a listener without one.
\<close>

definition Close :: "io_error option \<Rightarrow> Listener \<Rightarrow> io_error option" where
  "Close closed l = (if \<not> hasSocket l then None else closed)"

definition LocalAddr :: "'addr \<Rightarrow> Listener \<Rightarrow> io_error + 'addr" where
  "LocalAddr addr l = (if \<not> hasSocket l then Inl offline_error else Inr addr)"

definition SetReadDeadline :: "io_error option \<Rightarrow> Listener \<Rightarrow> io_error option" where
  "SetReadDeadline result l = (if \<not> hasSocket l then Some offline_error else result)"

text \<open>The first critical section of \<^verbatim>\<open>recvOne\<close>: a kept batch, an error, or a buffer to read into.\<close>

datatype recv_start = KeptBatch slotBatch | NoSocket | PoolEmpty | ReadInto BufferHandle

definition recvBegin :: "environ \<Rightarrow> Listener \<Rightarrow> (recv_start \<times> Listener) option" where
  "recvBegin env l =
     (case pendingBatches l of
        b # bs \<Rightarrow> Some (KeptBatch b, l\<lparr>pendingBatches := bs\<rparr>)
      | [] \<Rightarrow>
         (if \<not> hasSocket l then Some (NoSocket, l)
          else Option.bind (acquireBufferWithFallback env l) (\<lambda>(ho, l).
            Some (case ho of None \<Rightarrow> PoolEmpty | Some h \<Rightarrow> ReadInto h, l))))"

text \<open>
  The rest of \<^verbatim>\<open>recvOne\<close>, after the read into the buffer \<open>h\<close> has returned. Counting and parsing happen before
  the mutex is taken again. They touch only the buffer, which no other call holds, and atomic counters that
  no operation reads to decide anything, so they commute with whatever runs before the second
  critical section, and the step is taken as a whole.
\<close>

definition recvEnd :: "environ \<Rightarrow> BufferHandle \<Rightarrow> io_result \<Rightarrow> Listener
    \<Rightarrow> (packet_result \<times> io_error option \<times> Listener) option" where
  "recvEnd env h io l =
     (case io of
        IoError e \<Rightarrow> Some (no_result, Some e, l_pool_release h l)
      | Datagram raw \<Rightarrow>
         (case fillBuffer h raw l of
            (h, l) \<Rightarrow> map_option (\<lambda>(r, l). (r, None, l)) (handlePacketOwned env h l)))"

text \<open>
  One call of \<^verbatim>\<open>recvOne\<close> without interleaving, on the reads that are still to come; \<open>Inl\<close> is a call
  that waits in a read.
\<close>

definition recvOne :: "environ \<Rightarrow> io_result list \<Rightarrow> Listener
    \<Rightarrow> (Listener + packet_result \<times> io_error option \<times> io_result list \<times> Listener) option" where
  "recvOne env ios l =
     Option.bind (recvBegin env l) (\<lambda>(st, l).
       case st of
         KeptBatch b \<Rightarrow> Some (Inr ((sb_slot b, sb_txs b, True), None, ios, l))
       | NoSocket \<Rightarrow> Some (Inr (no_result, Some offline_error, ios, l))
       | PoolEmpty \<Rightarrow> (case ios of [] \<Rightarrow> Some (Inl l) | io # ios \<Rightarrow> Some (Inr (no_result, None, ios, l)))
       | ReadInto h \<Rightarrow>
          (case ios of
             [] \<Rightarrow> Some (Inl l)
           | io # ios \<Rightarrow> map_option (\<lambda>(r, e, l). Inr (r, e, ios, l)) (recvEnd env h io l)))"

section \<open>Iterators\<close>

record TransactionIter =
  ti_slot :: u64
  ti_txs :: "VersionedTransaction list"
  ti_err :: "io_error option"
  ti_done :: bool

definition Transactions :: TransactionIter where
  "Transactions = \<lparr>ti_slot = 0, ti_txs = [], ti_err = None, ti_done = False\<rparr>"

text \<open>
  The loop of \<^verbatim>\<open>Next\<close>. \<open>done k\<close> says whether the context is cancelled at the \<open>k\<close>-th check; without a
  context it is always false. \<open>Inl\<close> is an iterator that waits in a read. Every turn that goes on has
  consumed a read.
\<close>

type_synonym 'it next_result = "Listener + bool \<times> 'it \<times> io_result list \<times> Listener"

definition fail_iter :: "io_error \<Rightarrow> Listener \<Rightarrow> Listener" where
  "fail_iter e l = l\<lparr>lastIOErrKind := ioe_msg e\<rparr>"

definition txTurn :: "environ \<Rightarrow> io_result list \<Rightarrow> TransactionIter \<Rightarrow> Listener
    \<Rightarrow> (TransactionIter next_result + io_result list \<times> Listener) option" where
  "txTurn env ios it l =
     map_option (\<lambda>res. case res of
         Inl l \<Rightarrow> Inl (Inl l)
       | Inr ((slot, txs, ok), err, ios, l) \<Rightarrow>
          (case err of
             Some e \<Rightarrow>
              (if isRecoverableIOError e then Inr (ios, l)
               else Inl (Inr (False, it\<lparr>ti_err := Some e, ti_done := True\<rparr>, ios, fail_iter e l)))
           | None \<Rightarrow>
              (if \<not> ok then Inr (ios, l)
               else Inl (Inr (True, it\<lparr>ti_slot := slot, ti_txs := txs\<rparr>, ios, l)))))
       (recvOne env ios l)"

lemma recvOne_consumes:
  assumes "recvOne env ios l = Some (Inr (r, e, ios', l'))"
  shows "length ios' < length ios \<or> e = Some offline_error \<or> (\<exists>slot txs. r = (slot, txs, True) \<and> e = None)"
proof -
  obtain st l1 where b: "recvBegin env l = Some (st, l1)"
    using assms by (auto simp: recvOne_def bind_eq_Some_conv)
  show ?thesis
    using assms b by (cases st; cases ios) (auto simp: recvOne_def)
qed

lemma offline_fatal: "\<not> isRecoverableIOError offline_error"
  by (simp add: isRecoverableIOError_def offline_error_def)

lemma txTurn_consumes:
  assumes "txTurn env ios it l = Some (Inr (ios', l'))"
  shows "length ios' < length ios"
proof -
  obtain res where res: "recvOne env ios l = Some res" using assms by (auto simp: txTurn_def)
  show ?thesis
  proof (cases res)
    case (Inl l1)
    then show ?thesis using assms res by (simp add: txTurn_def)
  next
    case (Inr p)
    obtain slot txs ok err ios1 l1 where p: "p = ((slot, txs, ok), err, ios1, l1)" by (metis prod_cases3)
    have "ios1 = ios' \<and> err \<noteq> Some offline_error \<and> (err = None \<longrightarrow> \<not> ok)"
      using assms res Inr p offline_fatal by (auto simp: txTurn_def split: option.splits if_splits)
    then show ?thesis using recvOne_consumes [of env ios l "(slot, txs, ok)" err ios1 l1] res Inr p by auto
  qed
qed

function txLoop :: "environ \<Rightarrow> (nat \<Rightarrow> bool) \<Rightarrow> nat \<Rightarrow> io_result list \<Rightarrow> TransactionIter \<Rightarrow> Listener
    \<Rightarrow> TransactionIter next_result option" where
  "txLoop env cancelled k ios it l =
     (if cancelled k then Some (Inr (False, it\<lparr>ti_done := True\<rparr>, ios, l))
      else case txTurn env ios it l of
        None \<Rightarrow> None
      | Some (Inl res) \<Rightarrow> Some res
      | Some (Inr (ios, l)) \<Rightarrow> txLoop env cancelled (Suc k) ios it l)"
  by pat_completeness auto
termination
  by (relation "measure (\<lambda>(env, cancelled, k, ios, it, l). length ios)") (auto dest: txTurn_consumes)

declare txLoop.simps [simp del]

definition txNext :: "environ \<Rightarrow> (nat \<Rightarrow> bool) \<Rightarrow> io_result list \<Rightarrow> TransactionIter \<Rightarrow> Listener
    \<Rightarrow> TransactionIter next_result option" where
  "txNext env cancelled ios it l =
     (if ti_done it then Some (Inr (False, it, ios, l)) else txLoop env cancelled 0 ios it l)"

record RawShred =
  rs_Slot :: u64
  rs_Index :: u32
  rs_PayloadLen :: nat

record ShredIter =
  si_parsed :: ParsedShred
  si_err :: "io_error option"
  si_done :: bool

definition Shreds :: ShredIter where
  "Shreds = \<lparr>si_parsed = \<lparr>ps_Slot = 0, ps_Index = 0, ps_Payload = [], ps_BatchComplete = False,
     ps_LastInSlot = False\<rparr>, si_err = None, si_done = False\<rparr>"

fun shredLoop :: "(nat \<Rightarrow> bool) \<Rightarrow> nat \<Rightarrow> io_result list \<Rightarrow> ShredIter \<Rightarrow> Listener \<Rightarrow> ShredIter next_result" where
  "shredLoop cancelled k ios it l =
     (if cancelled k then Inr (False, it\<lparr>si_done := True\<rparr>, ios, l)
      else if \<not> hasSocket l then Inr (False, it\<lparr>si_err := Some offline_error, si_done := True\<rparr>, ios, l)
      else case ios of
        [] \<Rightarrow> Inl l
      | IoError e # ios \<Rightarrow>
         (if isRecoverableIOError e then shredLoop cancelled (Suc k) ios it l
          else Inr (False, it\<lparr>si_err := Some e, si_done := True\<rparr>, ios, fail_iter e l))
      | Datagram raw # ios \<Rightarrow>
         (case ParseShred (take BufferSize raw) of
            None \<Rightarrow> shredLoop cancelled (Suc k) ios it l
          | Some ps \<Rightarrow> Inr (True, it\<lparr>si_parsed := ps\<rparr>, ios, l)))"

declare shredLoop.simps [simp del]

definition shredNext :: "(nat \<Rightarrow> bool) \<Rightarrow> io_result list \<Rightarrow> ShredIter \<Rightarrow> Listener \<Rightarrow> ShredIter next_result" where
  "shredNext cancelled ios it l =
     (if si_done it then Inr (False, it, ios, l) else shredLoop cancelled 0 ios it l)"

definition Shred :: "ShredIter \<Rightarrow> RawShred" where
  "Shred it = \<lparr>rs_Slot = ps_Slot (si_parsed it), rs_Index = ps_Index (si_parsed it),
     rs_PayloadLen = length (ps_Payload (si_parsed it))\<rparr>"

section \<open>Statistics\<close>

definition SlotCount :: "Listener \<Rightarrow> nat" where
  "SlotCount l = length (slots l)"

definition UnparseablePackets :: "Listener \<Rightarrow> u64" where
  "UnparseablePackets l =
     unparseableTooShort (ctr l) + unparseableVariant (ctr l) +
     unparseablePayload (ctr l) + unparseableSlotRange (ctr l)"

definition live_total :: "(counters \<Rightarrow> u64) \<Rightarrow> (slotAccumulator \<Rightarrow> u64) \<Rightarrow> Listener \<Rightarrow> u64" where
  "live_total ended one l = fold (\<lambda>(_, a) t. t + one a) (slots l) (ended (ctr l))"

definition DecodeErrorsTotal :: "Listener \<Rightarrow> u64" where
  "DecodeErrorsTotal = live_total decodeErrorsTotal (\<lambda>a. ucast (decodeErrors a))"

definition FECRecoveriesTotal :: "Listener \<Rightarrow> u64" where
  "FECRecoveriesTotal = live_total fecRecoveriesTotal recoveriesDone"

definition FECRecoveryFailuresTotal :: "Listener \<Rightarrow> u64" where
  "FECRecoveryFailuresTotal = live_total fecRecoveryFailuresTotal recoveryFailures"

definition BatchesSkippedTotal :: "Listener \<Rightarrow> u64" where
  "BatchesSkippedTotal = live_total batchesSkippedTotal batchesSkipped"

definition BatchesDecodedStreamingTotal :: "Listener \<Rightarrow> u64" where
  "BatchesDecodedStreamingTotal = live_total batchesDecodedStreamingTotal batchesDecodedStreaming"

definition BatchesDecodedFallbackTotal :: "Listener \<Rightarrow> u64" where
  "BatchesDecodedFallbackTotal = live_total batchesDecodedFallbackTotal batchesDecodedFallback"

definition SalvagedTailTxTotal :: "Listener \<Rightarrow> u64" where
  "SalvagedTailTxTotal = live_total salvagedTailTxTotal salvagedTailTx"

definition FECSetsDiscardedUnusedTotal :: "Listener \<Rightarrow> u64" where
  "FECSetsDiscardedUnusedTotal = live_total fecSetsDiscardedUnusedTotal fecSetsDiscardedUnused"

definition FECSetsEvictedEarlyTotal :: "Listener \<Rightarrow> u64" where
  "FECSetsEvictedEarlyTotal = live_total fecSetsEvictedEarlyTotal fecSetsEvictedEarly"

definition BatchesForceFinalizedCorruptedTotal :: "Listener \<Rightarrow> u64" where
  "BatchesForceFinalizedCorruptedTotal = live_total batchesForceFinalizedCorruptedTotal batchesForceFinalizedCorrupted"

definition BatchesForceFinalizedTimeoutTotal :: "Listener \<Rightarrow> u64" where
  "BatchesForceFinalizedTimeoutTotal = live_total batchesForceFinalizedTimeoutTotal batchesForceFinalizedTimeout"

end
