(* ===== verification/Listener_Inv.thy ===== *)
theory Listener_Inv
  imports Listener
begin

text \<open>
  Invariants of the listener. What it relies on of its slot accumulators is the interface
  \<open>slot_component\<close>, interpreted by the accumulator of this development; the steps of the
  listener, including those of concurrent calls of \<^verbatim>\<open>recvOne\<close> that wait in a read, form an
  inductive step relation whose reachable states satisfy the invariant.
\<close>

section \<open>The accumulator interface\<close>

text \<open>
  A component holds resources (\<open>claim\<close>); \<open>free H w\<close> says that the shared state \<open>w\<close> is
  consistent while exactly the resources \<open>H\<close> are held. A step takes over the resources its input
  brings, and releasing after a harvest gives all of a component's resources back.
\<close>

locale slot_component =
  fixes fair :: "'e \<Rightarrow> bool"
    and local_ok :: "'a \<Rightarrow> bool"
    and claim :: "'a \<Rightarrow> 'r multiset"
    and free :: "'r multiset \<Rightarrow> 'w \<Rightarrow> bool"
    and brings :: "'p \<Rightarrow> 'r multiset"
    and step :: "'e \<Rightarrow> 'p \<Rightarrow> 'a \<Rightarrow> 'w \<Rightarrow> ('a \<times> 'w \<times> 'o) option"
    and harvest :: "'e \<Rightarrow> 'a \<Rightarrow> 'w \<Rightarrow> ('a \<times> 'w \<times> 'o) option"
    and release :: "'e \<Rightarrow> 'a \<Rightarrow> 'w \<Rightarrow> 'a \<times> 'w"
  assumes step_ok: "fair e \<Longrightarrow> local_ok a \<Longrightarrow> free (claim a + (brings p + H)) w \<Longrightarrow> step e p a w = Some (b, v, out)
      \<Longrightarrow> local_ok b \<and> free (claim b + H) v"
    and harvest_ok: "fair e \<Longrightarrow> local_ok a \<Longrightarrow> free (claim a + H) w \<Longrightarrow> harvest e a w = Some (b, v, out)
      \<Longrightarrow> local_ok b \<and> free (claim b + H) v"
    and release_ok: "fair e \<Longrightarrow> local_ok a \<Longrightarrow> free (claim a + H) w \<Longrightarrow> release e a w = (b, v) \<Longrightarrow> free H v"
begin

lemma claims_remove:
  assumes "distinct (map fst xs)" and "map_of xs k = Some a"
  shows "(\<Sum>x\<in>#mset xs. claim (snd x)) = claim a + (\<Sum>x\<in>#mset (AList.delete k xs). claim (snd x))"
  using assms
proof (induction xs)
  case (Cons x xs)
  obtain j q where x: "x = (j, q)" by fastforce
  show ?case
  proof (cases "j = k")
    case True
    then have "k \<notin> fst ` set xs" using Cons.prems x by auto
    then have "AList.delete k xs = xs" by simp
    then show ?thesis using Cons.prems True x by simp
  next
    case False
    then show ?thesis using Cons x by (simp add: ac_simps)
  qed
qed simp

lemma claims_add:
  "k \<notin> fst ` set xs \<Longrightarrow>
    (\<Sum>x\<in>#mset (AList.update k a xs). claim (snd x)) = claim a + (\<Sum>x\<in>#mset xs. claim (snd x))"
  by (induction xs) (auto simp: ac_simps)

lemma claims_replace:
  assumes "distinct (map fst xs)" and "map_of xs k = Some a"
  shows "(\<Sum>x\<in>#mset (AList.update k b xs). claim (snd x)) =
    claim b + (\<Sum>x\<in>#mset (AList.delete k xs). claim (snd x))"
proof -
  have "distinct (map fst (AList.update k b xs))" using assms(1) by (rule distinct_update)
  moreover have "map_of (AList.update k b xs) k = Some b" by (simp add: update_conv')
  moreover have "AList.delete k (AList.update k b xs) = AList.delete k xs" by (induction xs) auto
  ultimately show ?thesis using claims_remove [of "AList.update k b xs" k b] by simp
qed

lemma all_ok_update:
  "\<forall>x \<in> set xs. local_ok (snd x) \<Longrightarrow> local_ok b \<Longrightarrow> \<forall>x \<in> set (AList.update k b xs). local_ok (snd x)"
  by (induction xs) auto

lemma all_ok_delete:
  "\<forall>x \<in> set xs. local_ok (snd x) \<Longrightarrow> \<forall>x \<in> set (AList.delete k xs). local_ok (snd x)"
  by (induction xs) auto

lemma step_at:
  assumes "fair e" and "distinct (map fst xs)" and "\<forall>x \<in> set xs. local_ok (snd x)"
    and "free ((\<Sum>x\<in>#mset xs. claim (snd x)) + (brings p + H)) w"
    and "a = (case map_of xs k of Some a \<Rightarrow> a | None \<Rightarrow> a0)" and "local_ok a0" and "claim a0 = {#}"
    and "step e p a w = Some (b, v, out)"
  shows "(\<forall>x \<in> set (AList.update k b xs). local_ok (snd x)) \<and>
    free ((\<Sum>x\<in>#mset (AList.update k b xs). claim (snd x)) + H) v"
proof (cases "map_of xs k")
  case None
  then have k: "k \<notin> fst ` set xs" by (simp add: map_of_eq_None_iff)
  have "free (claim a + (brings p + ((\<Sum>x\<in>#mset xs. claim (snd x)) + H))) w"
    using assms(4,5,7) None by (simp add: ac_simps)
  from step_ok [OF assms(1) _ this assms(8)] assms(5,6) None
  have "local_ok b" "free (claim b + ((\<Sum>x\<in>#mset xs. claim (snd x)) + H)) v" by simp_all
  then show ?thesis using all_ok_update [OF assms(3)] claims_add [OF k, of b] by (simp add: ac_simps)
next
  case (Some a')
  then have a: "a = a'" "local_ok a" using assms(3,5) map_of_SomeD [OF Some] by fastforce+
  have "free (claim a + (brings p + ((\<Sum>x\<in>#mset (AList.delete k xs). claim (snd x)) + H))) w"
    using assms(4) claims_remove [OF assms(2) Some] a by (simp add: ac_simps)
  from step_ok [OF assms(1) a(2) this assms(8)]
  have "local_ok b" "free (claim b + ((\<Sum>x\<in>#mset (AList.delete k xs). claim (snd x)) + H)) v" by simp_all
  then show ?thesis
    using all_ok_update [OF assms(3)] claims_replace [OF assms(2) Some, of b] by (simp add: ac_simps)
qed

lemma end_at:
  assumes "fair e" and "distinct (map fst xs)" and "\<forall>x \<in> set xs. local_ok (snd x)"
    and "free ((\<Sum>x\<in>#mset xs. claim (snd x)) + H) w" and "map_of xs k = Some a"
    and "harvest e a w = Some (b, v, out)" and "release e b v = (c, u)"
  shows "(\<forall>x \<in> set (AList.delete k xs). local_ok (snd x)) \<and>
    free ((\<Sum>x\<in>#mset (AList.delete k xs). claim (snd x)) + H) u"
proof -
  have a: "local_ok a" using assms(3) map_of_SomeD [OF assms(5)] by fastforce
  have "free (claim a + ((\<Sum>x\<in>#mset (AList.delete k xs). claim (snd x)) + H)) w"
    using assms(4) claims_remove [OF assms(2,5)] by (simp add: ac_simps)
  from harvest_ok [OF assms(1) a this assms(6)] release_ok [OF assms(1) _ _ assms(7)]
  show ?thesis using all_ok_delete [OF assms(3)] by blast
qed

end

section \<open>The accumulator as a component\<close>

datatype slot_input =
  DataInput u32 u32 "BufferHandle option" u16 bool bool
| CodeInput u32 u16 u16 u16 "byte list" VariantKind

fun slot_step :: "environ \<Rightarrow> slot_input \<Rightarrow> slotAccumulator \<Rightarrow> world \<Rightarrow> acc_state option" where
  "slot_step env (DataInput index fec h pe bc isLast) a w = pushData env index fec h pe bc isLast a w"
| "slot_step env (CodeInput fec nd nc pos coded v) a w = pushCode env fec nd nc pos coded v a w"

fun input_brings :: "slot_input \<Rightarrow> u16 multiset" where
  "input_brings (DataInput index fec h pe bc isLast) = src_held (PoolPayload h)"
| "input_brings (CodeInput fec nd nc pos coded v) = {#}"

definition world_free :: "u16 multiset \<Rightarrow> world \<Rightarrow> bool" where
  "world_free H w \<longleftrightarrow> pool_ok H (w_pool w) \<and> cache_ok (w_cache w)"

lemma good_iff: "good H a w \<longleftrightarrow> acc_ok a \<and> world_free (held (pending a) + H) w"
  by (simp add: good_def world_free_def)

interpretation ac: slot_component fair_env acc_ok "\<lambda>a. held (pending a)" world_free input_brings slot_step
  tryHarvestTail acc_release
proof
  fix e p H a w b v out
  assume "fair_env e" "acc_ok a" "world_free (held (pending a) + (input_brings p + H)) w"
    "slot_step e p a w = Some (b, v, out)"
  then show "acc_ok b \<and> world_free (held (pending b) + H) v"
    using pushData_good [of e _ H a w] pushCode_good [of e H a w]
    by (cases p) (auto simp: good_iff)
next
  fix e H a w b v out
  assume "fair_env e" "acc_ok a" "world_free (held (pending a) + H) w" "tryHarvestTail e a w = Some (b, v, out)"
  then show "acc_ok b \<and> world_free (held (pending b) + H) v"
    using tryHarvestTail_good [of e H a w] by (simp add: good_iff)
next
  fix e H a w b v
  assume "fair_env e" "acc_ok a" "world_free (held (pending a) + H) w" "acc_release e a w = (b, v)"
  then show "world_free H v" using acc_release_good [of e H a w b v] by (auto simp: good_iff)
qed

section \<open>The invariant\<close>

text \<open>
  Buffers: the pool is consistent while the pending shreds of the live slots and the calls in
  flight (\<open>H\<close>) hold theirs. Slots: at most 64 are live, each once, none of them is remembered as
  ended, and none is newer than the last slot, which is plausible.
\<close>

definition slots_held :: "Listener \<Rightarrow> u16 multiset" where
  "slots_held l = (\<Sum>x\<in>#mset (slots l). held (pending (snd x)))"

definition buffers_ok :: "u16 multiset \<Rightarrow> Listener \<Rightarrow> bool" where
  "buffers_ok H l \<longleftrightarrow> distinct (map fst (slots l)) \<and> (\<forall>x \<in> set (slots l). acc_ok (snd x)) \<and>
     world_free (slots_held l + H) (l_world l)"

definition slots_ok :: "Listener \<Rightarrow> bool" where
  "slots_ok l \<longleftrightarrow> distinct (map fst (slots l)) \<and> length (slots l) \<le> maxLiveSlots \<and>
     fst ` set (slots l) \<inter> set (recentlySeenSlots l) = {} \<and>
     (\<forall>s \<in> fst ` set (slots l). s \<le> lastSlot l) \<and> lastSlot l \<le> maxPlausibleSlot"

lemma bump_fields [simp]:
  "slots (bump f l) = slots l" "l_world (bump f l) = l_world l"
  "recentlySeenSlots (bump f l) = recentlySeenSlots l" "lastSlot (bump f l) = lastSlot l"
  "pendingBatches (bump f l) = pendingBatches l" "l_maxAge (bump f l) = l_maxAge l"
  "enableFEC (bump f l) = enableFEC l" "hasSocket (bump f l) = hasSocket l"
  "accumulatorCfg (bump f l) = accumulatorCfg l" "disableSalvageDelivery (bump f l) = disableSalvageDelivery l"
  by (simp_all add: bump_def)

lemma buffers_ok_cong:
  "slots l = slots l' \<Longrightarrow> w_pool (l_world l) = w_pool (l_world l') \<Longrightarrow> w_cache (l_world l) = w_cache (l_world l') \<Longrightarrow>
   buffers_ok H l = buffers_ok H l'"
  by (simp add: buffers_ok_def slots_held_def world_free_def)

lemma slots_ok_cong:
  "slots l = slots l' \<Longrightarrow> recentlySeenSlots l = recentlySeenSlots l' \<Longrightarrow> lastSlot l = lastSlot l' \<Longrightarrow>
   slots_ok l = slots_ok l'"
  by (simp add: slots_ok_def)

lemma ok_bump [simp]: "buffers_ok H (bump f l) = buffers_ok H l" "slots_ok (bump f l) = slots_ok l"
  by (rule buffers_ok_cong slots_ok_cong, simp_all)+

section \<open>Eviction\<close>

lemma evictSlot_cases:
  assumes "evictSlot env s l = Some l'" and "map_of (slots l) s = Some acc"
  obtains b v tail c u where "tryHarvestTail env acc (l_world l) = Some (b, v, tail)"
    "acc_release env b v = (c, u)"
    "slots l' = AList.delete s (slots l)" "l_world l' = u"
    "recentlySeenSlots l' = List.insert s (recentlySeenSlots l)" "lastSlot l' = lastSlot l"
    "l_maxAge l' = l_maxAge l"
    "pendingBatches l' = pendingBatches l @ (if tail = [] then [] else [\<lparr>sb_slot = s, sb_txs = tail\<rparr>])"
proof -
  obtain b v tail where h: "tryHarvestTail env acc (l_world l) = Some (b, v, tail)"
    using assms by (auto simp: evictSlot_def Let_def bind_eq_Some_conv)
  obtain c u where r: "acc_release env b v = (c, u)" by fastforce
  show ?thesis
    by (rule that [OF h r]) (use assms h r in \<open>auto simp: evictSlot_def Let_def rollupAccumulator_def split: if_splits\<close>)
qed

lemma evictSlot_buffers:
  assumes "fair_env env" and "buffers_ok H l" and "evictSlot env s l = Some l'"
  shows "buffers_ok H l'"
proof (cases "map_of (slots l) s")
  case None
  then show ?thesis using assms by (simp add: evictSlot_def)
next
  case (Some acc)
  from evictSlot_cases [OF assms(3) this] obtain b v tail c u where
    h: "tryHarvestTail env acc (l_world l) = Some (b, v, tail)" "acc_release env b v = (c, u)"
    and l': "slots l' = AList.delete s (slots l)" "l_world l' = u" by metis
  have "distinct (map fst (slots l))" "\<forall>x \<in> set (slots l). acc_ok (snd x)"
    "world_free ((\<Sum>x\<in>#mset (slots l). held (pending (snd x))) + H) (l_world l)"
    using assms(2) by (simp_all add: buffers_ok_def slots_held_def)
  from ac.end_at [OF assms(1) this Some h] this(1) show ?thesis
    by (simp add: buffers_ok_def slots_held_def l' distinct_delete)
qed

lemma keys_delete: "fst ` set (AList.delete k xs) = fst ` set xs - {k}"
  by (induction xs) auto

lemma keys_update: "fst ` set (AList.update k v xs) = insert k (fst ` set xs)"
  by (induction xs) auto

lemma evictSlot_slots:
  assumes "slots_ok l" and "evictSlot env s l = Some l'"
  shows "slots_ok l' \<and> fst ` set (slots l') \<subseteq> fst ` set (slots l) \<and> lastSlot l' = lastSlot l \<and>
    l_maxAge l' = l_maxAge l \<and> (\<exists>new. pendingBatches l' = pendingBatches l @ new)"
proof (cases "map_of (slots l) s")
  case None
  then show ?thesis using assms by (auto simp: evictSlot_def)
next
  case (Some acc)
  from evictSlot_cases [OF assms(2) this] have l': "slots l' = AList.delete s (slots l)"
    "recentlySeenSlots l' = List.insert s (recentlySeenSlots l)" "lastSlot l' = lastSlot l"
    "l_maxAge l' = l_maxAge l" "\<exists>new. pendingBatches l' = pendingBatches l @ new" by metis+
  have "length (AList.delete s (slots l)) \<le> length (slots l)" by (rule length_delete_le)
  then show ?thesis
    using assms(1) l' by (auto simp: slots_ok_def distinct_delete keys_delete)
qed

text \<open>What an eviction keeps, whatever it evicts.\<close>

definition keeps :: "Listener \<Rightarrow> Listener \<Rightarrow> bool" where
  "keeps l l' \<longleftrightarrow> fst ` set (slots l') \<subseteq> fst ` set (slots l) \<and> lastSlot l' = lastSlot l \<and>
    l_maxAge l' = l_maxAge l \<and> (\<exists>new. pendingBatches l' = pendingBatches l @ new)"

lemma keeps_refl [simp]: "keeps l l"
  by (simp add: keeps_def)

lemma keeps_trans: "keeps l l' \<Longrightarrow> keeps l' l'' \<Longrightarrow> keeps l l''"
  unfolding keeps_def by (elim conjE exE) (intro conjI, erule (1) order_trans [rotated], simp_all)

lemma evictSlot_ok:
  assumes "fair_env env" and "buffers_ok H l" and "slots_ok l" and "evictSlot env s l = Some l'"
  shows "buffers_ok H l' \<and> slots_ok l' \<and> keeps l l'"
  using evictSlot_buffers [OF assms(1,2,4)] evictSlot_slots [OF assms(3,4)] by (simp add: keeps_def)

lemma evictAll_ok:
  "fair_env env \<Longrightarrow> buffers_ok H l \<Longrightarrow> slots_ok l \<Longrightarrow> evictAll env ss l = Some l' \<Longrightarrow>
   buffers_ok H l' \<and> slots_ok l' \<and> keeps l l'"
proof (induction ss arbitrary: l)
  case (Cons s ss)
  then obtain l1 where l1: "evictSlot env s l = Some l1" "evictAll env ss l1 = Some l'"
    by (auto simp: bind_eq_Some_conv)
  from evictSlot_ok [OF Cons.prems(1-3) l1(1)] Cons.IH [OF Cons.prems(1) _ _ l1(2)] keeps_trans
  show ?case by blast
qed simp

lemma evictOldSlots_ok:
  assumes "fair_env env" and "buffers_ok H l" and "slots_ok l" and "evictOldSlots env l = Some l'"
  shows "buffers_ok H l' \<and> slots_ok l' \<and> keeps l l'"
proof -
  obtain ks w where o: "order64 env (map fst (slots l)) (l_world l) = (ks, w)" by fastforce
  let ?l = "l\<lparr>l_world := w\<rparr>"
  obtain l1 where l1: "evictAll env (filter (expired ?l) ks) ?l = Some l1"
    and l': "slots l' = slots l1" "l_world l' = l_world l1" "lastSlot l' = lastSlot l1" "l_maxAge l' = l_maxAge l1"
      "pendingBatches l' = pendingBatches l1" "set (recentlySeenSlots l') \<subseteq> set (recentlySeenSlots l1)"
    using assms(4) o by (auto simp: evictOldSlots_def Let_def bind_eq_Some_conv)
  have "buffers_ok H ?l = buffers_ok H l"
    by (rule buffers_ok_cong) (use o in \<open>auto simp: order64_def\<close>)
  moreover have "slots_ok ?l = slots_ok l" by (rule slots_ok_cong) simp_all
  ultimately have ok: "buffers_ok H l1" "slots_ok l1" "keeps ?l l1"
    using evictAll_ok [OF assms(1) _ _ l1] assms(2,3) by auto
  have "buffers_ok H l'" using ok(1) buffers_ok_cong [of l' l1 H] l' by simp
  moreover have "slots_ok l'" using ok(2) l' by (auto simp: slots_ok_def)
  moreover have "keeps l l'" using ok(3) l' by (simp add: keeps_def)
  ultimately show ?thesis by simp
qed

lemma forceEvict_ok:
  assumes "fair_env env" and "buffers_ok H l" and "slots_ok l" and "forceEvictOldestSlot env l = Some l'"
  shows "buffers_ok H l' \<and> slots_ok l' \<and> keeps l l'"
  using assms evictSlot_ok [OF assms(1-3)] by (auto simp: forceEvictOldestSlot_def split: option.splits)

lemma l_acquire_ok:
  assumes "buffers_ok H l" and "slots_ok l" and "l_acquire l = Some (h, l')"
  shows "buffers_ok (add_mset (h_idx h) H) l' \<and> slots_ok l' \<and> keeps l l' \<and> attached h \<and>
    h_idx h \<notin># slots_held l + H"
proof -
  obtain p where a: "acquire (w_pool (l_world l)) = Some (h, p)"
    and l': "l' = l\<lparr>l_world := (l_world l)\<lparr>w_pool := p\<rparr>\<rparr>"
    using assms(3) by (auto simp: l_acquire_def)
  have "pool_ok (slots_held l + H) (w_pool (l_world l))"
    using assms(1) by (simp add: buffers_ok_def world_free_def)
  note acq = acquire_ok [OF this a]
  have "buffers_ok (add_mset (h_idx h) H) l'"
    using assms(1) acq(1) by (simp add: buffers_ok_def l' slots_held_def world_free_def)
  moreover have "slots_ok l' = slots_ok l" by (rule slots_ok_cong) (simp_all add: l')
  ultimately show ?thesis using acq(2,3) assms(2) by (simp add: keeps_def l')
qed

lemma keeps_bump [simp]: "keeps l (bump f l') = keeps l l'"
  by (simp add: keeps_def)

lemma acquireBuffer_ok:
  assumes "fair_env env" and "buffers_ok H l" and "slots_ok l"
    and "acquireBufferWithFallback env l = Some (ho, l')"
  shows "buffers_ok ((case ho of None \<Rightarrow> {#} | Some h \<Rightarrow> {#h_idx h#}) + H) l' \<and> slots_ok l' \<and> keeps l l' \<and>
    (case ho of None \<Rightarrow> True | Some h \<Rightarrow> attached h)"
proof -
  have acq: ?thesis if "buffers_ok H l1" "slots_ok l1" "keeps l l1" "l_acquire l1 = Some (h, l')" "ho = Some h" for l1 h
    using l_acquire_ok [OF that(1,2,4)] that(3,5) keeps_trans by auto
  show ?thesis
  proof (cases "l_acquire l")
    case (Some p)
    then show ?thesis using assms acq [OF assms(2,3) keeps_refl] by (cases p) (auto simp: acquireBufferWithFallback_def)
  next
    case n1: None
    then obtain l1 where l1: "evictOldSlots env l = Some l1"
      using assms(4) by (auto simp: acquireBufferWithFallback_def bind_eq_Some_conv)
    note ok1 = evictOldSlots_ok [OF assms(1-3) l1]
    show ?thesis
    proof (cases "l_acquire l1")
      case (Some p)
      then show ?thesis
        using assms(4) n1 l1 ok1 acq [of l1] by (cases p) (auto simp: acquireBufferWithFallback_def)
    next
      case n2: None
      then obtain l2 where l2: "forceEvictOldestSlot env l1 = Some l2"
        using assms(4) n1 l1 by (auto simp: acquireBufferWithFallback_def bind_eq_Some_conv)
      have ok2: "buffers_ok H l2" "slots_ok l2" "keeps l l2"
        using forceEvict_ok [OF assms(1) _ _ l2] ok1 keeps_trans by blast+
      show ?thesis
      proof (cases "l_acquire l2")
        case (Some p)
        then show ?thesis
          using assms(4) n1 l1 n2 l2 ok2 acq [of l2] by (cases p) (auto simp: acquireBufferWithFallback_def)
      next
        case None
        then have "ho = None" "l' = bump (poolExhausted_update (\<lambda>n. n + 1)) l2"
          using assms(4) n1 l1 n2 l2 by (simp_all add: acquireBufferWithFallback_def)
        then show ?thesis using ok2 by simp
      qed
    qed
  qed
qed

section \<open>Packets\<close>

lemma pool_release_ok:
  assumes "buffers_ok (add_mset (h_idx h) H) l" and "attached h"
  shows "buffers_ok H (l_pool_release h l)"
proof -
  have "pool_ok (add_mset (h_idx h) (slots_held l + H)) (w_pool (l_world l))"
    using assms(1) by (simp add: buffers_ok_def world_free_def)
  from Release_ok [OF this assms(2)] assms(1) show ?thesis
    by (simp add: buffers_ok_def world_free_def l_pool_release_def release_handle_def slots_held_def)
qed

lemma pool_release_fields [simp]:
  "slots (l_pool_release h l) = slots l" "recentlySeenSlots (l_pool_release h l) = recentlySeenSlots l"
  "lastSlot (l_pool_release h l) = lastSlot l" "pendingBatches (l_pool_release h l) = pendingBatches l"
  by (simp_all add: l_pool_release_def)

lemma slots_ok_release [simp]: "slots_ok (l_pool_release h l) = slots_ok l"
  by (rule slots_ok_cong) simp_all

lemma fillBuffer_ok:
  assumes "buffers_ok (add_mset (h_idx h) H) l" and "attached h" and "fillBuffer h raw l = (h', l')"
  shows "buffers_ok (add_mset (h_idx h') H) l'" "attached h'" "h_idx h' = h_idx h"
    "Bytes (w_pool (l_world l')) (Some h') = take BufferSize raw"
    "slots l' = slots l" "recentlySeenSlots l' = recentlySeenSlots l" "lastSlot l' = lastSlot l"
proof -
  let ?n = "min (length raw) BufferSize"
  have h': "h' = h\<lparr>h_length := ?n\<rparr>"
    using assms(3) by (auto simp: fillBuffer_def Let_def SetLen_def)
  have l': "l' = l\<lparr>l_world := (l_world l)\<lparr>w_pool := write_buf h (take ?n raw) (w_pool (l_world l))\<rparr>\<rparr>"
    using assms(3) by (auto simp: fillBuffer_def Let_def)
  have p: "pool_ok (add_mset (h_idx h) (slots_held l + H)) (w_pool (l_world l))"
    using assms(1) by (simp add: buffers_ok_def world_free_def)
  have w: "write_buf h src q = write_buf h' src q" for src q by (simp add: write_buf_def Mut_def h')
  show "buffers_ok (add_mset (h_idx h') H) l'"
    using assms(1) write_buf_ok [OF p, of h "take ?n raw"]
    by (simp add: buffers_ok_def world_free_def l' h' slots_held_def)
  show "attached h'" "h_idx h' = h_idx h" using assms(2) h' by simp_all
  have "Bytes (write_buf h' (take ?n raw) (w_pool (l_world l))) (Some h') = take ?n raw"
    by (rule Bytes_write_same [OF p]) (simp_all add: h')
  then show "Bytes (w_pool (l_world l')) (Some h') = take BufferSize raw"
    by (simp add: l' w min_def split: if_splits)
  show "slots l' = slots l" "recentlySeenSlots l' = recentlySeenSlots l" "lastSlot l' = lastSlot l"
    by (simp_all add: l')
qed

lemma acceptSlot_cases:
  assumes "acceptSlot slot l = (acc, l')"
  shows "l' = (if acc then l else bump (unparseableSlotRange_update (\<lambda>n. n + 1)) l)"
    and "acc \<Longrightarrow> slot \<le> maxPlausibleSlot \<and> (map_of (slots l) slot \<noteq> None \<or> length (slots l) < maxLiveSlots)"
  using assms by (auto simp: acceptSlot_def split: if_splits)

lemma evictAll_seen:
  "evictAll env ss l = Some l' \<Longrightarrow> set (recentlySeenSlots l') \<subseteq> set (recentlySeenSlots l) \<union> set ss"
proof (induction ss arbitrary: l)
  case (Cons s ss)
  then obtain l1 where l1: "evictSlot env s l = Some l1" "evictAll env ss l1 = Some l'"
    by (auto simp: bind_eq_Some_conv)
  have "set (recentlySeenSlots l1) \<subseteq> insert s (set (recentlySeenSlots l))"
  proof (cases "map_of (slots l) s")
    case None
    then show ?thesis using l1(1) by (auto simp: evictSlot_def)
  next
    case (Some acc)
    show ?thesis by (rule evictSlot_cases [OF l1(1) Some]) simp
  qed
  then show ?case using Cons.IH [OF l1(2)] by auto
qed simp

lemma saturatingAddU64_mono_left: "a \<le> saturatingAddU64 a b"
  using u64_bound [of a] by (simp add: word_le_nat_alt)

lemma noteSlot_ok:
  assumes "fair_env env" and "buffers_ok H l" and "slots_ok l" and "slot \<le> maxPlausibleSlot"
    and "slot \<notin> set (recentlySeenSlots l)" and "noteSlot env slot l = Some l'"
  shows "buffers_ok H l' \<and> slots_ok l' \<and> fst ` set (slots l') \<subseteq> fst ` set (slots l) \<and>
    lastSlot l' = max (lastSlot l) slot \<and> slot \<notin> set (recentlySeenSlots l') \<and>
    (slot \<in> fst ` set (slots l) \<longrightarrow> l' = l)"
proof (cases "slot > lastSlot l")
  case False
  then show ?thesis using assms by (simp add: noteSlot_def max_absorb1)
next
  case True
  let ?l = "l\<lparr>lastSlot := slot\<rparr>"
  have e: "evictOldSlots env ?l = Some l'" using assms(6) True by (simp add: noteSlot_def)
  have "buffers_ok H ?l" using assms(2) buffers_ok_cong [of ?l l H] by simp
  moreover have "slots_ok ?l" using assms(3,4) True by (auto simp: slots_ok_def)
  ultimately have ok: "buffers_ok H l'" "slots_ok l'" "keeps ?l l'"
    using evictOldSlots_ok [OF assms(1) _ _ e] by auto
  obtain ks w where o: "order64 env (map fst (slots ?l)) (l_world ?l) = (ks, w)" by fastforce
  let ?l1 = "?l\<lparr>l_world := w\<rparr>"
  obtain l2 where l2: "evictAll env (filter (expired ?l1) ks) ?l1 = Some l2"
    "set (recentlySeenSlots l') \<subseteq> set (recentlySeenSlots l2)"
    using e o by (auto simp: evictOldSlots_def Let_def bind_eq_Some_conv)
  have "\<not> expired ?l1 slot"
    using saturatingAddU64_mono_left [of slot] by (auto simp: expired_def Let_def not_less split: option.splits)
  then have "slot \<notin> set (recentlySeenSlots l')"
    using evictAll_seen [OF l2(1)] l2(2) assms(5) by auto
  moreover have "slot \<notin> fst ` set (slots l)" using assms(3) True by (auto simp: slots_ok_def)
  ultimately show ?thesis using ok True by (auto simp: keeps_def max_absorb2)
qed

lemma push_slot_ok:
  assumes "fair_env env" and "buffers_ok (input_brings p + H) l" and "slots_ok l" and "slot \<le> lastSlot l"
    and "slot \<notin> set (recentlySeenSlots l)" and "slot \<in> fst ` set (slots l) \<or> length (slots l) < maxLiveSlots"
    and "slot_step env p (slotAcc slot l) (l_world l) = Some (b, v, out)"
  shows "buffers_ok H (putSlot slot b v l) \<and> slots_ok (putSlot slot b v l)"
proof -
  let ?a0 = "(newSlotAccumulator (accumulatorCfg l))\<lparr>ac_disableSalvageDelivery := disableSalvageDelivery l\<rparr>"
  have a0: "acc_ok ?a0" "held (pending ?a0) = {#}" by (simp_all add: acc_ok_def newSlotAccumulator_def)
  have "distinct (map fst (slots l))" "\<forall>x \<in> set (slots l). acc_ok (snd x)"
    "world_free ((\<Sum>x\<in>#mset (slots l). held (pending (snd x))) + (input_brings p + H)) (l_world l)"
    using assms(2) by (simp_all add: buffers_ok_def slots_held_def)
  from ac.step_at [OF assms(1) this _ a0 assms(7), of slot] this(1)
  have "buffers_ok H (putSlot slot b v l)"
    by (simp add: buffers_ok_def slots_held_def putSlot_def slotAcc_def distinct_update)
  moreover have "length (AList.update slot b (slots l)) \<le> maxLiveSlots"
  proof -
    have d: "distinct (map fst (AList.update slot b (slots l)))" "distinct (map fst (slots l))"
      using assms(3) by (simp_all add: slots_ok_def distinct_update)
    have "length (AList.update slot b (slots l)) = card (insert slot (fst ` set (slots l)))"
      using distinct_card [OF d(1)] keys_update [of slot b "slots l"] by simp
    moreover have "card (fst ` set (slots l)) = length (slots l)" using distinct_card [OF d(2)] by simp
    ultimately show ?thesis using assms(3,6) by (auto simp: slots_ok_def card_insert_if insert_absorb)
  qed
  then have "slots_ok (putSlot slot b v l)"
    using assms(3,4,5) by (auto simp: slots_ok_def putSlot_def distinct_update keys_update)
  ultimately show ?thesis by simp
qed

lemma room_after_note:
  assumes "slots_ok l" and "map_of (slots l) slot \<noteq> None \<or> length (slots l) < maxLiveSlots"
    and "distinct (map fst (slots l'))" and "fst ` set (slots l') \<subseteq> fst ` set (slots l)"
    and "slot \<in> fst ` set (slots l) \<longrightarrow> l' = l"
  shows "slot \<in> fst ` set (slots l') \<or> length (slots l') < maxLiveSlots"
proof (cases "slot \<in> fst ` set (slots l)")
  case True
  then show ?thesis using assms(5) by simp
next
  case False
  then have "length (slots l) < maxLiveSlots" using assms(2) by (simp add: map_of_eq_None_iff)
  moreover have "length (slots l') \<le> length (slots l)"
    using card_mono [OF _ assms(4)] distinct_card [OF assms(3)] assms(1) distinct_card [of "map fst (slots l)"]
    by (simp add: slots_ok_def)
  ultimately show ?thesis by simp
qed

lemma accepted_ok:
  assumes "fair_env env" and "buffers_ok K l" and "slots_ok l" and "slot \<le> maxPlausibleSlot"
    and "map_of (slots l) slot \<noteq> None \<or> length (slots l) < maxLiveSlots"
    and "slot \<notin> set (recentlySeenSlots l)" and "noteSlot env slot l = Some l'"
  shows "buffers_ok K l' \<and> slots_ok l' \<and> lastSlot l' = max (lastSlot l) slot \<and>
    slot \<notin> set (recentlySeenSlots l') \<and> (slot \<in> fst ` set (slots l') \<or> length (slots l') < maxLiveSlots)"
proof -
  note n = noteSlot_ok [OF assms(1-4,6,7)]
  then have "distinct (map fst (slots l'))" by (simp add: slots_ok_def)
  then show ?thesis using room_after_note [OF assms(3,5)] n by blast
qed

text \<open>A packet in a buffer the caller holds.\<close>

lemma handleData_ok:
  assumes "fair_env env" and "buffers_ok (add_mset (h_idx h) H) l" and "attached h" and "slots_ok l"
    and "handleData env h d l = Some (r, l')"
  shows "buffers_ok H l' \<and> slots_ok l' \<and> lastSlot l \<le> lastSlot l'"
proof -
  let ?slot = "ds_Slot d"
  obtain acc l0 where acc: "acceptSlot ?slot l = (acc, l0)" by fastforce
  note a = acceptSlot_cases [OF acc]
  show ?thesis
  proof (cases "acc \<and> ?slot \<notin> set (recentlySeenSlots l)")
    case False
    then have "\<exists>f. l' = l_pool_release h (bump f l)"
      using assms(5) acc a(1) by (auto simp: handleData_def Let_def split: if_splits)
    then show ?thesis using assms pool_release_ok by auto
  next
    case True
    let ?l = "bump (dataShredCount_update (\<lambda>n. n + 1)) l"
    let ?pe = "of_nat (DataHeaderSize + length (ds_Payload d)) :: u16"
    let ?p = "DataInput (ds_Index d) (ds_FecSetIndex d) (Some h) ?pe (ds_BatchComplete d) (ds_LastInSlot d)"
    obtain l1 b v txs where nt: "noteSlot env ?slot ?l = Some l1"
      and push: "slot_step env ?p (slotAcc ?slot l1) (l_world l1) = Some (b, v, txs)"
      and l': "l' = putSlot ?slot b v l1"
      using assms(5) acc a(1) True by (auto simp: handleData_def Let_def bind_eq_Some_conv)
    have n: "buffers_ok (add_mset (h_idx h) H) l1" "slots_ok l1" "lastSlot l1 = max (lastSlot l) ?slot"
      "?slot \<notin> set (recentlySeenSlots l1)" "?slot \<in> fst ` set (slots l1) \<or> length (slots l1) < maxLiveSlots"
      using accepted_ok [OF assms(1) _ _ _ _ _ nt] assms(2,4) a(2) True by simp_all
    have "buffers_ok (input_brings ?p + H) l1" using n(1) assms(3) by simp
    from push_slot_ok [OF assms(1) this n(2) _ n(4,5) push] n(3) show ?thesis
      by (simp add: l') (simp add: putSlot_def)
  qed
qed

lemma handleCode_ok:
  assumes "fair_env env" and "buffers_ok (add_mset (h_idx h) H) l" and "attached h" and "slots_ok l"
    and "handleCode env h c l = Some (r, l')"
  shows "buffers_ok H l' \<and> slots_ok l' \<and> lastSlot l \<le> lastSlot l'"
proof -
  let ?slot = "cs_Slot c"
  obtain acc l0 where acc: "acceptSlot ?slot l = (acc, l0)" by fastforce
  note a = acceptSlot_cases [OF acc]
  show ?thesis
  proof (cases "acc \<and> ?slot \<notin> set (recentlySeenSlots l) \<and> enableFEC l")
    case False
    then have "\<exists>f. l' = l_pool_release h (bump f l)"
      using assms(5) acc a(1) by (auto simp: handleCode_def Let_def split: if_splits)
    then show ?thesis using assms pool_release_ok by auto
  next
    case True
    let ?l = "bump (codeShredCount_update (\<lambda>n. n + 1)) l"
    let ?p = "CodeInput (cs_FecSetIndex c) (cs_NumDataShreds c) (cs_NumCodingShreds c) (cs_Position c)
      (cs_Coded c) (cs_Variant c)"
    obtain l1 b v txs where nt: "noteSlot env ?slot ?l = Some l1"
      and push: "slot_step env ?p (slotAcc ?slot l1) (l_world l1) = Some (b, v, txs)"
      and l': "l' = l_pool_release h (putSlot ?slot b v l1)"
      using assms(5) acc a(1) True by (auto simp: handleCode_def Let_def bind_eq_Some_conv)
    have n: "buffers_ok (add_mset (h_idx h) H) l1" "slots_ok l1" "lastSlot l1 = max (lastSlot l) ?slot"
      "?slot \<notin> set (recentlySeenSlots l1)" "?slot \<in> fst ` set (slots l1) \<or> length (slots l1) < maxLiveSlots"
      using accepted_ok [OF assms(1) _ _ _ _ _ nt] assms(2,4) a(2) True by simp_all
    have "buffers_ok (input_brings ?p + add_mset (h_idx h) H) l1" using n(1) by simp
    from push_slot_ok [OF assms(1) this n(2) _ n(4,5) push] n(3)
    have "buffers_ok (add_mset (h_idx h) H) (putSlot ?slot b v l1)" "slots_ok (putSlot ?slot b v l1)" by simp_all
    then show ?thesis using pool_release_ok [OF _ assms(3)] n(3) by (simp add: l') (simp add: putSlot_def)
  qed
qed

lemma handlePacketOwned_ok:
  assumes "fair_env env" and "buffers_ok (add_mset (h_idx h) H) l" and "attached h" and "slots_ok l"
    and "handlePacketOwned env h l = Some (r, l')"
  shows "buffers_ok H l' \<and> slots_ok l' \<and> lastSlot l \<le> lastSlot l'"
proof -
  let ?l = "bump (bytesReceived_update (\<lambda>n. n + of_nat (Len (Some h)))) l"
  show ?thesis
  proof (cases "ParseKind (Bytes (w_pool (l_world ?l)) (Some h))")
    case (Inl err)
    then have "l' = l_pool_release h (bumpParseError (newParseError err) ?l)"
      using assms(5) by (simp add: handlePacketOwned_def Let_def)
    moreover have "\<exists>f. bumpParseError (newParseError err) ?l = bump f ?l" by (cases err) auto
    ultimately show ?thesis using assms pool_release_ok by auto
  next
    case (Inr kd)
    then have "handlePacketParsed env h kd ?l = Some (r, l')"
      using assms(5) by (simp add: handlePacketOwned_def Let_def)
    then show ?thesis
      using handleData_ok [OF assms(1), of h H ?l] handleCode_ok [OF assms(1), of h H ?l] assms
      by (cases kd) auto
  qed
qed

lemma HandlePacket_ok:
  assumes "fair_env env" and "buffers_ok H l" and "slots_ok l" and "HandlePacket env raw l = Some (r, l')"
  shows "buffers_ok H l' \<and> slots_ok l' \<and> lastSlot l \<le> lastSlot l'"
proof -
  obtain ho l1 where a: "acquireBufferWithFallback env l = Some (ho, l1)"
    using assms(4) by (auto simp: HandlePacket_def handlePacketLocked_def bind_eq_Some_conv)
  note ok = acquireBuffer_ok [OF assms(1-3) a]
  show ?thesis
  proof (cases ho)
    case None
    then show ?thesis
      using assms(4) a ok by (auto simp: HandlePacket_def handlePacketLocked_def keeps_def)
  next
    case (Some h)
    obtain h2 l2 where f: "fillBuffer h raw l1 = (h2, l2)" by fastforce
    have b: "buffers_ok (add_mset (h_idx h) H) l1" "attached h" using ok Some by simp_all
    note fo = fillBuffer_ok [OF b f]
    have "slots_ok l2" using ok fo slots_ok_cong [of l2 l1] by simp
    moreover have "handlePacketOwned env h2 l2 = Some (r, l')"
      using assms(4) a Some f by (simp add: HandlePacket_def handlePacketLocked_def)
    ultimately show ?thesis
      using handlePacketOwned_ok [OF assms(1) fo(1,2)] fo ok by (simp add: keeps_def)
  qed
qed

lemma recvBegin_ok:
  assumes "fair_env env" and "buffers_ok H l" and "slots_ok l" and "recvBegin env l = Some (st, l')"
  shows "buffers_ok ((case st of ReadInto h \<Rightarrow> {#h_idx h#} | _ \<Rightarrow> {#}) + H) l' \<and> slots_ok l' \<and>
    lastSlot l' = lastSlot l \<and> (case st of ReadInto h \<Rightarrow> attached h | _ \<Rightarrow> True)"
proof (cases "pendingBatches l = [] \<and> hasSocket l")
  case False
  then have "st = NoSocket \<or> (\<exists>b. st = KeptBatch b)" "slots l' = slots l" "l_world l' = l_world l"
    "recentlySeenSlots l' = recentlySeenSlots l" "lastSlot l' = lastSlot l"
    using assms(4) by (auto simp: recvBegin_def split: list.splits if_splits)
  then show ?thesis
    using assms(2,3) buffers_ok_cong [of l' l H] slots_ok_cong [of l' l] by auto
next
  case True
  then obtain ho where a: "acquireBufferWithFallback env l = Some (ho, l')"
    and st: "st = (case ho of None \<Rightarrow> PoolEmpty | Some h \<Rightarrow> ReadInto h)"
    using assms(4) by (auto simp: recvBegin_def bind_eq_Some_conv)
  from acquireBuffer_ok [OF assms(1-3) a] st show ?thesis by (cases ho) (simp_all add: keeps_def)
qed

lemma recvEnd_ok:
  assumes "fair_env env" and "buffers_ok (add_mset (h_idx h) H) l" and "attached h" and "slots_ok l"
    and "recvEnd env h io l = Some (r, e, l')"
  shows "buffers_ok H l' \<and> slots_ok l' \<and> lastSlot l \<le> lastSlot l'"
proof (cases io)
  case (IoError e)
  then have "l' = l_pool_release h l" using assms(5) by (simp add: recvEnd_def)
  then show ?thesis using assms pool_release_ok by simp
next
  case (Datagram raw)
  obtain h2 l2 where f: "fillBuffer h raw l = (h2, l2)" by fastforce
  note fo = fillBuffer_ok [OF assms(2,3) f]
  have "slots_ok l2" using assms(4) fo slots_ok_cong [of l2 l] by simp
  moreover have "handlePacketOwned env h2 l2 = Some (r, l')"
    using assms(5) Datagram f by (auto simp: recvEnd_def)
  ultimately show ?thesis using handlePacketOwned_ok [OF assms(1) fo(1,2)] fo by simp
qed

section \<open>Interleaved calls\<close>

text \<open>
  The listener with the buffers of the calls of \<^verbatim>\<open>recvOne\<close> that are between their critical
  sections. Any number of goroutines may be there at once, and their reads may end in any order.
\<close>

inductive lstep :: "environ \<Rightarrow> Listener \<times> BufferHandle list \<Rightarrow> Listener \<times> BufferHandle list \<Rightarrow> bool" for env where
  packet: "HandlePacket env raw l = Some (r, l') \<Longrightarrow> lstep env (l, hs) (l', hs)"
| no_read: "recvBegin env l = Some (st, l') \<Longrightarrow> (\<forall>h. st \<noteq> ReadInto h) \<Longrightarrow> lstep env (l, hs) (l', hs)"
| read_starts: "recvBegin env l = Some (ReadInto h, l') \<Longrightarrow> lstep env (l, hs) (l', h # hs)"
| read_ends: "h \<in> set hs \<Longrightarrow> recvEnd env h io l = Some (r, e, l') \<Longrightarrow> lstep env (l, hs) (l', remove1 h hs)"
| io_failure: "lstep env (l, hs) (fail_iter e l, hs)"

inductive_cases lstepE: "lstep env (l, hs) (l', hs')"

inductive reachable :: "environ \<Rightarrow> ListenerOptions \<Rightarrow> Listener \<times> BufferHandle list \<Rightarrow> bool" for env opts where
  offline: "OfflineWithOptions opts = Some l \<Longrightarrow> reachable env opts (l, [])"
| connected: "FromConn opts = Some l \<Longrightarrow> reachable env opts (l, [])"
| bound: "BindWithOptions sys port opts tr = (Some (Inr l), tr') \<Longrightarrow> reachable env opts (l, [])"
| step: "reachable env opts st \<Longrightarrow> lstep env st st' \<Longrightarrow> reachable env opts st'"

definition system_ok :: "Listener \<times> BufferHandle list \<Rightarrow> bool" where
  "system_ok st = (case st of (l, hs) \<Rightarrow>
     buffers_ok (mset (map h_idx hs)) l \<and> slots_ok l \<and> (\<forall>h \<in> set hs. attached h))"

lemma newListener_ok:
  assumes "newListener opts = Some l"
  shows "system_ok (l, [])"
proof -
  obtain p where p: "newBufferPool (PoolSize opts) = Some p" "l_world l = \<lparr>w_pool = p, w_cache = newReedSolomonCache, w_ticks = 0\<rparr>"
    "slots l = []" "recentlySeenSlots l = []" "lastSlot l = 0"
    using assms by (auto simp: newListener_def split: option.splits)
  have "cache_ok newReedSolomonCache" by (simp add: cache_ok_def newReedSolomonCache_def cacheCapacity_def)
  then show ?thesis
    using newBufferPool_ok [OF p(1)] p
    by (simp add: system_ok_def buffers_ok_def slots_ok_def slots_held_def world_free_def maxLiveSlots_def)
qed

lemma BindWithOptions_listener:
  assumes "BindWithOptions sys port opts tr = (Some (Inr l), tr')"
  obtains l0 bp where "newListener opts = Some l0" "l = l0\<lparr>hasSocket := True, busyPollActive := bp\<rparr>"
proof -
  have "busyPollActive l0 = False" if "newListener opts = Some l0" for l0
    using that by (auto simp: newListener_def split: option.splits)
  then have "\<exists>l0 bp. newListener opts = Some l0 \<and> l = l0\<lparr>hasSocket := True, busyPollActive := bp\<rparr>"
    using assms unfolding BindWithOptions_def Let_def
    by (auto split: option.splits sum.splits prod.splits intro: exI [of _ False])
  then show ?thesis using that by blast
qed

lemma BindWithOptions_ok:
  assumes "BindWithOptions sys port opts tr = (Some (Inr l), tr')"
  shows "system_ok (l, []) \<and> hasSocket l \<and> slots l = []"
proof -
  obtain l0 bp where l0: "newListener opts = Some l0" "l = l0\<lparr>hasSocket := True, busyPollActive := bp\<rparr>"
    using assms by (rule BindWithOptions_listener)
  have "buffers_ok H l = buffers_ok H l0" for H by (rule buffers_ok_cong) (simp_all add: l0)
  moreover have "slots_ok l = slots_ok l0" by (rule slots_ok_cong) (simp_all add: l0)
  moreover have "slots l0 = []" using l0(1) by (auto simp: newListener_def split: option.splits)
  ultimately show ?thesis using newListener_ok [OF l0(1)] l0(2) by (simp add: system_ok_def)
qed

lemma mset_remove_handle:
  "h \<in> set hs \<Longrightarrow> mset (map h_idx hs) = add_mset (h_idx h) (mset (map h_idx (remove1 h hs)))"
  by (induction hs) auto

lemma lstep_ok:
  assumes "fair_env env" and "lstep env st st'" and "system_ok st"
  shows "system_ok st' \<and> lastSlot (fst st) \<le> lastSlot (fst st')"
  using assms(2)
proof (cases rule: lstep.cases)
  case (packet raw l r l' hs)
  then show ?thesis
    using HandlePacket_ok [OF assms(1), of "mset (map h_idx hs)" l raw r l'] assms(3)
    by (simp add: system_ok_def)
next
  case (no_read l st1 l' hs)
  then show ?thesis
    using recvBegin_ok [OF assms(1), of "mset (map h_idx hs)" l st1 l'] assms(3)
    by (cases st1) (simp_all add: system_ok_def)
next
  case (read_starts l h l' hs)
  then show ?thesis
    using recvBegin_ok [OF assms(1), of "mset (map h_idx hs)" l "ReadInto h" l'] assms(3)
    by (simp add: system_ok_def)
next
  case (read_ends h hs io l r e l')
  then have "mset (map h_idx hs) = add_mset (h_idx h) (mset (map h_idx (remove1 h hs)))"
    by (intro mset_remove_handle)
  then show ?thesis
    using recvEnd_ok [OF assms(1) _ _ _ read_ends(4)] read_ends assms(3) set_remove1_subset [of h hs]
    by (auto simp: system_ok_def)
next
  case (io_failure l hs e)
  have "buffers_ok H (fail_iter e l) = buffers_ok H l" for H
    by (rule buffers_ok_cong) (simp_all add: fail_iter_def)
  moreover have "slots_ok (fail_iter e l) = slots_ok l" by (rule slots_ok_cong) (simp_all add: fail_iter_def)
  ultimately show ?thesis using io_failure assms(3) by (simp add: system_ok_def fail_iter_def)
qed

lemma reachable_ok: "reachable env opts st \<Longrightarrow> fair_env env \<Longrightarrow> system_ok st"
proof (induction rule: reachable.induct)
  case (offline l)
  then show ?case using newListener_ok by (simp add: OfflineWithOptions_def)
next
  case (connected l)
  then obtain l0 where l0: "newListener opts = Some l0" "l = l0\<lparr>hasSocket := True\<rparr>"
    by (auto simp: FromConn_def)
  have "buffers_ok H l = buffers_ok H l0" for H by (rule buffers_ok_cong) (simp_all add: l0)
  moreover have "slots_ok l = slots_ok l0" by (rule slots_ok_cong) (simp_all add: l0)
  ultimately show ?case using newListener_ok [OF l0(1)] by (simp add: system_ok_def)
next
  case (bound sys port tr l tr')
  then show ?case using BindWithOptions_ok by blast
next
  case (step st st')
  then show ?case using lstep_ok by blast
qed

section \<open>A full slot table\<close>

definition same_slots :: "Listener \<Rightarrow> Listener \<Rightarrow> bool" where
  "same_slots l l' \<longleftrightarrow> fst ` set (slots l') = fst ` set (slots l) \<and>
     recentlySeenSlots l' = recentlySeenSlots l \<and> lastSlot l' = lastSlot l"

lemma same_slots_bump [simp]: "same_slots l (bump f l') = same_slots l l'" "same_slots (bump f l) l' = same_slots l l'"
  by (simp_all add: same_slots_def)

lemma same_slots_release [simp]: "same_slots l (l_pool_release h l') = same_slots l l'"
  by (simp add: same_slots_def)

lemma full_accepts:
  assumes "slots_ok l" and "length (slots l) = maxLiveSlots" and "acceptSlot slot l = (True, l0)"
  shows "slot \<in> fst ` set (slots l) \<and> slot \<le> lastSlot l \<and> l0 = l"
proof -
  have "slot \<in> fst ` set (slots l)"
    using acceptSlot_cases(2) [OF assms(3)] assms(2) by (auto simp: map_of_eq_None_iff)
  then show ?thesis using acceptSlot_cases(1) [OF assms(3)] assms(1) by (auto simp: slots_ok_def)
qed

lemma full_note: "slot \<le> lastSlot l \<Longrightarrow> noteSlot env slot (bump f l) = Some (bump f l)"
  by (simp add: noteSlot_def leD)

lemma same_slots_put: "slot \<in> fst ` set (slots l) \<Longrightarrow> same_slots l (putSlot slot b v l)"
  by (simp add: same_slots_def putSlot_def keys_update insert_absorb)

lemma same_slots_put_bump:
  "slot \<in> fst ` set (slots l) \<Longrightarrow> same_slots l (putSlot slot b v (bump f l))"
  using same_slots_put [of slot "bump f l" b v] by simp

lemma full_parsed:
  assumes "slots_ok l" and "length (slots l) = maxLiveSlots" and "handlePacketParsed env h kd l = Some (r, l')"
  shows "same_slots l l' \<and> (\<forall>d. kd = DataKind d \<longrightarrow> lastSlot l < ds_Slot d \<longrightarrow> r = no_result)"
proof (cases kd)
  case (DataKind d)
  obtain ok l0 where acc: "acceptSlot (ds_Slot d) l = (ok, l0)" by fastforce
  show ?thesis
  proof (cases ok)
    case False
    then show ?thesis
      using assms(3) DataKind acc acceptSlot_cases(1) [OF acc]
      by (auto simp: handleData_def Let_def same_slots_def)
  next
    case True
    with acc have acc1: "acceptSlot (ds_Slot d) l = (True, l0)" by simp
    note f = full_accepts [OF assms(1,2) this]
    have "same_slots l l" by (simp add: same_slots_def)
    moreover have "same_slots l (putSlot (ds_Slot d) b v (bump f l))" for b v f
      by (rule same_slots_put_bump) (simp add: f)
    ultimately show ?thesis
      using assms(3) DataKind acc1 f full_note [of "ds_Slot d" l env]
      by (auto simp: handleData_def Let_def bind_eq_Some_conv split: if_splits)
  qed
next
  case (CodeKind c)
  obtain ok l0 where acc: "acceptSlot (cs_Slot c) l = (ok, l0)" by fastforce
  show ?thesis
  proof (cases ok)
    case False
    then show ?thesis
      using assms(3) CodeKind acc acceptSlot_cases(1) [OF acc]
      by (auto simp: handleCode_def Let_def same_slots_def)
  next
    case True
    with acc have acc1: "acceptSlot (cs_Slot c) l = (True, l0)" by simp
    note f = full_accepts [OF assms(1,2) this]
    have "same_slots l l" by (simp add: same_slots_def)
    moreover have "same_slots l (putSlot (cs_Slot c) b v (bump f l))" for b v f
      by (rule same_slots_put_bump) (simp add: f)
    ultimately show ?thesis
      using assms(3) CodeKind acc1 f full_note [of "cs_Slot c" l env]
      by (auto simp: handleCode_def Let_def bind_eq_Some_conv split: if_splits)
  qed
qed

lemma full_owned:
  assumes "slots_ok l" and "length (slots l) = maxLiveSlots" and "handlePacketOwned env h l = Some (r, l')"
    and "Bytes (w_pool (l_world l)) (Some h) = raw"
  shows "same_slots l l' \<and> (\<forall>d. ParseKind raw = Inr (DataKind d) \<longrightarrow> lastSlot l < ds_Slot d \<longrightarrow> r = no_result)"
proof -
  let ?l = "bump (bytesReceived_update (\<lambda>n. n + of_nat (Len (Some h)))) l"
  show ?thesis
  proof (cases "ParseKind raw")
    case (Inl err)
    then show ?thesis
      using assms(3,4) by (cases err) (auto simp: handlePacketOwned_def Let_def same_slots_def)
  next
    case (Inr kd)
    then have "handlePacketParsed env h kd ?l = Some (r, l')"
      using assms(3,4) by (simp add: handlePacketOwned_def Let_def)
    from full_parsed [OF _ _ this] assms(1,2) Inr show ?thesis by simp
  qed
qed

section \<open>Properties\<close>

text \<open>
  Property C4. No buffer is lost, shared or freed twice, under any interleaving. In every state
  reachable from a new listener by packets handed in, kept batches delivered, reads started and
  ended in any order by any number of goroutines, with any clock and map orders, each buffer of the
  pool is free, held by one pending shred of one live slot, or being read into by one call:
  the three numbers add up to the capacity and no index occurs twice among them.\<close>

theorem listener_buffers_conserved:
  assumes "fair_env env" and "reachable env opts (l, hs)"
  shows "available (w_pool (l_world l)) + size (slots_held l) + length hs = capacity (w_pool (l_world l)) \<and>
    (\<forall>i. count (mset (freelist (w_pool (l_world l))) + slots_held l + mset (map h_idx hs)) i \<le> 1) \<and>
    (\<forall>h \<in> set hs. unat (h_idx h) < length (buffers (w_pool (l_world l))))"
proof -
  have ok: "pool_ok (slots_held l + mset (map h_idx hs)) (w_pool (l_world l))"
    using reachable_ok [OF assms(2,1)] by (simp add: system_ok_def buffers_ok_def world_free_def)
  show ?thesis
    using available_held [OF ok] pool_count_le [OF ok] pool_index_bound [OF ok]
    by (simp add: add.assoc)
qed

definition demo_options :: ListenerOptions where
  "demo_options = DefaultListenerOptions\<lparr>PoolSize := 2\<rparr>"

lemma demo_listener:
  obtains l where "FromConn demo_options = Some l" "l_acquire l \<noteq> None" "pendingBatches l = []" "hasSocket l"
    "slots l = []" "lastSlot l = 0"
  by (simp add: FromConn_def newListener_def demo_options_def newBufferPool_def maxPoolCapacity_def
      l_acquire_def acquire_def Let_def)

lemma demo_reading: "\<exists>l h. reachable demo_env demo_options (l, [h])"
proof -
  obtain l where l: "FromConn demo_options = Some l" "l_acquire l \<noteq> None" "pendingBatches l = []" "hasSocket l"
    by (rule demo_listener)
  then obtain h l' where "l_acquire l = Some (h, l')" by auto
  then have "recvBegin demo_env l = Some (ReadInto h, l')"
    using l(3,4) by (simp add: recvBegin_def acquireBufferWithFallback_def)
  then show ?thesis
    using reachable.step [OF reachable.connected [OF l(1)] lstep.read_starts] by blast
qed

theorem listener_buffers_conserved_witness:
  "\<exists>l h. reachable demo_env demo_options (l, [h]) \<and>
     available (w_pool (l_world l)) + size (slots_held l) + 1 = capacity (w_pool (l_world l))"
proof -
  obtain l h where r: "reachable demo_env demo_options (l, [h])" using demo_reading by blast
  from listener_buffers_conserved [OF demo_env_fair r] r show ?thesis by auto
qed

text \<open>
  Property C7. The slot table stays bounded and consistent under any interleaving: in every reachable
  state at most 64 slots are live, each once; none of them is remembered as ended, so an ended slot is
  not reopened while it is remembered; no live slot is newer than the last slot, which never
  exceeds 2^40; and the last slot never moves back.\<close>

theorem listener_slots_bounded:
  assumes "fair_env env" and "reachable env opts (l, hs)" and "lstep env (l, hs) (l', hs')"
  shows "SlotCount l \<le> 64 \<and> distinct (map fst (slots l)) \<and>
    fst ` set (slots l) \<inter> set (recentlySeenSlots l) = {} \<and>
    (\<forall>s \<in> fst ` set (slots l). s \<le> lastSlot l) \<and> unat (lastSlot l) \<le> 2 ^ 40 \<and> lastSlot l \<le> lastSlot l'"
proof -
  have ok: "system_ok (l, hs)" by (rule reachable_ok [OF assms(2,1)])
  have "lastSlot l \<le> lastSlot l'" using lstep_ok [OF assms(1,3) ok] by simp
  moreover have "slots_ok l" using ok by (simp add: system_ok_def)
  ultimately show ?thesis
    by (auto simp: slots_ok_def SlotCount_def maxLiveSlots_def maxPlausibleSlot_def word_le_nat_alt push_bit_eq_mult)
qed

theorem listener_slots_bounded_witness:
  "\<exists>l h. reachable demo_env demo_options (l, [h]) \<and> SlotCount l \<le> 64"
proof -
  obtain l h where r: "reachable demo_env demo_options (l, [h])" using demo_reading by blast
  from listener_slots_bounded [OF demo_env_fair r lstep.io_failure] r show ?thesis by blast
qed

text \<open>
  Property C34. Starting a listener. Binding never panics, whatever the options and the operating
  system do: it returns a validation error, the socket's error, or a listener that satisfies every
  invariant, has its socket and no live slot, and all its buffers free. The two constructors that do not
  validate, for offline use and for a given connection, panic exactly when the pool size is
  outside 1 to 65535. A negative maximal age passes the validation and becomes an age of
  almost 2^64, so that no incomplete slot ever becomes too old.\<close>

theorem bind_never_panics:
  "fst (BindWithOptions sys port opts tr) \<noteq> None \<and>
   (\<forall>l. fst (BindWithOptions sys port opts tr) = Some (Inr l) \<longrightarrow>
      system_ok (l, []) \<and> hasSocket l \<and> slots l = [] \<and> int (available (w_pool (l_world l))) = PoolSize opts) \<and>
   (OfflineWithOptions opts = None \<longleftrightarrow> \<not> (0 < PoolSize opts \<and> PoolSize opts \<le> 65535)) \<and>
   (FromConn opts = None \<longleftrightarrow> \<not> (0 < PoolSize opts \<and> PoolSize opts \<le> 65535)) \<and>
   (\<forall>l s. OfflineWithOptions (DefaultListenerOptions\<lparr>MaxAge := -1\<rparr>) = Some l \<longrightarrow>
      validate (DefaultListenerOptions\<lparr>MaxAge := -1\<rparr>) = None \<and>
      saturatingAddU64 s (l_maxAge l) = 0xFFFFFFFFFFFFFFFF)"
proof (intro conjI allI impI)
  have none: "newListener opts = None \<longleftrightarrow> \<not> (0 < PoolSize opts \<and> PoolSize opts \<le> 65535)"
    by (auto simp: newListener_def newBufferPool_def maxPoolCapacity_def split: option.splits)
  then show "OfflineWithOptions opts = None \<longleftrightarrow> \<not> (0 < PoolSize opts \<and> PoolSize opts \<le> 65535)"
    "FromConn opts = None \<longleftrightarrow> \<not> (0 < PoolSize opts \<and> PoolSize opts \<le> 65535)"
    by (simp_all add: OfflineWithOptions_def FromConn_def)
  have "validate opts = None \<Longrightarrow> newListener opts \<noteq> None"
    using validate_pool [of opts] by (auto simp: newListener_def)
  then show "fst (BindWithOptions sys port opts tr) \<noteq> None"
    by (cases "validate opts") (auto simp: BindWithOptions_def Let_def split: option.split sum.split prod.split)
next
  fix l
  assume "fst (BindWithOptions sys port opts tr) = Some (Inr l)"
  then have b: "BindWithOptions sys port opts tr = (Some (Inr l), snd (BindWithOptions sys port opts tr))"
    by (metis prod.collapse)
  then show "system_ok (l, [])" "hasSocket l" "slots l = []" using BindWithOptions_ok by blast+
  obtain l0 bp where l0: "newListener opts = Some l0" "l = l0\<lparr>hasSocket := True, busyPollActive := bp\<rparr>"
    using b by (rule BindWithOptions_listener)
  then obtain p where p: "newBufferPool (PoolSize opts) = Some p" "w_pool (l_world l) = p"
    by (auto simp: newListener_def split: option.splits)
  moreover have "0 < PoolSize opts" using p(1) by (auto simp: newBufferPool_def split: if_splits)
  ultimately show "int (available (w_pool (l_world l))) = PoolSize opts" using newBufferPool_ok [OF p(1)] by simp
next
  fix l s
  assume "OfflineWithOptions (DefaultListenerOptions\<lparr>MaxAge := -1\<rparr>) = Some l"
  then have "l_maxAge l = 0xFFFFFFFFFFFFFFFF"
    by (auto simp: OfflineWithOptions_def newListener_def split: option.splits)
  moreover have "unat (saturatingAddU64 s 0xFFFFFFFFFFFFFFFF) = unat (0xFFFFFFFFFFFFFFFF :: u64)" by simp
  ultimately show "saturatingAddU64 s (l_maxAge l) = 0xFFFFFFFFFFFFFFFF" by (metis word_unat_eq_iff)
  show "validate (DefaultListenerOptions\<lparr>MaxAge := -1\<rparr>) = None" by (rule validate_negative_age)
qed

theorem bind_never_panics_witness:
  "\<exists>l. OfflineWithOptions (DefaultListenerOptions\<lparr>MaxAge := -1\<rparr>) = Some l \<and>
     saturatingAddU64 5 (l_maxAge l) = 0xFFFFFFFFFFFFFFFF"
proof -
  obtain l where "OfflineWithOptions (DefaultListenerOptions\<lparr>MaxAge := -1\<rparr>) = Some l"
    by (simp add: OfflineWithOptions_def newListener_def newBufferPool_def maxPoolCapacity_def
        DefaultListenerOptions_def DefaultPoolSize_def)
  then show ?thesis using bind_never_panics by blast
qed

text \<open>
  Property C38. Which system calls binding makes, in which order, and what it reports. Rejected options
  make none. Otherwise the socket is opened once; when its descriptor is accessible the receive buffer
  is set if its size is positive, then on Linux, and only there, the busy-poll option if its time is
  positive. On Linux busy polling is reported active exactly when that last call was made and
  succeeded. On every other platform it is reported active whenever a descriptor and a positive time are
  given, although no call sets it.\<close>

theorem socket_tuning:
  "(validate opts \<noteq> None \<longrightarrow> snd (BindWithOptions sys port opts tr) = tr) \<and>
   (validate opts = None \<longrightarrow> listen_answer sys tr port = Inr descriptor \<longrightarrow>
     (\<exists>l. BindWithOptions sys port opts tr =
        (Some (Inr l), tr @ [ListenUDP port] @
          (case descriptor of
             None \<Rightarrow> []
           | Some fd \<Rightarrow>
               (if RecvBuf opts > 0 then [SetsockoptInt fd (SOL_SOCKET sys) (SO_RCVBUF sys) (RecvBuf opts)] else []) @
               (if BusyPollMicros opts > 0 \<and> platform_of sys = Linux
                then [SetsockoptInt fd (SOL_SOCKET sys) 0x2E (int (unat (BusyPollMicros opts)))] else []))) \<and>
        (busyPollActive l \<longleftrightarrow> BusyPollMicros opts > 0 \<and>
          (\<exists>fd. descriptor = Some fd \<and>
            (platform_of sys = Linux \<longrightarrow>
               set_answer sys (tr @ [ListenUDP port] @ recv_calls sys opts fd) (poll_call sys opts fd) = None)))))"
proof (cases "validate opts")
  case None
  then obtain l0 where "newListener opts = Some l0" "\<not> busyPollActive l0"
    using validate_pool [OF None] by (auto simp: newListener_def)
  with None show ?thesis
    by (cases descriptor) (auto simp: BindWithOptions_def tuneSocket_calls recv_calls_def poll_call_def)
qed (simp add: BindWithOptions_def)

definition demo_darwin :: sysenv where
  "demo_darwin = \<lparr>platform_of = Darwin, SOL_SOCKET = 0xFFFF, SO_RCVBUF = 0x1002, EINVAL = offline_error,
     listen_answer = (\<lambda>_ _. Inr (Some 3)), set_answer = (\<lambda>_ _. None), get_answer = (\<lambda>_ _. Inr 0)\<rparr>"

theorem socket_tuning_witness:
  "\<exists>l. BindWithOptions demo_darwin 8001 DefaultListenerOptions [] =
     (Some (Inr l), [ListenUDP 8001, SetsockoptInt 3 0xFFFF 0x1002 67108864]) \<and> busyPollActive l"
  using socket_tuning [where sys = demo_darwin and opts = DefaultListenerOptions and port = 8001 and tr = "[]"
      and descriptor = "Some 3", THEN conjunct2] validate_default
  by (simp add: demo_darwin_def DefaultListenerOptions_def DefaultRecvBuf_def DefaultBusyPollMicros_def)

text \<open>
  Property C33. A full slot table blocks progress. While 64 slots are live and a buffer is free, no packet
  whatsoever changes the set of live slots, the remembered slots or the last slot; in particular a
  packet of a newer slot is dropped, because acceptance counts the live slots before the
  eviction that a newer slot would cause.\<close>

theorem full_slot_table_blocks:
  assumes "buffers_ok H l" and "slots_ok l" and "length (slots l) = 64"
    and "acquire (w_pool (l_world l)) \<noteq> None" and "HandlePacket env raw l = Some (r, l')"
  shows "fst ` set (slots l') = fst ` set (slots l) \<and> recentlySeenSlots l' = recentlySeenSlots l \<and>
    lastSlot l' = lastSlot l \<and>
    (\<forall>d. ParseKind (take 2048 raw) = Inr (DataKind d) \<longrightarrow> lastSlot l < ds_Slot d \<longrightarrow> r = no_result)"
proof -
  obtain h l1 where a: "l_acquire l = Some (h, l1)" using assms(4) by (auto simp: l_acquire_def)
  note ok = l_acquire_ok [OF assms(1,2) a]
  have l1: "slots l1 = slots l" "recentlySeenSlots l1 = recentlySeenSlots l" "lastSlot l1 = lastSlot l"
    using a by (auto simp: l_acquire_def)
  obtain h2 l2 where f: "fillBuffer h raw l1 = (h2, l2)" by fastforce
  from ok have b: "buffers_ok (add_mset (h_idx h) H) l1" "attached h" by simp_all
  note fo = fillBuffer_ok [OF b f]
  have "slots_ok l2" using assms(2) l1 fo slots_ok_cong [of l2 l] by simp
  moreover have "length (slots l2) = maxLiveSlots" using assms(3) l1 fo by (simp add: maxLiveSlots_def)
  moreover have "handlePacketOwned env h2 l2 = Some (r, l')"
    using assms(5) a f by (simp add: HandlePacket_def handlePacketLocked_def acquireBufferWithFallback_def)
  moreover have "take BufferSize raw = take 2048 raw" by (simp add: BufferSize_def)
  ultimately show ?thesis using full_owned [OF _ _ _ fo(4)] l1 fo by (simp add: same_slots_def)
qed

definition full_listener :: Listener where
  "full_listener = \<lparr>l_world = demo_world,
     slots = map (\<lambda>s. (of_nat s, newSlotAccumulator DefaultAccumulatorConfig)) [1..<65],
     recentlySeenSlots = [], pendingBatches = [], l_maxAge = 3, lastSlot = 1000, enableFEC = True,
     disableSalvageDelivery = False, accumulatorCfg = DefaultAccumulatorConfig, hasSocket = False,
     busyPollActive = False, lastIOErrKind = [], ctr = zero_counters\<rparr>"

lemma full_listener_ok: "buffers_ok {#} full_listener" "slots_ok full_listener"
  "length (slots full_listener) = 64" "acquire (w_pool (l_world full_listener)) \<noteq> None"
proof -
  have inj: "inj_on (of_nat :: nat \<Rightarrow> u64) {1..<65}"
    by (rule inj_onI) (simp add: word_unat_eq_iff unat_of_nat)
  have d: "distinct (map fst (slots full_listener))"
    using inj by (simp add: full_listener_def comp_def distinct_map del: upt_Suc)
  have "slots_held full_listener = {#}"
    by (simp add: slots_held_def full_listener_def newSlotAccumulator_def del: upt_Suc)
  moreover have "world_free {#} demo_world"
    using demo_world_good [of DefaultAccumulatorConfig] by (simp add: good_iff newSlotAccumulator_def)
  ultimately show "buffers_ok {#} full_listener"
    using d by (auto simp: buffers_ok_def full_listener_def acc_ok_def newSlotAccumulator_def simp del: upt_Suc)
  show "slots_ok full_listener"
    using d by (auto simp: slots_ok_def maxLiveSlots_def maxPlausibleSlot_def full_listener_def
        word_le_nat_alt unat_of_nat push_bit_eq_mult simp del: upt_Suc)
  show "length (slots full_listener) = 64" by (simp add: full_listener_def del: upt_Suc)
  show "acquire (w_pool (l_world full_listener)) \<noteq> None"
    by (simp add: full_listener_def demo_world_def newBufferPool_def maxPoolCapacity_def acquire_def Let_def del: upt_Suc)
qed

definition demo_newer :: "byte list" where
  "demo_newer = data_packet (replicate 64 0) \<lparr>kind = KindDataMerkle, proofSize = 2, resigned = False\<rparr>
     1001 0 1 0 1 0 [10] []"

lemma demo_newer_dropped: "\<exists>l'. HandlePacket demo_env demo_newer full_listener = Some (no_result, l')"
proof -
  obtain h l1 where a: "l_acquire full_listener = Some (h, l1)"
    using full_listener_ok(4) by (auto simp: l_acquire_def)
  have l1: "slots l1 = slots full_listener" "lastSlot l1 = 1000"
    using a by (auto simp: l_acquire_def full_listener_def)
  have b: "buffers_ok (add_mset (h_idx h) {#}) l1" "attached h"
    using l_acquire_ok [OF full_listener_ok(1,2) a] by simp_all
  obtain h2 l2 where f: "fillBuffer h demo_newer l1 = (h2, l2)" by fastforce
  note fo = fillBuffer_ok [OF b f]
  have "length demo_newer = 89" by (simp add: demo_newer_def data_packet_def)
  then have bytes: "Bytes (w_pool (l_world l2)) (Some h2) = demo_newer" using fo(4) by (simp add: BufferSize_def)
  obtain d where d: "ParseKind demo_newer = Inr (DataKind d)" "ds_Slot d = 1001"
    using parse_data_packet [of "replicate 64 0" "\<lparr>kind = KindDataMerkle, proofSize = 2, resigned = False\<rparr>" 0 0 "[10]" 1001 1 1 0 "[]"]
    by (simp add: demo_newer_def wf_variant_def IsData_def)
  let ?l = "bump (bytesReceived_update (\<lambda>n. n + of_nat (Len (Some h2)))) l2"
  have "acceptSlot (ds_Slot d) ?l = (False, bump (unparseableSlotRange_update (\<lambda>n. n + 1)) ?l)"
  proof -
    have "map_of (slots full_listener) 1001 = None"
      by (auto simp: full_listener_def map_of_eq_None_iff word_unat_eq_iff unat_of_nat simp del: upt_Suc)
    then show ?thesis
      using fo l1 full_listener_ok(3) d(2) by (simp add: acceptSlot_def maxLiveSlots_def)
  qed
  then show ?thesis
    using a f bytes d
    by (simp add: HandlePacket_def handlePacketLocked_def acquireBufferWithFallback_def handlePacketOwned_def
        handleData_def Let_def)
qed

theorem full_slot_table_blocks_witness:
  "\<exists>l'. HandlePacket demo_env demo_newer full_listener = Some (no_result, l') \<and> lastSlot l' = 1000"
proof -
  obtain l' where l': "HandlePacket demo_env demo_newer full_listener = Some (no_result, l')"
    using demo_newer_dropped by blast
  from full_slot_table_blocks [OF full_listener_ok l'] l' show ?thesis by (auto simp: full_listener_def)
qed

end
