(* ===== verification/Listener_Delivery.thy ===== *)
theory Listener_Delivery
  imports Listener_Inv
begin

text \<open>
  From packets to transactions: the packets of a batch, handed to the listener in order, deliver the
  transactions of the batch. The proof composes the parser, the pool, the listener and the
  accumulator. The second part is about the packet that closes a slot, whose payload the code discards.
\<close>

section \<open>A packet in a buffer\<close>

text \<open>
  The packet \<open>raw\<close> carries the payload \<open>c\<close> as the data shred \<open>i\<close> of a slot, and does not close the slot: the
  code discards the payload of a packet that does.
\<close>

definition carries :: "u64 \<Rightarrow> u32 \<Rightarrow> bool \<Rightarrow> byte list \<Rightarrow> byte list \<Rightarrow> bool" where
  "carries slot i bc c raw \<longleftrightarrow>
     (case ParseKind (take BufferSize raw) of
        Inr (DataKind d) \<Rightarrow> ds_Slot d = slot \<and> ds_Index d = i \<and> ds_Payload d = c \<and>
          ds_BatchComplete d = bc \<and> \<not> ds_LastInSlot d
      | _ \<Rightarrow> False)"

lemma carriesE:
  assumes "carries slot i bc c raw"
  obtains d where "ParseKind (take BufferSize raw) = Inr (DataKind d)" "ds_Slot d = slot" "ds_Index d = i"
    "ds_Payload d = c" "ds_BatchComplete d = bc" "\<not> ds_LastInSlot d"
  using assms by (auto simp: carries_def split: sum.splits ShredKind.splits)

lemma carried_payload:
  assumes "ParseKind raw = Inr (DataKind d)" and "Bytes p (Some h) = raw"
  shows "arr_payload p (Some h, of_nat (DataHeaderSize + length (ds_Payload d))) = Some (ds_Payload d)"
proof -
  have ok: "data_shred_ok raw d" using parsed_ok [OF assms(1)] by simp
  define n where "n = 88 + length (ds_Payload d)"
  have "unat (of_nat n :: u16) = n" using ok by (simp add: data_shred_ok_def n_def [symmetric] unat_of_nat)
  then have "unat (of_nat (88 + length (ds_Payload d)) :: u16) = 88 + length (ds_Payload d)"
    by (simp only: n_def)
  then show ?thesis
    using ok assms(2)
    by (simp add: arr_payload_def pd_payload_def mk_shred_def Let_def data_shred_ok_def DataHeaderSize_def)
qed

text \<open>
  The listener is ready for a slot that is not newer than the last one: it accepts its packets and has
  not ended it.
\<close>

definition ready :: "u16 multiset \<Rightarrow> u64 \<Rightarrow> Listener \<Rightarrow> bool" where
  "ready H slot l \<longleftrightarrow> buffers_ok H l \<and> slots_ok l \<and> slot \<le> lastSlot l \<and>
     slot \<notin> set (recentlySeenSlots l) \<and> (slot \<in> fst ` set (slots l) \<or> length (slots l) < maxLiveSlots)"

lemma ready_accepts:
  assumes "ready H slot l" and "slots l1 = slots l" and "lastSlot l1 = lastSlot l"
  shows "acceptSlot slot l1 = (True, l1)"
proof -
  have "slot \<le> maxPlausibleSlot" "slot \<le> lastSlot l" using assms(1) by (auto simp: ready_def slots_ok_def)
  moreover have "lastSlot l = 0 \<Longrightarrow> \<not> slot > maxBootstrapSlot"
    using \<open>slot \<le> lastSlot l\<close> by (simp add: maxBootstrapSlot_def word_le_nat_alt word_less_nat_alt)
  moreover have "\<not> (map_of (slots l) slot = None \<and> length (slots l) \<ge> maxLiveSlots)"
    using assms(1) by (auto simp: ready_def map_of_eq_None_iff)
  ultimately show ?thesis by (simp add: acceptSlot_def assms(2,3) leD)
qed

text \<open>The listener state in which the accumulator of the slot sees a packet, with its buffer.\<close>

definition loaded :: "byte list \<Rightarrow> Listener \<Rightarrow> BufferHandle \<Rightarrow> Listener \<Rightarrow> bool" where
  "loaded raw l h l1 \<longleftrightarrow> Bytes (w_pool (l_world l1)) (Some h) = take BufferSize raw \<and> attached h \<and>
     h_idx h \<notin># slots_held l \<and> slots l1 = slots l \<and> lastSlot l1 = lastSlot l \<and>
     recentlySeenSlots l1 = recentlySeenSlots l \<and> accumulatorCfg l1 = accumulatorCfg l \<and>
     disableSalvageDelivery l1 = disableSalvageDelivery l \<and>
     Suc (available (w_pool (l_world l1))) = available (w_pool (l_world l)) \<and>
     (\<forall>g. h_idx g \<noteq> h_idx h \<longrightarrow>
        Bytes (w_pool (l_world l1)) (Some g) = Bytes (w_pool (l_world l)) (Some g))"

lemma HandlePacket_owned:
  assumes "buffers_ok H l" and "slots_ok l" and "available (w_pool (l_world l)) > 0"
  obtains h l1 where "HandlePacket env raw l = handlePacketOwned env h l1" "loaded raw l h l1"
    "buffers_ok (add_mset (h_idx h) H) l1" "enableFEC l1 = enableFEC l"
proof -
  have "acquire (w_pool (l_world l)) \<noteq> None" using assms(3) by (simp add: available_def acquire_def Let_def)
  then obtain h p where a: "acquire (w_pool (l_world l)) = Some (h, p)" by auto
  let ?l = "l\<lparr>l_world := (l_world l)\<lparr>w_pool := p\<rparr>\<rparr>"
  have la: "l_acquire l = Some (h, ?l)" using a by (simp add: l_acquire_def)
  note ok = l_acquire_ok [OF assms(1,2) la]
  from ok have b: "buffers_ok (add_mset (h_idx h) H) ?l" "attached h" by simp_all
  obtain h2 l2 where f: "fillBuffer h raw ?l = (h2, l2)" by fastforce
  note fo = fillBuffer_ok [OF b f]
  have p: "Suc (available p) = available (w_pool (l_world l))" "buffers p = buffers (w_pool (l_world l))"
    using a by (auto simp: acquire_def available_def Let_def split: if_splits)
  have l2: "l2 = ?l\<lparr>l_world := (l_world ?l)\<lparr>w_pool := write_buf h (take (min (length raw) BufferSize) raw) p\<rparr>\<rparr>"
    using f by (auto simp: fillBuffer_def Let_def)
  have other: "Bytes (w_pool (l_world l2)) (Some g) = Bytes (w_pool (l_world l)) (Some g)"
    if "h_idx g \<noteq> h_idx h2" for g
    using that fo(3) Bytes_write_other [of g h _ p] Bytes_cong [OF p(2)] by (simp add: l2)
  have "loaded raw l h2 l2"
    using fo ok p other by (simp add: loaded_def l2 available_def write_buf_def)
  moreover have "HandlePacket env raw l = handlePacketOwned env h2 l2"
    using la f by (simp add: HandlePacket_def handlePacketLocked_def acquireBufferWithFallback_def)
  moreover have "buffers_ok (add_mset (h_idx h2) H) l2" "enableFEC l2 = enableFEC l"
    using fo by (simp_all add: l2)
  ultimately show ?thesis by (intro that [of h2 l2])
qed

lemma HandlePacket_loaded:
  assumes "buffers_ok H l" and "slots_ok l" and "available (w_pool (l_world l)) > 0"
  obtains h l1 where "HandlePacket env raw l = handlePacketOwned env h l1" "loaded raw l h l1"
  by (rule HandlePacket_owned [OF assms]) (rule that)

lemma slotAcc_loaded:
  "loaded raw l h l1 \<Longrightarrow> slotAcc slot (bump f l1) = slotAcc slot l"
  by (simp add: loaded_def slotAcc_def split: option.split)

lemma handle_parsed:
  assumes "ready H slot l" and "loaded raw l h l1" and "ParseKind (take BufferSize raw) = Inr (DataKind d)"
    and "ds_Slot d = slot"
  shows "\<exists>f. handlePacketOwned env h l1 =
      Option.bind (pushData env (ds_Index d) (ds_FecSetIndex d) (Some h) (of_nat (DataHeaderSize + length (ds_Payload d)))
          (ds_BatchComplete d) (ds_LastInSlot d) (slotAcc slot l) (l_world l1)) (\<lambda>(acc, w, txs).
        Some (hit_result slot txs, putSlot slot acc w (bump f l1)))"
proof -
  have same: "slots l1 = slots l" "lastSlot l1 = lastSlot l" "recentlySeenSlots l1 = recentlySeenSlots l"
    and bytes: "Bytes (w_pool (l_world l1)) (Some h) = take BufferSize raw"
    using assms(2) by (simp_all add: loaded_def)
  let ?f1 = "bytesReceived_update (\<lambda>n. n + of_nat (Len (Some h)))"
  have acc: "acceptSlot slot (bump ?f1 l1) = (True, bump ?f1 l1)"
    using same by (intro ready_accepts [OF assms(1)]) simp_all
  have bb: "bump g (bump f l) = bump (g \<circ> f) l" for g f l by (simp add: bump_def)
  let ?f = "dataShredCount_update (\<lambda>n. n + 1) \<circ> ?f1"
  have nt: "noteSlot env slot (bump ?f l1) = Some (bump ?f l1)"
    using assms(1) same by (simp add: noteSlot_def ready_def leD)
  have sa: "slotAcc slot (bump ?f l1) = slotAcc slot l" by (rule slotAcc_loaded [OF assms(2)])
  show ?thesis
    using assms(1,3,4) bytes acc same nt sa
    by (intro exI [of _ ?f]) (simp add: handlePacketOwned_def handleData_def Let_def bb ready_def)
qed

lemma handle_carried:
  assumes "ready H slot l" and "loaded raw l h l1" and "carries slot i bc c raw"
  shows "\<exists>fec f. arr_payload (w_pool (l_world l1)) (Some h, of_nat (DataHeaderSize + length c)) = Some c \<and>
    handlePacketOwned env h l1 =
      Option.bind (pushData env i fec (Some h) (of_nat (DataHeaderSize + length c)) bc False
          (slotAcc slot l) (l_world l1)) (\<lambda>(acc, w, txs).
        Some (hit_result slot txs, putSlot slot acc w (bump f l1)))"
proof -
  obtain d where d: "ParseKind (take BufferSize raw) = Inr (DataKind d)" "ds_Slot d = slot" "ds_Index d = i"
    "ds_Payload d = c" "ds_BatchComplete d = bc" "\<not> ds_LastInSlot d"
    by (rule carriesE [OF assms(3)])
  have bytes: "Bytes (w_pool (l_world l1)) (Some h) = take BufferSize raw" using assms(2) by (simp add: loaded_def)
  show ?thesis
    using handle_parsed [OF assms(1,2) d(1,2), of env] carried_payload [OF d(1) bytes] d(3-6) by auto
qed

section \<open>The packets of a batch in order\<close>

text \<open>The slot is in the middle of a batch, its pending shreds in buffers of the pool.\<close>

definition mid_slot :: "u16 multiset \<Rightarrow> u64 \<Rightarrow> pendingShred list \<Rightarrow> Listener \<Rightarrow> bool" where
  "mid_slot H slot ps l \<longleftrightarrow> ready H slot l \<and> mid_batch ps (slotAcc slot l) \<and>
     (\<forall>p \<in> set ps. \<exists>g. source p = PoolPayload (Some g) \<and> attached g)"

lemma pending_held:
  assumes "(k, p) \<in> set (pending (slotAcc slot l))" and "source p = PoolPayload (Some g)" and "attached g"
  shows "h_idx g \<in># slots_held l"
proof (cases "map_of (slots l) slot")
  case None
  then show ?thesis using assms(1) by (simp add: slotAcc_def newSlotAccumulator_def)
next
  case (Some a)
  have "h_idx g \<in># held (pending (slotAcc slot l))"
    using assms by (auto simp: held_def intro!: bexI [of _ "(k, p)"])
  then show ?thesis
    using Some map_of_SomeD [OF Some] by (auto simp: slots_held_def slotAcc_def intro!: bexI [of _ "(slot, a)"])
qed

lemma mid_slot_held:
  assumes "mid_slot H slot ps l" and "p \<in> set ps" and "source p = PoolPayload (Some g)" and "attached g"
  shows "h_idx g \<in># slots_held l"
proof -
  let ?a = "slotAcc slot l"
  have "pending ?a = shreds_at (batchStart ?a) ps" using assms(1) by (simp add: mid_slot_def mid_batch_def)
  then have "p \<in> snd ` set (pending ?a)" using assms(2) map_snd_shreds_at by (metis set_map)
  then show ?thesis using pending_held assms(3,4) by fastforce
qed

lemma loaded_payloads:
  assumes "mid_slot H slot ps l" and "loaded raw l h l1" and "p \<in> set ps"
  shows "payload_or_empty (w_pool (l_world l1)) p = payload_or_empty (w_pool (l_world l)) p"
proof -
  obtain g where g: "source p = PoolPayload (Some g)" "attached g"
    using assms(1,3) by (auto simp: mid_slot_def)
  have "h_idx g \<noteq> h_idx h" using mid_slot_held [OF assms(1,3) g] assms(2) by (auto simp: loaded_def)
  then have "Bytes (w_pool (l_world l1)) (Some g) = Bytes (w_pool (l_world l)) (Some g)"
    using assms(2) by (simp add: loaded_def)
  then show ?thesis by (simp add: payload_or_empty_def pd_payload_def g)
qed

lemma slotAcc_put [simp]: "slotAcc slot (putSlot slot a w l) = a"
  by (simp add: slotAcc_def putSlot_def update_conv')

lemma ready_put:
  assumes "ready H slot l" and "loaded raw l h l1" and "buffers_ok H l'" and "slots_ok l'"
    and "l' = putSlot slot a w (bump f l1)"
  shows "ready H slot l'"
  using assms by (simp add: ready_def loaded_def putSlot_def keys_update)

lemma packet_middle:
  assumes "fair_env env" and "mid_slot H slot ps l" and "available (w_pool (l_world l)) > 0"
    and "carries slot (streamingCursor (slotAcc slot l)) False c raw"
    and "Push (streamingDecoder (slotAcc slot l)) c = (d, Inr txs)"
    and "unat (batchStart (slotAcc slot l)) + length ps < 4294967294"
  shows "\<exists>l' fec x. HandlePacket env raw l = Some (hit_result slot (fresh (yieldedSigs (slotAcc slot l)) txs), l') \<and>
    slotAcc slot l' = streamed fec False x d txs (slotAcc slot l) \<and>
    mid_slot H slot (ps @ [mk_shred fec False x]) l' \<and>
    map (payload_or_empty (w_pool (l_world l'))) (ps @ [mk_shred fec False x]) =
      map (payload_or_empty (w_pool (l_world l))) ps @ [c] \<and>
    Suc (available (w_pool (l_world l'))) = available (w_pool (l_world l))"
proof -
  let ?a = "slotAcc slot l"
  have rd: "ready H slot l" and mid: "mid_batch ps ?a" using assms(2) by (simp_all add: mid_slot_def)
  then have ok: "buffers_ok H l" "slots_ok l" by (simp_all add: ready_def)
  obtain h l1 where h: "HandlePacket env raw l = handlePacketOwned env h l1" "loaded raw l h l1"
    by (rule HandlePacket_loaded [OF ok assms(3)])
  let ?x = "(Some h, of_nat (DataHeaderSize + length c)) :: arrival"
  from handle_carried [OF rd h(2) assms(4), where env = env] obtain fec f where
    pl: "arr_payload (w_pool (l_world l1)) ?x = Some c"
    and hp: "handlePacketOwned env h l1 =
      Option.bind (pushData env (streamingCursor ?a) fec (fst ?x) (snd ?x) False False ?a (l_world l1)) (\<lambda>(acc, w, txs).
        Some (hit_result slot txs, putSlot slot acc w (bump f l1)))" by auto
  let ?l' = "putSlot slot (streamed fec False ?x d txs ?a) (l_world l1) (bump f l1)"
  have res: "HandlePacket env raw l = Some (hit_result slot (fresh (yieldedSigs ?a) txs), ?l')"
    using push_middle [OF mid pl assms(5), of env fec] h(1) hp by simp
  have "buffers_ok H ?l'" "slots_ok ?l'" using HandlePacket_ok [OF assms(1) ok res] by simp_all
  then have "ready H slot ?l'" by (rule ready_put [OF rd h(2) _ _ refl])
  moreover have "source (mk_shred fec False ?x) = PoolPayload (Some h)" "attached h"
    using h(2) by (simp_all add: mk_shred_def loaded_def)
  ultimately have "mid_slot H slot (ps @ [mk_shred fec False ?x]) ?l'"
    using assms(2) mid_batch_streamed [OF mid assms(6)] by (auto simp: mid_slot_def)
  moreover have "w_pool (l_world ?l') = w_pool (l_world l1)" by (simp add: putSlot_def)
  moreover have "payload_or_empty (w_pool (l_world l1)) (mk_shred fec False ?x) = c"
    using pl by (simp add: payload_or_empty_def)
  ultimately show ?thesis
    using res loaded_payloads [OF assms(2) h(2)] h(2) by (intro exI [of _ ?l'] exI [of _ fec] exI [of _ ?x]) (simp add: loaded_def)
qed

lemma packet_last:
  assumes "fair_env env" and "mid_slot H slot ps l" and "available (w_pool (l_world l)) > 0"
    and "carries slot (streamingCursor (slotAcc slot l)) True c raw"
    and "Push (streamingDecoder (slotAcc slot l)) c = (d, Inr txs)"
    and "DecodeBatch (concat (map (payload_or_empty (w_pool (l_world l))) ps) @ c) = Inr all"
    and "fresh (seen (yieldedSigs (slotAcc slot l)) txs) all = []"
  shows "\<exists>l'. HandlePacket env raw l = Some (hit_result slot (fresh (yieldedSigs (slotAcc slot l)) txs), l') \<and>
    ready H slot l' \<and> at_batch_start (streamingCursor (slotAcc slot l) + 1) (slotAcc slot l')"
proof -
  let ?a = "slotAcc slot l"
  have rd: "ready H slot l" and mid: "mid_batch ps ?a" using assms(2) by (simp_all add: mid_slot_def)
  then have ok: "buffers_ok H l" "slots_ok l" by (simp_all add: ready_def)
  obtain h l1 where h: "HandlePacket env raw l = handlePacketOwned env h l1" "loaded raw l h l1"
    by (rule HandlePacket_loaded [OF ok assms(3)])
  let ?x = "(Some h, of_nat (DataHeaderSize + length c)) :: arrival"
  from handle_carried [OF rd h(2) assms(4), where env = env] obtain fec f where
    pl: "arr_payload (w_pool (l_world l1)) ?x = Some c"
    and hp: "handlePacketOwned env h l1 =
      Option.bind (pushData env (streamingCursor ?a) fec (fst ?x) (snd ?x) True False ?a (l_world l1)) (\<lambda>(acc, w, txs).
        Some (hit_result slot txs, putSlot slot acc w (bump f l1)))" by auto
  have "map (payload_or_empty (w_pool (l_world l1))) ps = map (payload_or_empty (w_pool (l_world l))) ps"
    using loaded_payloads [OF assms(2) h(2)] by simp
  with assms(6) have "DecodeBatch (concat (map (payload_or_empty (w_pool (l_world l1))) ps) @ c) = Inr all"
    by (simp only:)
  from push_last [OF mid pl assms(5) this assms(7), of env fec] obtain b v where
    push: "pushData env (streamingCursor ?a) fec (fst ?x) (snd ?x) True False ?a (l_world l1) =
      Some (b, v, fresh (yieldedSigs ?a) txs)" and b: "at_batch_start (streamingCursor ?a + 1) b" by blast
  let ?l' = "putSlot slot b v (bump f l1)"
  have res: "HandlePacket env raw l = Some (hit_result slot (fresh (yieldedSigs ?a) txs), ?l')"
    using push h(1) hp by simp
  have "buffers_ok H ?l'" "slots_ok ?l'" using HandlePacket_ok [OF assms(1) ok res] by simp_all
  then have "ready H slot ?l'" by (rule ready_put [OF rd h(2) _ _ refl])
  with res b show ?thesis by auto
qed

text \<open>Packets handed in one after the other, with all the transactions they return.\<close>

fun handleAll :: "environ \<Rightarrow> byte list list \<Rightarrow> Listener \<Rightarrow> (VersionedTransaction list \<times> Listener) option" where
  "handleAll env [] l = Some ([], l)"
| "handleAll env (raw # raws) l =
     Option.bind (HandlePacket env raw l) (\<lambda>((slot, txs, hit), l).
       Option.bind (handleAll env raws l) (\<lambda>(out, l). Some (txs @ out, l)))"

text \<open>The packets carry the pieces of a batch from index \<open>i\<close> on; the last one ends the batch.\<close>

fun carry_batch :: "u64 \<Rightarrow> u32 \<Rightarrow> byte list list \<Rightarrow> byte list list \<Rightarrow> bool" where
  "carry_batch slot i [] [] = True"
| "carry_batch slot i (c # cs) (raw # raws) = (carries slot i (raws = []) c raw \<and> carry_batch slot (i + 1) cs raws)"
| "carry_batch slot i _ _ = False"

lemma hit_txs [simp]: "fst (snd (hit_result slot txs)) = txs"
  by (simp add: hit_result_def no_result_def)

lemma handleAll_Cons:
  assumes "HandlePacket env raw l = Some (hit_result slot txs, l1)" and "handleAll env raws l1 = Some (out, l')"
  shows "handleAll env (raw # raws) l = Some (txs @ out, l')"
proof -
  obtain sl hit where "hit_result slot txs = (sl, txs, hit)" using hit_txs by (metis prod.collapse)
  then show ?thesis using assms by simp
qed

lemma handleAll_batch:
  assumes "fair_env env" and "mid_slot H slot ps l" and "cs \<noteq> []"
    and "unat (batchStart (slotAcc slot l)) + length ps + length cs < 4294967296"
    and "carry_batch slot (streamingCursor (slotAcc slot l)) cs raws"
    and "length raws \<le> available (w_pool (l_world l))"
    and "push_all (streamingDecoder (slotAcc slot l)) cs = (d, Inr txs)"
    and "DecodeBatch (concat (map (payload_or_empty (w_pool (l_world l))) ps) @ concat cs) = Inr all"
    and "fresh (seen (yieldedSigs (slotAcc slot l)) txs) all = []"
  shows "\<exists>l'. handleAll env raws l = Some (fresh (yieldedSigs (slotAcc slot l)) txs, l') \<and> ready H slot l' \<and>
    at_batch_start (streamingCursor (slotAcc slot l) + of_nat (length cs)) (slotAcc slot l')"
  using assms(2-)
proof (induction cs arbitrary: ps l raws txs)
  case (Cons c cs)
  let ?a = "slotAcc slot l"
  from Cons.prems(4) obtain raw raws' where raws: "raws = raw # raws'"
    and car: "carries slot (streamingCursor ?a) (raws' = []) c raw"
    and rest: "carry_batch slot (streamingCursor ?a + 1) cs raws'"
    by (cases raws) auto
  obtain d1 t1 ts where p: "Push (streamingDecoder ?a) c = (d1, Inr t1)"
    "push_all d1 cs = (d, Inr ts)" "txs = t1 @ ts"
    using Cons.prems(6) by (auto split: prod.splits sum.splits)
  have av: "available (w_pool (l_world l)) > 0" using Cons.prems(5) raws by simp
  show ?case
  proof (cases "cs = []")
    case True
    with rest p have e: "raws' = []" "ts = []" by (cases raws', auto)+
    then have car': "carries slot (streamingCursor ?a) True c raw" using car by simp
    have "DecodeBatch (concat (map (payload_or_empty (w_pool (l_world l))) ps) @ c) = Inr all"
      "fresh (seen (yieldedSigs ?a) t1) all = []"
      using Cons.prems(7,8) True p(3) e by simp_all
    from packet_last [OF assms(1) Cons.prems(1) av car' p(1) this] obtain l1 where
      l1: "HandlePacket env raw l = Some (hit_result slot (fresh (yieldedSigs ?a) t1), l1)" "ready H slot l1"
        "at_batch_start (streamingCursor ?a + 1) (slotAcc slot l1)" by blast
    then show ?thesis
      using handleAll_Cons [OF l1(1), of "[]" "[]" l1] by (auto simp: raws e p(3) True)
  next
    case False
    with rest have ne: "raws' \<noteq> []" by (cases cs; cases raws') auto
    have len: "length cs > 0" using False by simp
    have "unat (batchStart ?a) + length ps < 4294967294" using Cons.prems(3) len by (simp only: list.size)
    moreover have "carries slot (streamingCursor ?a) False c raw" using car ne by simp
    ultimately obtain l1 fec x where
      l1: "HandlePacket env raw l = Some (hit_result slot (fresh (yieldedSigs ?a) t1), l1)"
      and a1: "slotAcc slot l1 = streamed fec False x d1 t1 ?a"
      and m1: "mid_slot H slot (ps @ [mk_shred fec False x]) l1"
      and pl: "map (payload_or_empty (w_pool (l_world l1))) (ps @ [mk_shred fec False x]) =
        map (payload_or_empty (w_pool (l_world l))) ps @ [c]"
      and av1: "Suc (available (w_pool (l_world l1))) = available (w_pool (l_world l))"
      using packet_middle [OF assms(1) Cons.prems(1) av _ p(1)] by blast
    have f: "batchStart (slotAcc slot l1) = batchStart ?a" "yieldedSigs (slotAcc slot l1) = seen (yieldedSigs ?a) t1"
      "streamingCursor (slotAcc slot l1) = streamingCursor ?a + 1" "streamingDecoder (slotAcc slot l1) = d1"
      by (simp_all add: a1 streamed_def)
    have dec: "DecodeBatch (concat (map (payload_or_empty (w_pool (l_world l1))) (ps @ [mk_shred fec False x])) @ concat cs)
        = Inr all" unfolding pl using Cons.prems(7) by simp
    have "\<exists>l'. handleAll env raws' l1 = Some (fresh (yieldedSigs (slotAcc slot l1)) ts, l') \<and> ready H slot l' \<and>
      at_batch_start (streamingCursor (slotAcc slot l1) + of_nat (length cs)) (slotAcc slot l')"
      by (rule Cons.IH [OF m1 False _ _ _ _ dec])
        (use Cons.prems(3,5,8) av1 rest p raws in \<open>simp_all add: f seen_append [symmetric]\<close>)
    then obtain l' where l': "handleAll env raws' l1 = Some (fresh (seen (yieldedSigs ?a) t1) ts, l')" "ready H slot l'"
      "at_batch_start (streamingCursor ?a + 1 + of_nat (length cs)) (slotAcc slot l')"
      by (auto simp: f)
    then show ?thesis
      using handleAll_Cons [OF l1 l'(1)] by (simp add: raws p(3) fresh_append ac_simps)
  qed
qed simp

section \<open>Properties\<close>

text \<open>
  Property C1. End to end, for a batch that does not close its slot. A batch of entries is encoded, cut
  into payloads and carried by data packets of a slot that is between two batches and not newer than the last
  slot; none of the packets has the flag of the slot's last one, the last of them has the
  flag of a complete batch. The packets are handed to the listener in order, enough buffers are free, and
  the streaming decoder reports no error on the pieces. Then every call returns, what the calls return
  together is exactly the list of the batch's transactions, each first signature once, in order, and the
  listener is ready for the slot's next batch with all its invariants kept. Parser, pool, routing,
  streaming, flush and buffer release take part.\<close>

theorem packets_deliver_batch:
  assumes "fair_env env" and "ready H slot l" and "at_batch_start i (slotAcc slot l)"
    and "wf_batch es" and "concat cs = enc_batch es" and "push_all NewStreamingDecoder cs = (d, Inr txs)"
    and "carry_batch slot i cs raws" and "length raws \<le> available (w_pool (l_world l))"
    and "unat i + length cs < 2 ^ 32"
  shows "\<exists>l'. handleAll env raws l = Some (fresh [] (batch_txs es), l') \<and> ready H slot l' \<and>
    at_batch_start (i + of_nat (length cs)) (slotAcc slot l')"
proof -
  have ne: "cs \<noteq> []" using assms(5) by (rule batch_chunks_nonempty)
  then obtain n where "length cs = Suc n" by (cases cs) simp_all
  then have "unat i < 4294967295" using assms(9) by simp
  then have mid: "mid_slot H slot [] l"
    using assms(2,3) by (simp add: mid_slot_def mid_batch_def at_batch_start_def)
  have a: "streamingCursor (slotAcc slot l) = i" "batchStart (slotAcc slot l) = i"
    "streamingDecoder (slotAcc slot l) = NewStreamingDecoder" "yieldedSigs (slotAcc slot l) = []"
    using assms(3) by (simp_all add: at_batch_start_def)
  have txs: "txs = batch_txs es" by (rule push_all_batch [OF assms(4,5,6)])
  have "DecodeBatch (enc_batch es) = Inr (batch_txs es)" using DecodeBatch_enc [OF assms(4), of "[]"] by simp
  then show ?thesis
    using handleAll_batch [OF assms(1) mid ne, of raws d txs "batch_txs es"] assms(5-9)
      fresh_seen [of "batch_txs es" "batch_txs es" "[]"]
    by (simp add: a txs)
qed

definition demo_wire_of :: "u64 \<Rightarrow> byte list" where
  "demo_wire_of slot = data_packet (replicate 64 0) \<lparr>kind = KindDataMerkle, proofSize = 2, resigned = False\<rparr>
     slot 0 1 0 1 0x40 (enc_batch demo_batch) []"

abbreviation demo_wire :: "byte list" where
  "demo_wire \<equiv> demo_wire_of 7"

lemma demo_carries: "carries slot 0 True (enc_batch demo_batch) (demo_wire_of slot)"
proof -
  have "length (demo_wire_of slot) = 401" by (simp add: demo_wire_of_def data_packet_def length_demo_batch)
  then have t: "take BufferSize (demo_wire_of slot) = demo_wire_of slot" by (simp add: BufferSize_def)
  have bits: "bit (0x40 :: byte) 6" "\<not> bit (0x40 :: byte) 7" by simp_all
  have "wf_variant \<lparr>kind = KindDataMerkle, proofSize = 2, resigned = False\<rparr>"
    "IsData \<lparr>kind = KindDataMerkle, proofSize = 2, resigned = False\<rparr>"
    by (simp_all add: wf_variant_def IsData_def)
  note pk = parse_data_packet [OF _ this, of "replicate 64 0" 0 0 "enc_batch demo_batch" slot 1 1 "0x40" "[]"]
  show ?thesis unfolding carries_def t unfolding demo_wire_of_def using pk bits by (simp add: length_demo_batch)
qed

lemma demo_ready:
  obtains l where "OfflineWithOptions demo_options = Some l" "ready {#} 7 (l\<lparr>lastSlot := 7\<rparr>)"
    "at_batch_start 0 (slotAcc 7 (l\<lparr>lastSlot := 7\<rparr>))" "available (w_pool (l_world l)) = 2"
proof -
  obtain p where p: "newBufferPool 2 = Some p" "available p = 2"
    using newBufferPool_ok [of 2] by (simp add: newBufferPool_def maxPoolCapacity_def)
  then obtain l where l: "newListener demo_options = Some l" "slots l = []" "recentlySeenSlots l = []" "w_pool (l_world l) = p"
    by (simp add: newListener_def demo_options_def)
  have "buffers_ok {#} l" using newListener_ok [OF l(1)] by (simp add: system_ok_def)
  then have "buffers_ok {#} (l\<lparr>lastSlot := 7\<rparr>)"
    using buffers_ok_cong [of "l\<lparr>lastSlot := 7\<rparr>" l "{#}"] by simp
  then have "ready {#} 7 (l\<lparr>lastSlot := 7\<rparr>)"
    using l by (simp add: ready_def slots_ok_def maxLiveSlots_def maxPlausibleSlot_def push_bit_eq_mult)
  moreover have "at_batch_start 0 (slotAcc 7 (l\<lparr>lastSlot := 7\<rparr>))"
    using l by (simp add: slotAcc_def at_batch_start_def newSlotAccumulator_def)
  ultimately show ?thesis using l p by (intro that [of l]) (simp_all add: OfflineWithOptions_def)
qed

theorem packets_deliver_batch_witness:
  "\<exists>l l'. OfflineWithOptions demo_options = Some l \<and>
     handleAll demo_env [demo_wire] (l\<lparr>lastSlot := 7\<rparr>) = Some ([demo_tx], l') \<and> at_batch_start 1 (slotAcc 7 l')"
proof -
  obtain l where l: "OfflineWithOptions demo_options = Some l" "ready {#} 7 (l\<lparr>lastSlot := 7\<rparr>)"
    "at_batch_start 0 (slotAcc 7 (l\<lparr>lastSlot := 7\<rparr>))" "available (w_pool (l_world l)) = 2"
    by (rule demo_ready)
  obtain d where "Push NewStreamingDecoder (enc_batch demo_batch) = (d, Inr (batch_txs demo_batch))"
    using Push_batch [OF wf_demo_batch, of "[]"] by auto
  then have p: "push_all NewStreamingDecoder [enc_batch demo_batch] = (d, Inr (batch_txs demo_batch))" by simp
  from packets_deliver_batch [OF demo_env_fair l(2,3) wf_demo_batch _ p, of "[demo_wire]"] demo_carries l(1,4) fresh_demo
  show ?thesis by auto
qed

section \<open>The packet that closes a slot\<close>

lemma flush_nothing: "batchCompleteIdx a = [] \<Longrightarrow> tryFlushBatches env a w out = Some (a, w, out)"
  unfolding tryFlushBatches_def
  by (subst go_loop.simps) (simp add: flushRound_def smallestBatchCompleteIdxFrom_def)

lemma push_closing:
  assumes "batchCompleteIdx a = []"
  shows "pushData env index fec handle pEnd bc True a w =
    Some (a\<lparr>slotComplete := True\<rparr>, release_handle handle w, [])"
  using assms by (simp add: pushData_def Let_def flush_nothing)

lemma release_available: "attached h \<Longrightarrow> available (w_pool (release_handle (Some h) w)) = Suc (available (w_pool w))"
  by (simp add: release_handle_def Release_def pool_release_def available_def)

text \<open>
  Property C40. The packet that closes a slot is discarded with its payload. A data packet flagged as the last
  of its slot, whatever transactions it carries and whatever batch it ends, only marks the slot as
  complete: if no complete batch is waiting, the call returns nothing, the accumulator of the slot keeps
  every other field, so neither the payload nor the batch end is recorded, and the buffer is given
  back. The transactions of the slot's last batch that reach into this packet are therefore not
  delivered by the batch's own packets.\<close>

theorem closing_packet_discarded:
  assumes "fair_env env" and "ready H slot l" and "available (w_pool (l_world l)) > 0"
    and "ParseKind (take 2048 raw) = Inr (DataKind d)" and "ds_Slot d = slot" and "ds_LastInSlot d"
    and "batchCompleteIdx (slotAcc slot l) = []"
  shows "\<exists>l'. HandlePacket env raw l = Some (no_result, l') \<and>
    slotAcc slot l' = (slotAcc slot l)\<lparr>slotComplete := True\<rparr> \<and> ready H slot l' \<and>
    available (w_pool (l_world l')) = available (w_pool (l_world l))"
proof -
  have ok: "buffers_ok H l" "slots_ok l" using assms(2) by (simp_all add: ready_def)
  obtain h l1 where h: "HandlePacket env raw l = handlePacketOwned env h l1" "loaded raw l h l1"
    by (rule HandlePacket_loaded [OF ok assms(3)])
  have pk: "ParseKind (take BufferSize raw) = Inr (DataKind d)" using assms(4) by (simp add: BufferSize_def)
  from handle_parsed [OF assms(2) h(2) pk assms(5), of env] obtain f where
    hp: "handlePacketOwned env h l1 =
      Option.bind (pushData env (ds_Index d) (ds_FecSetIndex d) (Some h) (of_nat (DataHeaderSize + length (ds_Payload d)))
          (ds_BatchComplete d) (ds_LastInSlot d) (slotAcc slot l) (l_world l1)) (\<lambda>(acc, w, txs).
        Some (hit_result slot txs, putSlot slot acc w (bump f l1)))" by blast
  let ?l' = "putSlot slot ((slotAcc slot l)\<lparr>slotComplete := True\<rparr>) (release_handle (Some h) (l_world l1)) (bump f l1)"
  have res: "HandlePacket env raw l = Some (no_result, ?l')"
    using h(1) hp assms(6) by (simp add: push_closing [OF assms(7)] hit_result_def)
  have "buffers_ok H ?l'" "slots_ok ?l'" using HandlePacket_ok [OF assms(1) ok res] by simp_all
  then have "ready H slot ?l'" by (rule ready_put [OF assms(2) h(2) _ _ refl])
  moreover have "available (w_pool (l_world ?l')) = available (w_pool (l_world l))"
    using release_available [of h] h(2) by (simp add: putSlot_def loaded_def)
  ultimately show ?thesis using res by (intro exI [of _ ?l']) simp
qed

definition demo_closing :: "byte list" where
  "demo_closing = data_packet (replicate 64 0) \<lparr>kind = KindDataMerkle, proofSize = 2, resigned = False\<rparr>
     7 0 1 0 1 0xC0 (enc_batch demo_batch) []"

text \<open>A whole batch with a transaction, in one packet that closes the slot, returns nothing.\<close>

theorem closing_packet_discarded_witness:
  "\<exists>l l'. OfflineWithOptions demo_options = Some l \<and> DecodeBatch (drop 88 demo_closing) = Inr [demo_tx] \<and>
     HandlePacket demo_env demo_closing (l\<lparr>lastSlot := 7\<rparr>) = Some (no_result, l') \<and>
     at_batch_start 0 (slotAcc 7 l')"
proof -
  obtain l where l: "OfflineWithOptions demo_options = Some l" "ready {#} 7 (l\<lparr>lastSlot := 7\<rparr>)"
    "at_batch_start 0 (slotAcc 7 (l\<lparr>lastSlot := 7\<rparr>))" "available (w_pool (l_world l)) = 2"
    by (rule demo_ready)
  have "length demo_closing = 401" by (simp add: demo_closing_def data_packet_def length_demo_batch)
  then have t: "take 2048 demo_closing = demo_closing" by simp
  have bits: "bit (0xC0 :: byte) 6" "bit (0xC0 :: byte) 7" by simp_all
  have v: "wf_variant \<lparr>kind = KindDataMerkle, proofSize = 2, resigned = False\<rparr>"
    "IsData \<lparr>kind = KindDataMerkle, proofSize = 2, resigned = False\<rparr>"
    by (simp_all add: wf_variant_def IsData_def)
  obtain d where d: "ParseKind (take 2048 demo_closing) = Inr (DataKind d)" "ds_Slot d = 7" "ds_LastInSlot d"
    unfolding t unfolding demo_closing_def
    using parse_data_packet [OF _ v, of "replicate 64 0" 0 0 "enc_batch demo_batch" 7 1 1 "0xC0" "[]"] bits
    by (simp add: length_demo_batch)
  have "DecodeBatch (drop 88 demo_closing) = Inr [demo_tx]"
    using DecodeBatch_enc [OF wf_demo_batch, of "[]"] by (simp add: demo_closing_def data_packet_def demo_batch_def)
  with closing_packet_discarded [OF demo_env_fair l(2) _ d] l show ?thesis by (auto simp: at_batch_start_def)
qed

end
