(* ===== verification/Listener_Term.thy ===== *)
theory Listener_Term
  imports Listener_Inv
begin

text \<open>
  Termination of the listener's operations: with slots in which no batch can end at the largest
  index, every packet with smaller indices is handled in finitely many steps, eviction and
  harvest included. The accumulator's contribution is in \<open>Accumulator_Term\<close>.
\<close>

section \<open>Eviction returns\<close>

definition calm :: "Listener \<Rightarrow> bool" where
  "calm l \<longleftrightarrow> (\<forall>x \<in> set (slots l). no_max (snd x) \<and> length (pending (snd x)) + 65536 < 4294967296)"

lemma calm_cong: "set (slots l') \<subseteq> set (slots l) \<Longrightarrow> calm l \<Longrightarrow> calm l'"
  by (auto simp: calm_def)

lemma calm_simps [simp]:
  "calm (bump f l) = calm l" "calm (l_pool_release h l) = calm l" "calm (l\<lparr>lastSlot := n\<rparr>) = calm l"
  "calm (l\<lparr>l_world := w\<rparr>) = calm l" "calm (l\<lparr>recentlySeenSlots := rs\<rparr>) = calm l"
  by (simp_all add: calm_def bump_def l_pool_release_def)

lemma slot_good:
  assumes "buffers_ok H l" and "map_of (slots l) s = Some a"
  shows "\<exists>K. good K a (l_world l)"
proof -
  have "acc_ok a" using assms map_of_SomeD [OF assms(2)] by (fastforce simp: buffers_ok_def)
  moreover have "slots_held l = held (pending a) + (\<Sum>x\<in>#mset (AList.delete s (slots l)). held (pending (snd x)))"
    using ac.claims_remove [OF _ assms(2)] assms(1) by (simp add: slots_held_def buffers_ok_def)
  ultimately show ?thesis using assms(1) by (auto simp: good_iff buffers_ok_def add.assoc)
qed

lemma evictSlot_returns:
  assumes "buffers_ok H l" and "calm l"
  shows "\<exists>l'. evictSlot env s l = Some l' \<and> calm l'"
proof (cases "map_of (slots l) s")
  case None
  then show ?thesis using assms by (simp add: evictSlot_def)
next
  case (Some a)
  obtain K where g: "good K a (l_world l)" using slot_good [OF assms(1) Some] by blast
  have "no_max a" using assms(2) map_of_SomeD [OF Some] by (auto simp: calm_def)
  from tryHarvestTail_returns [OF g this, of env] obtain b v out where
    h: "tryHarvestTail env a (l_world l) = Some (b, v, out)" by auto
  have "evictSlot env s l \<noteq> None" using Some h by (simp add: evictSlot_def Let_def split: prod.split)
  then obtain l' where e: "evictSlot env s l = Some l'" by blast
  then have "slots l' = AList.delete s (slots l)" using evictSlot_cases [OF e Some] by metis
  then have "calm l'" using calm_cong [OF _ assms(2)] set_alist_delete by metis
  then show ?thesis using e by blast
qed

lemma evictAll_returns:
  "fair_env env \<Longrightarrow> buffers_ok H l \<Longrightarrow> slots_ok l \<Longrightarrow> calm l \<Longrightarrow> \<exists>l'. evictAll env ss l = Some l' \<and> calm l'"
proof (induction ss arbitrary: l)
  case (Cons s ss)
  obtain l1 where l1: "evictSlot env s l = Some l1" "calm l1" using evictSlot_returns Cons.prems by blast
  from evictSlot_ok [OF Cons.prems(1-3) l1(1)] Cons.IH [OF Cons.prems(1) _ _ l1(2)] l1(1) show ?case by auto
qed simp

lemma evictOldSlots_returns:
  assumes "fair_env env" and "buffers_ok H l" and "slots_ok l" and "calm l"
  shows "\<exists>l'. evictOldSlots env l = Some l' \<and> calm l'"
proof -
  obtain ks w where o: "order64 env (map fst (slots l)) (l_world l) = (ks, w)" by fastforce
  let ?l = "l\<lparr>l_world := w\<rparr>"
  have "buffers_ok H ?l" using assms(2) o buffers_ok_cong [of ?l l H] by (auto simp: order64_def)
  moreover have "slots_ok ?l" using assms(3) slots_ok_cong [of ?l l] by simp
  ultimately obtain l1 where "evictAll env (filter (expired ?l) ks) ?l = Some l1" "calm l1"
    using evictAll_returns [OF assms(1)] assms(4) by fastforce
  then show ?thesis using o by (simp add: evictOldSlots_def Let_def)
qed

lemma forceEvict_returns:
  "buffers_ok H l \<Longrightarrow> calm l \<Longrightarrow> \<exists>l'. forceEvictOldestSlot env l = Some l' \<and> calm l'"
  using evictSlot_returns by (auto simp: forceEvictOldestSlot_def split: option.split)

lemma l_acquire_calm: "l_acquire l = Some (h, l') \<Longrightarrow> calm l' = calm l"
  by (auto simp: l_acquire_def)

lemma acquireBuffer_returns:
  assumes "fair_env env" and "buffers_ok H l" and "slots_ok l" and "calm l"
  shows "\<exists>ho l'. acquireBufferWithFallback env l = Some (ho, l') \<and> calm l'"
proof -
  obtain l1 where l1: "evictOldSlots env l = Some l1" "calm l1" using evictOldSlots_returns [OF assms] by blast
  have "buffers_ok H l1" using evictOldSlots_ok [OF assms(1-3) l1(1)] by simp
  then obtain l2 where "forceEvictOldestSlot env l1 = Some l2" "calm l2" using forceEvict_returns l1(2) by blast
  then show ?thesis
    using l1 assms(4) by (auto simp: acquireBufferWithFallback_def l_acquire_calm split: option.split)
qed

lemma noteSlot_returns:
  assumes "fair_env env" and "buffers_ok H l" and "slots_ok l" and "calm l" and "slot \<le> maxPlausibleSlot"
  shows "\<exists>l'. noteSlot env slot l = Some l' \<and> calm l'"
proof (cases "slot > lastSlot l")
  case True
  let ?l = "l\<lparr>lastSlot := slot\<rparr>"
  have "buffers_ok H ?l" using assms(2) buffers_ok_cong [of ?l l H] by simp
  moreover have "slots_ok ?l" using assms(3,5) True by (auto simp: slots_ok_def)
  ultimately show ?thesis using evictOldSlots_returns [OF assms(1)] assms(4) True by (simp add: noteSlot_def)
qed (use assms(4) in \<open>simp add: noteSlot_def\<close>)

section \<open>Packets are handled\<close>

text \<open>What is kept: no live slot has a batch end at the largest index.\<close>

definition no_max_slots :: "Listener \<Rightarrow> bool" where
  "no_max_slots l \<longleftrightarrow> (\<forall>x \<in> set (slots l). no_max (snd x))"

lemma calm_no_max: "calm l \<Longrightarrow> no_max_slots l"
  by (simp add: calm_def no_max_slots_def)

lemma no_max_slots_simps [simp]:
  "no_max_slots (bump f l) = no_max_slots l" "no_max_slots (l_pool_release h l) = no_max_slots l"
  by (simp_all add: no_max_slots_def bump_def l_pool_release_def)

lemma no_max_slots_put: "no_max_slots l \<Longrightarrow> no_max b \<Longrightarrow> no_max_slots (putSlot slot b w l)"
proof -
  have "x \<in> set (AList.update slot b xs) \<Longrightarrow> x = (slot, b) \<or> x \<in> set xs" for x xs
    by (induction xs) (auto split: if_splits)
  then show "no_max_slots l \<Longrightarrow> no_max b \<Longrightarrow> no_max_slots (putSlot slot b w l)"
    by (fastforce simp: no_max_slots_def putSlot_def)
qed

lemma packet_result_triple [simp]: "\<exists>a b c. (r :: packet_result) = (a, b, c)"
  by (metis prod_cases3)

lemma slotAcc_calm:
  assumes "calm l"
  shows "no_max (slotAcc slot l)" "length (pending (slotAcc slot l)) + 65536 < 4294967296"
proof -
  have "no_max (slotAcc slot l) \<and> length (pending (slotAcc slot l)) + 65536 < 4294967296"
  proof (cases "map_of (slots l) slot")
    case (Some a)
    then show ?thesis using assms map_of_SomeD [OF Some] by (auto simp: calm_def slotAcc_def)
  qed (simp add: slotAcc_def newSlotAccumulator_def no_max_def)
  then show "no_max (slotAcc slot l)" "length (pending (slotAcc slot l)) + 65536 < 4294967296" by simp_all
qed

lemma handleData_returns:
  assumes "fair_env env" and "buffers_ok K l" and "slots_ok l" and "calm l" and "ds_Index d \<noteq> 0xFFFFFFFF"
  shows "\<exists>r l'. handleData env h d l = Some (r, l') \<and> no_max_slots l'"
proof -
  let ?slot = "ds_Slot d"
  obtain acc l0 where acc: "acceptSlot ?slot l = (acc, l0)" by fastforce
  note a = acceptSlot_cases [OF acc]
  show ?thesis
  proof (cases "acc \<and> ?slot \<notin> set (recentlySeenSlots l)")
    case False
    then show ?thesis using acc a(1) calm_no_max [OF assms(4)] by (cases acc) (auto simp: handleData_def Let_def)
  next
    case True
    let ?l = "bump (dataShredCount_update (\<lambda>n. n + 1)) l"
    obtain l1 where l1: "noteSlot env ?slot ?l = Some l1" "calm l1"
      using noteSlot_returns [OF assms(1), of K ?l ?slot] assms(2-4) a(2) True by auto
    from pushData_terminates [OF slotAcc_calm(1) [OF l1(2)] assms(5) slotAcc_calm(2) [OF l1(2)]]
    obtain b v out where "pushData env (ds_Index d) (ds_FecSetIndex d) (Some h)
        (of_nat (DataHeaderSize + length (ds_Payload d))) (ds_BatchComplete d) (ds_LastInSlot d)
        (slotAcc ?slot l1) (l_world l1) = Some (b, v, out)" "no_max b" by metis
    then show ?thesis
      using acc a(1) True l1 no_max_slots_put [OF calm_no_max [OF l1(2)]] by (simp add: handleData_def Let_def)
  qed
qed

lemma handleCode_returns:
  assumes "fair_env env" and "buffers_ok K l" and "slots_ok l" and "calm l"
    and "unat (cs_FecSetIndex c) + 65535 < 4294967296"
  shows "\<exists>r l'. handleCode env h c l = Some (r, l') \<and> no_max_slots l'"
proof -
  let ?slot = "cs_Slot c"
  obtain acc l0 where acc: "acceptSlot ?slot l = (acc, l0)" by fastforce
  note a = acceptSlot_cases [OF acc]
  show ?thesis
  proof (cases "acc \<and> ?slot \<notin> set (recentlySeenSlots l) \<and> enableFEC l")
    case False
    then show ?thesis using acc a(1) calm_no_max [OF assms(4)] by (cases acc) (auto simp: handleCode_def Let_def)
  next
    case True
    let ?l = "bump (codeShredCount_update (\<lambda>n. n + 1)) l"
    obtain l1 where l1: "noteSlot env ?slot ?l = Some l1" "calm l1"
      using noteSlot_returns [OF assms(1), of K ?l ?slot] assms(2-4) a(2) True by auto
    from pushCode_terminates [OF slotAcc_calm(1) [OF l1(2)] assms(5) slotAcc_calm(2) [OF l1(2)]]
    obtain b v out where "pushCode env (cs_FecSetIndex c) (cs_NumDataShreds c) (cs_NumCodingShreds c)
        (cs_Position c) (cs_Coded c) (cs_Variant c) (slotAcc ?slot l1) (l_world l1) = Some (b, v, out)" "no_max b"
      by metis
    then show ?thesis
      using acc a(1) True l1 no_max_slots_put [OF calm_no_max [OF l1(2)]] by (simp add: handleCode_def Let_def)
  qed
qed

text \<open>The packets that cannot put a batch end at the largest index.\<close>

definition tame_packet :: "byte list \<Rightarrow> bool" where
  "tame_packet raw \<longleftrightarrow>
     (case ParseKind raw of
        Inl e \<Rightarrow> True
      | Inr (DataKind d) \<Rightarrow> ds_Index d \<noteq> 0xFFFFFFFF
      | Inr (CodeKind c) \<Rightarrow> unat (cs_FecSetIndex c) + 65535 < 4294967296)"

lemma handlePacketOwned_returns:
  assumes "fair_env env" and "buffers_ok K l" and "slots_ok l" and "calm l"
    and "tame_packet (Bytes (w_pool (l_world l)) (Some h))"
  shows "\<exists>r l'. handlePacketOwned env h l = Some (r, l') \<and> no_max_slots l'"
proof (cases "ParseKind (Bytes (w_pool (l_world l)) (Some h))")
  case (Inl err)
  have "no_max_slots (bumpParseError (newParseError err) (bump f l))" for f using calm_no_max [OF assms(4)] by (cases err) simp_all
  then show ?thesis using Inl by (simp add: handlePacketOwned_def Let_def)
next
  case (Inr kd)
  let ?l = "bump (bytesReceived_update (\<lambda>n. n + of_nat (Len (Some h)))) l"
  have "\<exists>r l'. handlePacketParsed env h kd ?l = Some (r, l') \<and> no_max_slots l'"
  proof (cases kd)
    case (DataKind d)
    then show ?thesis using handleData_returns [OF assms(1), of K ?l d h] assms Inr by (simp add: tame_packet_def)
  next
    case (CodeKind c)
    then show ?thesis using handleCode_returns [OF assms(1), of K ?l c h] assms Inr by (simp add: tame_packet_def)
  qed
  then show ?thesis using Inr by (simp add: handlePacketOwned_def Let_def)
qed

lemma fillBuffer_calm: "fillBuffer h raw l = (h', l') \<Longrightarrow> calm l' = calm l"
  by (auto simp: fillBuffer_def Let_def)

lemma recvEnd_returns:
  assumes "fair_env env" and "buffers_ok (add_mset (h_idx h) H) l" and "attached h" and "slots_ok l" and "calm l"
    and "\<forall>raw. io = Datagram raw \<longrightarrow> tame_packet (take BufferSize raw)"
  shows "\<exists>r e l'. recvEnd env h io l = Some (r, e, l') \<and> no_max_slots l'"
proof (cases io)
  case (IoError e)
  then show ?thesis using calm_no_max [OF assms(5)] by (simp add: recvEnd_def)
next
  case (Datagram raw)
  obtain h2 l2 where f: "fillBuffer h raw l = (h2, l2)" by fastforce
  note fo = fillBuffer_ok [OF assms(2,3) f]
  have "slots_ok l2" using assms(4) fo slots_ok_cong [of l2 l] by simp
  then have "\<exists>r l'. handlePacketOwned env h2 l2 = Some (r, l') \<and> no_max_slots l'"
    using handlePacketOwned_returns [OF assms(1) fo(1)] assms(5,6) fo(4) fillBuffer_calm [OF f] Datagram by simp
  then show ?thesis using Datagram f by (auto simp: recvEnd_def)
qed

lemma HandlePacket_returns:
  assumes "fair_env env" and "buffers_ok H l" and "slots_ok l" and "calm l" and "tame_packet (take BufferSize raw)"
  shows "\<exists>r l'. HandlePacket env raw l = Some (r, l') \<and> no_max_slots l'"
proof -
  obtain ho l1 where a: "acquireBufferWithFallback env l = Some (ho, l1)" "calm l1"
    using acquireBuffer_returns [OF assms(1-4)] by blast
  note ok = acquireBuffer_ok [OF assms(1-3) a(1)]
  show ?thesis
  proof (cases ho)
    case None
    then show ?thesis using a calm_no_max by (simp add: HandlePacket_def handlePacketLocked_def)
  next
    case (Some h)
    have b: "buffers_ok (add_mset (h_idx h) H) l1" "attached h" "slots_ok l1" using ok Some by simp_all
    from recvEnd_returns [OF assms(1) b a(2), of "Datagram raw"] assms(5)
    show ?thesis
      using a Some by (auto simp: HandlePacket_def handlePacketLocked_def recvEnd_def split: prod.splits)
  qed
qed

text \<open>
  Property C8. The listener's calls return. If no live slot has a batch end at the largest 32-bit index, no
  FEC set reaches it and no pending map fills the index space, then handing in any packet whose
  shred stays below that index returns, whatever the packet, the clock and the map orders are and however
  many slots are evicted and harvested on the way, and still no slot has a batch end at the largest
  index. The same holds for starting a read and for finishing it with a datagram or an error.\<close>

theorem listener_calls_return:
  assumes "fair_env env" and "reachable env opts (l, hs)"
    and "\<forall>x \<in> set (slots l). no_max (snd x) \<and> length (pending (snd x)) + 65536 < 2 ^ 32"
    and "tame_packet (take 2048 raw)"
  shows "(\<exists>r l'. HandlePacket env raw l = Some (r, l') \<and> (\<forall>x \<in> set (slots l'). no_max (snd x))) \<and>
    (\<exists>st l'. recvBegin env l = Some (st, l') \<and> (\<forall>x \<in> set (slots l'). no_max (snd x))) \<and>
    (\<forall>h \<in> set hs. \<forall>io. io = Datagram raw \<or> (\<exists>e. io = IoError e) \<longrightarrow>
      (\<exists>r e l'. recvEnd env h io l = Some (r, e, l') \<and> (\<forall>x \<in> set (slots l'). no_max (snd x))))"
proof -
  have ok: "buffers_ok (mset (map h_idx hs)) l" "slots_ok l" "\<forall>h \<in> set hs. attached h"
    using reachable_ok [OF assms(2,1)] by (simp_all add: system_ok_def)
  have c: "calm l" using assms(3) by (simp add: calm_def)
  have t: "tame_packet (take BufferSize raw)" using assms(4) by (simp add: BufferSize_def)
  have "\<exists>st l'. recvBegin env l = Some (st, l') \<and> no_max_slots l'"
  proof (cases "pendingBatches l = [] \<and> hasSocket l")
    case True
    then show ?thesis
      using acquireBuffer_returns [OF assms(1) ok(1,2) c] calm_no_max by (auto simp: recvBegin_def)
  next
    case False
    then show ?thesis
      using calm_no_max [OF c] by (cases "pendingBatches l") (auto simp: recvBegin_def no_max_slots_def)
  qed
  moreover have "\<exists>r e l'. recvEnd env h io l = Some (r, e, l') \<and> no_max_slots l'"
    if h: "h \<in> set hs" and io: "io = Datagram raw \<or> (\<exists>e. io = IoError e)" for h io
    using recvEnd_returns [OF assms(1), of h "mset (map h_idx (remove1 h hs))" l io] ok c t io h
      mset_remove_handle [OF h] by auto
  ultimately show ?thesis
    using HandlePacket_returns [OF assms(1) ok(1,2) c t] unfolding no_max_slots_def by blast
qed

theorem listener_calls_return_witness:
  "\<exists>l r l'. reachable demo_env demo_options (l, []) \<and> HandlePacket demo_env [] l = Some (r, l')"
proof -
  obtain l where l: "FromConn demo_options = Some l" "slots l = []" by (rule demo_listener)
  have r: "reachable demo_env demo_options (l, [])" by (rule reachable.connected [OF l(1)])
  have "tame_packet (take 2048 [])" by code_simp
  from listener_calls_return [OF demo_env_fair r _ this] l(2) r show ?thesis by auto
qed

end
