(* ===== verification/Fec_Delivery.thy ===== *)
theory Fec_Delivery
  imports Accumulator_Fec
begin

text \<open>
  Delivery in spite of losses: the coding shred that makes a FEC set recoverable restores the lost
  data shreds and delivers the batch they belong to. The proof composes the fill of
  \<open>Accumulator_Fec\<close> with the flush of \<open>Accumulator_Delivery\<close>.
\<close>

section \<open>What a fill leaves alone\<close>

lemma recover_step_frame:
  "recover_step env s r (a, w, any0) = (b, v, any1) \<Longrightarrow>
   w_pool v = w_pool w \<and> streamingCursor b = streamingCursor a \<and> yieldedSigs b = yieldedSigs a"
  by (auto simp: recover_step_def Let_def time_now_def split: if_splits sum.splits ShredKind.splits)

lemma recover_fold_frame:
  "fold (recover_step env s) rs (a, w, any0) = (b, v, any1) \<Longrightarrow>
   w_pool v = w_pool w \<and> streamingCursor b = streamingCursor a \<and> yieldedSigs b = yieldedSigs a"
proof (induction rs arbitrary: a w any0)
  case (Cons r rs)
  obtain a1 w1 any2 where r: "recover_step env s r (a, w, any0) = (a1, w1, any2)" by (metis prod_cases3)
  from recover_step_frame [OF r] Cons.IH [of a1 w1 any2] Cons.prems r show ?case by simp
qed simp

lemma tryFecFill_frame:
  "tryFecFill env hint a w = (filled, b, v) \<Longrightarrow>
   w_pool v = w_pool w \<and> streamingCursor b = streamingCursor a \<and> yieldedSigs b = yieldedSigs a \<and>
   batchStart b = batchStart a"
  using fill_batchStart [of env hint a w filled b v]
  by (auto simp: tryFecFill_def Let_def dest!: recover_fold_frame
      split: option.splits if_splits prod.splits sum.splits)

section \<open>The first batch end\<close>

lemma smallest_fold:
  fixes xs :: "(u32 \<times> int) list" and start :: u32
  defines "f \<equiv> \<lambda>(idx, t) m. if idx < start then m else case m of None \<Rightarrow> Some (idx, t)
      | Some (minIdx, minTime) \<Rightarrow> if idx < minIdx then Some (idx, t) else m"
  assumes "\<forall>(k, u) \<in> set xs. start \<le> k \<longrightarrow> e \<le> k" and "(e, t) \<in> set xs" and "distinct (map fst xs)" and "start \<le> e"
    and "m = None \<or> (\<exists>k u. m = Some (k, u) \<and> e < k)"
  shows "fold f xs m = Some (e, t)"
proof -
  have stay: "fold f ys (Some (e, t)) = Some (e, t)" if "\<forall>(k, u) \<in> set ys. start \<le> k \<longrightarrow> e \<le> k" for ys
    using that by (induction ys) (auto simp: f_def not_less)
  show ?thesis using assms(2-)
  proof (induction xs arbitrary: m)
    case (Cons x xs)
    obtain k u where x: "x = (k, u)" by fastforce
    show ?case
    proof (cases "k = e")
      case True
      then have "u = t" using Cons.prems(2,3) x by (auto simp: image_iff)
      then have "f x m = Some (e, t)" using True x Cons.prems(4,5) by (auto simp: f_def)
      then show ?thesis using stay [of xs] Cons.prems(1) by simp
    next
      case False
      then have "start \<le> k \<Longrightarrow> e < k" using Cons.prems(1) x by (auto simp: order.strict_iff_order)
      then have "f x m = None \<or> (\<exists>k u. f x m = Some (k, u) \<and> e < k)"
        using Cons.prems(5) x by (auto simp: f_def not_less split: if_splits)
      then show ?thesis using Cons.IH [of "f x m"] Cons.prems False x by auto
    qed
  qed simp
qed

lemma smallest_is:
  assumes "distinct (map fst (batchCompleteIdx a))" and "map_of (batchCompleteIdx a) e = Some t" and "start \<le> e"
    and "\<And>k. map_of (batchCompleteIdx a) k \<noteq> None \<Longrightarrow> start \<le> k \<Longrightarrow> e \<le> k"
  shows "smallestBatchCompleteIdxFrom start a = Some (e, t)"
proof -
  have "\<forall>(k, u) \<in> set (batchCompleteIdx a). start \<le> k \<longrightarrow> e \<le> k"
    using assms(4) by (fastforce simp: map_of_eq_None_iff image_iff)
  from smallest_fold [OF this map_of_SomeD [OF assms(2)] assms(1,3)] show ?thesis
    by (simp add: smallestBatchCompleteIdxFrom_def)
qed

section \<open>The shreds of a set\<close>

lemma unat_u32: "n < 4294967296 \<Longrightarrow> unat (of_nat n :: u32) = n"
  by (simp add: unat_of_nat)

lemma set_index:
  assumes "unat (s :: u32) + unat (nd :: u16) < 4294967296" and "k < unat nd"
  shows "s + ucast (of_nat k :: u16) = of_nat (unat s + k)" "unat (of_nat k :: u16) = k" "(of_nat k :: u16) < nd"
proof -
  have "k < 65536" using assms(2) unsigned_less [where ?w = nd and ?'a = nat] by simp
  then show k: "unat (of_nat k :: u16) = k" by (simp add: unat_of_nat)
  then have "(ucast (of_nat k :: u16) :: u32) = of_nat k"
    using assms by (simp add: word_unat_eq_iff unat_of_nat)
  then show "s + ucast (of_nat k :: u16) = of_nat (unat s + k)" by simp
  show "(of_nat k :: u16) < nd" using assms(2) k by (simp add: word_less_nat_alt)
qed

text \<open>
  A packet carries one piece of a batch, the last one with the batch-complete flag. It does not close the slot:
  a fill skips a recovered packet that does.
\<close>

definition carries_piece :: "byte list \<Rightarrow> byte list \<Rightarrow> bool \<Rightarrow> bool" where
  "carries_piece raw c isEnd \<longleftrightarrow>
     (\<exists>d. ParseKind raw = Inr (DataKind d) \<and> \<not> ds_LastInSlot d \<and> ds_Payload d = c \<and> ds_BatchComplete d = isEnd)"

definition holds_piece :: "bufferPool \<Rightarrow> pendingShred \<Rightarrow> byte list \<Rightarrow> bool \<Rightarrow> bool" where
  "holds_piece p ps c isEnd \<longleftrightarrow> pd_payload p ps = Some c \<and> batchComplete ps = isEnd"

lemma recovered_holds:
  assumes "carries_piece (dr_raw r) c isEnd"
  shows "holds_piece p (recovered_shred s r) c isEnd" "usable r"
proof -
  obtain d where d: "ParseKind (dr_raw r) = Inr (DataKind d)" "\<not> ds_LastInSlot d" "ds_Payload d = c"
    "ds_BatchComplete d = isEnd"
    using assms by (auto simp: carries_piece_def)
  then show "usable r" by (auto simp: usable_iff)
  have ok: "data_shred_ok (dr_raw r) d" using parsed_ok [OF d(1)] by simp
  define n where "n = 88 + length c"
  have "unat (of_nat n :: u16) = n" using ok d(3) by (simp add: data_shred_ok_def n_def [symmetric] unat_of_nat)
  then have "unat (of_nat (88 + length c) :: u16) = 88 + length c" by (simp only: n_def)
  then show "holds_piece p (recovered_shred s r) c isEnd"
    using ok d by (simp add: holds_piece_def recovered_shred_def pd_payload_def Let_def data_shred_ok_def
        DataHeaderSize_def)
qed

text \<open>All pieces of a set are pending, from \<open>s\<close> on.\<close>

definition all_pieces :: "bufferPool \<Rightarrow> u32 \<Rightarrow> byte list list \<Rightarrow> slotAccumulator \<Rightarrow> bool" where
  "all_pieces p s cs a \<longleftrightarrow>
     (\<forall>k < length cs. \<exists>ps. map_of (pending a) (of_nat (unat s + k)) = Some ps \<and>
        holds_piece p ps (cs ! k) (Suc k = length cs))"

lemma all_pieces_batch:
  assumes "all_pieces p s cs a" and "acc_ok a" and "batchStart a = s" and "cs \<noteq> []" and "unat s + length cs < 4294967296"
  shows "\<exists>t. smallestBatchCompleteIdxFrom s a = Some (of_nat (unat s + length cs - 1), t)"
    and "\<forall>i \<in> set (range32 s (of_nat (unat s + length cs - 1))). map_of (pending a) i \<noteq> None"
    and "gathered p (pending a) (range32 s (of_nat (unat s + length cs - 1))) = concat cs"
proof -
  obtain n where n: "length cs = Suc n" using assms(4) by (cases cs) simp_all
  let ?e = "of_nat (unat s + length cs - 1) :: u32"
  have e: "unat ?e = unat s + n" using assms(5) n by (subst unat_u32) simp_all
  have range: "range32 s ?e = map (\<lambda>k. of_nat (unat s + k)) [0..<length cs]"
  proof -
    have "[unat s..<Suc (unat s + n)] = map (\<lambda>k. unat s + k) [0..<Suc n]" by (rule nth_equalityI) (auto simp del: upt_Suc)
    then show ?thesis unfolding range32_def e unfolding n by (simp del: upt_Suc)
  qed
  show "\<forall>i \<in> set (range32 s ?e). map_of (pending a) i \<noteq> None"
    using assms(1) unfolding range all_pieces_def by fastforce
  have "map (\<lambda>i. case map_of (pending a) i of None \<Rightarrow> [] | Some ps \<Rightarrow> payload_or_empty p ps) (range32 s ?e) = cs"
  proof (rule nth_equalityI)
    fix k
    assume "k < length (map (\<lambda>i. case map_of (pending a) i of None \<Rightarrow> [] | Some ps \<Rightarrow> payload_or_empty p ps) (range32 s ?e))"
    then have k: "k < length cs" unfolding range by simp
    then obtain ps where "map_of (pending a) (of_nat (unat s + k)) = Some ps" "pd_payload p ps = Some (cs ! k)"
      using assms(1) by (auto simp: all_pieces_def holds_piece_def)
    then show "map (\<lambda>i. case map_of (pending a) i of None \<Rightarrow> [] | Some ps \<Rightarrow> payload_or_empty p ps) (range32 s ?e) ! k = cs ! k"
      using k unfolding range by (simp add: payload_or_empty_def)
  qed (simp only: range length_map length_upt diff_zero)
  then show "gathered p (pending a) (range32 s ?e) = concat cs" by (simp add: gathered_def)
  have acc: "distinct (map fst (batchCompleteIdx a))"
    "\<And>k. map_of (batchCompleteIdx a) k \<noteq> None \<longleftrightarrow> (\<exists>ps. map_of (pending a) k = Some ps \<and> batchComplete ps)"
    using assms(2) by (auto simp: acc_ok_def)
  have "map_of (batchCompleteIdx a) ?e \<noteq> None"
    using assms(1) n unfolding acc(2) by (auto simp: all_pieces_def holds_piece_def)
  then obtain t where t: "map_of (batchCompleteIdx a) ?e = Some t" by blast
  have least: "?e \<le> k" if "map_of (batchCompleteIdx a) k \<noteq> None" "s \<le> k" for k
  proof (rule ccontr)
    assume "\<not> ?e \<le> k"
    then have "unat k < unat s + n" using e by (simp add: word_le_nat_alt)
    moreover have "unat s \<le> unat k" using that(2) by (simp add: word_le_nat_alt)
    ultimately have j: "unat k - unat s < n" "of_nat (unat s + (unat k - unat s)) = k" by simp_all
    then obtain ps where "map_of (pending a) (of_nat (unat s + (unat k - unat s))) = Some ps" "\<not> batchComplete ps"
      using assms(1) [unfolded all_pieces_def, rule_format, of "unat k - unat s"] n
      by (auto simp: holds_piece_def)
    then have "\<exists>ps. map_of (pending a) k = Some ps \<and> \<not> batchComplete ps" unfolding j(2) by blast
    then show False using that(1) acc(2) by auto
  qed
  have "s \<le> ?e" using e by (simp add: word_le_nat_alt)
  from smallest_is [OF acc(1) t this least] show "\<exists>t. smallestBatchCompleteIdxFrom s a = Some (?e, t)" by blast
qed

section \<open>Recovery and delivery\<close>

lemma advance_stops_at_recovered:
  assumes "map_of (pending a) (streamingCursor a) = Some ps" and "source ps = RecoveredPayload raw"
  shows "advanceStreaming env a w out = Some (a, w, out)"
  unfolding advanceStreaming_def by (subst go_loop.simps) (simp add: advanceRound_def assms)

lemma pushCode_known:
  assumes "map_of (fecSets a) s \<noteq> None \<or> int (length (fecSets a)) < MaxFECSetsPerSlot (cfg a)"
    and "f = recordCode position numData numCoding coded variant
      (case map_of (fecSets a) s of None \<Rightarrow> newFecSetBuffer s | Some f \<Rightarrow> f)"
  shows "pushCode env s numData numCoding position coded variant a w =
    (case tryFecFill env s (a\<lparr>fecSets := AList.update s f (fecSets a)\<rparr>) w of
       (filled, a, w) \<Rightarrow>
         Option.bind (if filled then advanceStreaming env a w [] else Some (a, w, []))
           (\<lambda>(a, w, out). tryFlushBatches env a w out))"
  using assms by (auto simp: pushCode_def Let_def)

text \<open>
  The state in which a coding shred helps: \<open>f\<close> is its set after it is recorded, \<open>cw\<close> the codeword
  whose data shards carry the pieces \<open>cs\<close> of a batch, and what is pending of the set agrees with it.
\<close>

definition recoverable_batch :: "u32 \<Rightarrow> fecSetBuffer \<Rightarrow> byte list list \<Rightarrow> byte list list \<Rightarrow> slotAccumulator \<Rightarrow> world \<Rightarrow> bool" where
  "recoverable_batch s f cw cs a w \<longleftrightarrow>
     batchStart a = s \<and> unat s + unat (fb_numData f) < 4294967296 \<and>
     (\<exists>rs. newReedSolomon (int (unat (fb_numData f))) (int (unat (fb_numCoding f))) = Inr rs \<and>
        codeword rs (nat (fb_shardSize f)) cw) \<and>
     0 < fb_shardSize f \<and> fb_hasVariant f \<and> kind (fb_variant f) = KindCodeMerkle \<and>
     distinct (map fst (fb_code f)) \<and> authentic_code f cw \<and>
     authentic_data f cw (fec_refs (w_pool w) a s (fb_numData f)) \<and>
     canRecoverWith f (dataCountFor a s f) \<and> length cs = unat (fb_numData f) \<and>
     (\<forall>k < length cs. carries_piece (recovered_raw (nat (fb_shardSize f)) (cw ! k)) (cs ! k) (Suc k = length cs)) \<and>
     (\<forall>k < length cs. \<forall>ps. map_of (pending a) (of_nat (unat s + k)) = Some ps \<longrightarrow>
        holds_piece (w_pool w) ps (cs ! k) (Suc k = length cs))"

text \<open>The world matters only through the bytes of the pending shreds.\<close>

lemma recoverable_batch_cong:
  assumes same: "\<And>k ps. (k, ps) \<in> set (pending a) \<Longrightarrow> src_slice (w_pool v) (source ps) = src_slice (w_pool w) (source ps)"
    and r: "recoverable_batch s f cw cs a w"
  shows "recoverable_batch s f cw cs a v"
proof -
  have refs: "fec_refs (w_pool v) a s (fb_numData f) = fec_refs (w_pool w) a s (fb_numData f)"
    unfolding fec_refs_def by (rule map_cong) (auto dest: same)
  have "holds_piece (w_pool v) ps c e = holds_piece (w_pool w) ps c e" if "map_of (pending a) k = Some ps" for k ps c e
    using same [OF map_of_SomeD [OF that]] by (simp add: holds_piece_def pd_payload_def)
  then show ?thesis using r unfolding recoverable_batch_def refs by blast
qed

lemma recoverable_filled:
  assumes "good H a w" and "recoverable_batch s f cw cs a w" and "k0 < length cs"
    and "map_of (pending a) (of_nat (unat s + k0)) = None"
  defines "a1 \<equiv> a\<lparr>fecSets := AList.update s f (fecSets a)\<rparr>"
  shows "\<exists>b v. tryFecFill env s a1 w = (True, b, v) \<and> good H b v \<and> all_pieces (w_pool v) s cs b \<and>
    (\<exists>ps raw. map_of (pending b) (of_nat (unat s + k0)) = Some ps \<and> source ps = RecoveredPayload raw)"
proof -
  note R = assms(2) [unfolded recoverable_batch_def]
  obtain rs where rs: "newReedSolomon (int (unat (fb_numData f))) (int (unat (fb_numCoding f))) = Inr rs"
    "codeword rs (nat (fb_shardSize f)) cw" using R by blast
  have ok: "distinct (map fst (fecSets a1))" "pending a1 = pending a" "map_of (fecSets a1) s = Some f"
    "batchStart a1 \<le> s" "batchStart a1 = batchStart a" "batchCompleteIdx a1 = batchCompleteIdx a"
    using assms(1) R by (simp_all add: a1_def distinct_update update_conv' good_def acc_ok_def)
  have g1: "good H a1 w" by (rule good_fec_delete [OF assms(1)]) (use ok in simp_all)
  then have base: "acc_ok a1" "cache_ok (w_cache w)" by (simp_all add: good_def)
  have nd: "unat s + unat (fb_numData f) < 4294967296" "length cs = unat (fb_numData f)" using R by simp_all
  have idx: "s + ucast (of_nat k :: u16) = of_nat (unat s + k)" "unat (of_nat k :: u16) = k"
      "(of_nat k :: u16) < fb_numData f" if "k < length cs" for k
    using set_index [OF nd(1)] that nd(2) by simp_all
  have same: "fec_refs (w_pool w) a1 s (fb_numData f) = fec_refs (w_pool w) a s (fb_numData f)"
    "dataCountFor a1 s f = dataCountFor a s f"
    by (simp_all add: fec_refs_def dataCountFor_def ok(2) Let_def)
  have piece: "carries_piece (dr_raw (codeword_shred f cw (of_nat k))) (cs ! k) (Suc k = length cs)" if "k < length cs" for k
  proof -
    have "carries_piece (recovered_raw (nat (fb_shardSize f)) (cw ! k)) (cs ! k) (Suc k = length cs)"
      using R that by blast
    then show ?thesis by (simp add: idx(2) [OF that])
  qed
  have "usable (codeword_shred f cw pos)" if "pos < fb_numData f" for pos
    using recovered_holds(2) [OF piece, of "unat pos"] that nd(2) by (simp add: word_less_nat_alt)
  then have use: "\<forall>pos < fb_numData f. usable (codeword_shred f cw pos)" by blast
  have miss: "map_of (pending a1) (s + ucast (of_nat k0 :: u16)) = None" using assms(4) idx(1) [OF assms(3)] ok(2) by simp
  have codec: "0 < fb_shardSize f" "fb_hasVariant f" "kind (fb_variant f) = KindCodeMerkle" "authentic_code f cw"
    "authentic_data f cw (fec_refs (w_pool w) a1 s (fb_numData f))" "distinct (map fst (fb_code f))"
    "canRecoverWith f (dataCountFor a1 s f)"
    using R same by simp_all
  have bound: "unat s + unat (fb_numData f) < 2 ^ 32" using nd(1) by simp
  from fill_restores [OF base ok(3) bound ok(4) rs codec use idx(3) [OF assms(3)] miss, of env]
  obtain b v where fill: "tryFecFill env s a1 w = (True, b, v)"
    and new: "\<forall>pos < fb_numData f. map_of (pending b) (s + ucast pos) =
        (case map_of (pending a1) (s + ucast pos) of
           None \<Rightarrow> Some (recovered_shred s (codeword_shred f cw pos)) | x \<Rightarrow> x)"
    by (elim exE conjE) (rule that)
  have at: "map_of (pending b) (of_nat (unat s + k)) =
      (case map_of (pending a) (of_nat (unat s + k)) of
         None \<Rightarrow> Some (recovered_shred s (codeword_shred f cw (of_nat k))) | x \<Rightarrow> x)" if "k < length cs" for k
    using new [rule_format, OF idx(3) [OF that]] unfolding idx(1) [OF that] ok(2) .
  have pool: "w_pool v = w_pool w" using tryFecFill_frame [OF fill] by simp
  have "all_pieces (w_pool v) s cs b"
    unfolding all_pieces_def
  proof (intro allI impI)
    fix k
    assume k: "k < length cs"
    show "\<exists>ps. map_of (pending b) (of_nat (unat s + k)) = Some ps \<and> holds_piece (w_pool v) ps (cs ! k) (Suc k = length cs)"
    proof (cases "map_of (pending a) (of_nat (unat s + k))")
      case None
      then show ?thesis using at [OF k] recovered_holds(1) [OF piece [OF k]] by simp
    next
      case (Some ps)
      then have "holds_piece (w_pool w) ps (cs ! k) (Suc k = length cs)" using R k by blast
      then show ?thesis using at [OF k] Some pool by simp
    qed
  qed
  moreover have "\<exists>ps raw. map_of (pending b) (of_nat (unat s + k0)) = Some ps \<and> source ps = RecoveredPayload raw"
    using at [OF assms(3)] assms(4) by (simp add: recovered_shred_def Let_def)
  ultimately show ?thesis using fill tryFecFill_good [OF g1 fill] by blast
qed

text \<open>
  Pushing the coding shred with which the set becomes recoverable, while streaming waits at a lost
  shred, returns the transactions of the batch.
\<close>

lemma coded_shred_delivers:
  assumes "good H a w" and "no_max a"
    and "map_of (fecSets a) s \<noteq> None \<or> int (length (fecSets a)) < MaxFECSetsPerSlot (cfg a)"
    and "f = recordCode position numData numCoding coded variant
      (case map_of (fecSets a) s of None \<Rightarrow> newFecSetBuffer s | Some f \<Rightarrow> f)"
    and "recoverable_batch s f cw cs a w" and "wf_batch es" and "concat cs = enc_batch es @ padding"
    and "k < length cs" and "streamingCursor a = of_nat (unat s + k)" and "map_of (pending a) (streamingCursor a) = None"
  shows "\<exists>b v more. pushCode env s numData numCoding position coded variant a w =
      Some (b, v, fresh (yieldedSigs a) (batch_txs es) @ more) \<and> unat s + length cs \<le> unat (batchStart b)"
proof -
  let ?a1 = "a\<lparr>fecSets := AList.update s f (fecSets a)\<rparr>"
  have miss: "map_of (pending a) (of_nat (unat s + k)) = None" using assms(9,10) by simp
  from recoverable_filled [OF assms(1,5,8) miss, of env] obtain b v where fill: "tryFecFill env s ?a1 w = (True, b, v)"
    and g: "good H b v" and pieces: "all_pieces (w_pool v) s cs b"
    and wait: "\<exists>ps raw. map_of (pending b) (of_nat (unat s + k)) = Some ps \<and> source ps = RecoveredPayload raw"
    by blast
  note fr = tryFecFill_frame [OF fill]
  have s: "batchStart b = s" "unat s + length cs < 4294967296" "unat s + unat (fb_numData f) < 4294967296"
    using fr assms(5) by (simp_all add: recoverable_batch_def)
  have ne: "cs \<noteq> []" using assms(8) by auto
  have "no_max ?a1"
    using assms(2) s(3) set_alist_update [of s f "fecSets a"] by (auto simp: no_max_def)
  then have nm: "no_max b" using tryFecFill_no_max [OF _ fill] by simp
  have ok: "acc_ok b" using g by (simp add: good_def)
  obtain t where sm: "smallestBatchCompleteIdxFrom (batchStart b) b = Some (of_nat (unat s + length cs - 1), t)"
    using all_pieces_batch(1) [OF pieces ok s(1) ne s(2)] s(1) by auto
  have "gathered (w_pool v) (pending b) (range32 (batchStart b) (of_nat (unat s + length cs - 1))) = enc_batch es @ padding"
    using all_pieces_batch(3) [OF pieces ok s(1) ne s(2)] s(1) assms(7) by simp
  from flush_complete [OF nm sm _ assms(6) this, of env "[]"] all_pieces_batch(2) [OF pieces ok s(1) ne s(2)] s(1)
  obtain c u more where fl: "tryFlushBatches env b v [] = Some (c, u, fresh (yieldedSigs b) (batch_txs es) @ more)"
    and e: "of_nat (unat s + length cs - 1) < batchStart c" by auto
  have "advanceStreaming env b v [] = Some (b, v, [])"
    using wait fr assms(9) by (auto intro: advance_stops_at_recovered)
  then have "pushCode env s numData numCoding position coded variant a w =
      Some (c, u, fresh (yieldedSigs a) (batch_txs es) @ more)"
    unfolding pushCode_known [OF assms(3,4)] using fill fl fr by simp
  moreover have "unat s + length cs \<le> unat (batchStart c)"
  proof -
    have "unat (of_nat (unat s + length cs - 1) :: u32) = unat s + length cs - 1" using s(2) by (intro unat_u32) simp
    then show ?thesis using e ne by (simp add: word_less_nat_alt)
  qed
  ultimately show ?thesis by blast
qed

text \<open>A set of one data and one coding shred; only the coding shred arrives.\<close>

definition demo_shard :: "byte list" where
  "demo_shard = drop 64 (data_packet (replicate 64 0) \<lparr>kind = KindDataMerkle, proofSize = 0, resigned = False\<rparr>
     7 0 1 0 1 0x40 (enc_batch demo_batch) (replicate 770 0))"

abbreviation demo_code_variant :: VariantKind where
  "demo_code_variant \<equiv> \<lparr>kind = KindCodeMerkle, proofSize = 0, resigned = False\<rparr>"

lemma demo_shard_packet:
  "length demo_shard = 1107"
  "recovered_raw 1107 demo_shard = data_packet (replicate 64 0) \<lparr>kind = KindDataMerkle, proofSize = 0, resigned = False\<rparr>
     7 0 1 0 1 0x40 (enc_batch demo_batch) (replicate 802 0)"
proof -
  show "length demo_shard = 1107" by (simp add: demo_shard_def data_packet_def length_demo_batch)
  have "replicate 802 (0 :: byte) = replicate 770 0 @ replicate 32 0" by (simp add: replicate_add [symmetric])
  then show "recovered_raw 1107 demo_shard = data_packet (replicate 64 0) \<lparr>kind = KindDataMerkle, proofSize = 0, resigned = False\<rparr>
     7 0 1 0 1 0x40 (enc_batch demo_batch) (replicate 802 0)"
    by (simp add: recovered_raw_def demo_shard_def data_packet_def common_header_def SizeOfSignature_def
        DataShredPayloadLen_def)
qed

lemma demo_shard_piece: "carries_piece (recovered_raw 1107 demo_shard) (enc_batch demo_batch) True"
proof -
  have bits: "bit (0x40 :: byte) 6" "\<not> bit (0x40 :: byte) 7" by simp_all
  have "wf_variant \<lparr>kind = KindDataMerkle, proofSize = 0, resigned = False\<rparr>"
    "IsData \<lparr>kind = KindDataMerkle, proofSize = 0, resigned = False\<rparr>"
    by (simp_all add: wf_variant_def IsData_def)
  from parse_data_packet [OF _ this, of "replicate 64 0" 0 0 "enc_batch demo_batch" 7 1 1 "0x40" "replicate 802 0"] bits
  show ?thesis by (simp add: carries_piece_def demo_shard_packet(2) length_demo_batch)
qed

definition demo_coded :: "byte list" where
  "demo_coded = code_packet (replicate 64 0) demo_code_variant 7 0 1 0 1 1 0 demo_shard []"

lemma demo_coded_shard: "length demo_coded = 1196" "drop 89 demo_coded = demo_shard"
  by (simp_all add: demo_coded_def code_packet_def demo_shard_packet(1))

definition demo_coded_set :: fecSetBuffer where
  "demo_coded_set = recordCode 0 1 1 demo_coded demo_code_variant (newFecSetBuffer 0)"

lemma demo_coded_fields:
  "demo_coded_set = \<lparr>fb_fecSetIndex = 0, fb_numData = 1, fb_numCoding = 1, fb_shardSize = 1107,
     fb_variant = demo_code_variant, fb_hasVariant = True, fb_code = [(0, demo_coded)]\<rparr>"
  by (simp add: demo_coded_set_def recordCode_def newFecSetBuffer_def ShardSize_def CodeShredPayloadLen_def
      SizeOfCodingShredHeaders_def SizeOfMerkleRoot_def Let_def)

lemma demo_recoverable:
  assumes "pending a = []" and "batchStart a = 0"
  shows "recoverable_batch 0 demo_coded_set [demo_shard, demo_shard] [enc_batch demo_batch] a w"
proof -
  let ?rs = "\<lparr>dataShards = 1, totalShards = 2, rsMatrix = [[1], [1]], parityRows = [[1]]\<rparr> :: reedSolomon"
  have rs: "newReedSolomon 1 1 = Inr ?rs" by code_simp
  have "lincomb 1107 [1] [demo_shard] = demo_shard"
    using lincomb_systematic [of ?rs 0 "[demo_shard]" 1107] newReedSolomon_Inr [OF rs] demo_shard_packet(1) by simp
  then have cw: "codeword ?rs 1107 [demo_shard, demo_shard]"
    using demo_shard_packet(1) by (auto simp: codeword_def less_Suc_eq numeral_2_eq_2)
  have "ShardSize 0 False = 1107"
    by (simp add: ShardSize_def CodeShredPayloadLen_def SizeOfCodingShredHeaders_def SizeOfMerkleRoot_def)
  then have "authentic_code demo_coded_set [demo_shard, demo_shard]"
    using demo_shard_packet(1) demo_coded_shard
    by (simp add: authentic_code_def demo_coded_fields codeShardSlice_def SizeOfCodingShredHeaders_def subslice_def Let_def)
  then show ?thesis
    using rs cw demo_shard_piece assms
    by (auto simp: recoverable_batch_def demo_coded_fields dataCountFor_def fec_refs_def authentic_data_def
        canRecoverWith_def)
qed

end
