(* ===== verification/Listener_Fec.thy ===== *)
theory Listener_Fec
  imports Listener_Delivery Listener_Term Fec_Delivery
begin

text \<open>
  Delivery in spite of losses, end to end: a coding packet handed to the listener makes the FEC set of its
  slot recoverable, and the same call returns the transactions of the batch whose data packets were
  lost. The proof composes buffer pool, parser, listener, accumulator, erasure code and decoder.
\<close>

section \<open>A coding packet in a buffer\<close>

text \<open>The pending shreds of the slot still own the buffers their bytes are in.\<close>

definition owns_buffers :: "slotAccumulator \<Rightarrow> bool" where
  "owns_buffers a \<longleftrightarrow> (\<forall>(k, ps) \<in> set (pending a). \<forall>g. source ps = PoolPayload (Some g) \<longrightarrow> attached g)"

lemma loaded_slices:
  assumes "loaded raw l h l1" and "owns_buffers (slotAcc slot l)" and "(k, ps) \<in> set (pending (slotAcc slot l))"
  shows "src_slice (w_pool (l_world l1)) (source ps) = src_slice (w_pool (l_world l)) (source ps)"
proof (cases "\<exists>g. source ps = PoolPayload (Some g)")
  case True
  then obtain g where g: "source ps = PoolPayload (Some g)" by blast
  then have "attached g" using assms(2,3) by (auto simp: owns_buffers_def)
  then have "h_idx g \<noteq> h_idx h" using pending_held [OF assms(3) g] assms(1) by (auto simp: loaded_def)
  then show ?thesis using assms(1) g by (simp add: loaded_def)
next
  case False
  then show ?thesis by (cases "source ps") (auto simp: Bytes_def split: option.splits)
qed

lemma slotAcc_good:
  assumes "buffers_ok H l"
  shows "\<exists>K. good K (slotAcc slot l) (l_world l)"
proof (cases "map_of (slots l) slot")
  case None
  have "world_free (slots_held l + H) (l_world l)" using assms by (simp add: buffers_ok_def)
  then have "good (slots_held l + H) (slotAcc slot l) (l_world l)"
    using None by (simp add: good_iff slotAcc_def newSlotAccumulator_def acc_ok_def)
  then show ?thesis by blast
next
  case (Some a)
  then show ?thesis using slot_good [OF assms Some] by (simp add: slotAcc_def)
qed

lemma handle_coded:
  assumes "ready H slot l" and "loaded raw l h l1" and "enableFEC l1"
    and "ParseKind (take BufferSize raw) = Inr (CodeKind c)" and "cs_Slot c = slot"
  shows "\<exists>f. handlePacketOwned env h l1 =
      Option.bind (pushCode env (cs_FecSetIndex c) (cs_NumDataShreds c) (cs_NumCodingShreds c) (cs_Position c)
          (cs_Coded c) (cs_Variant c) (slotAcc slot l) (l_world l1)) (\<lambda>(acc, w, txs).
        Some (hit_result slot txs, l_pool_release h (putSlot slot acc w (bump f l1))))"
proof -
  have same: "slots l1 = slots l" "lastSlot l1 = lastSlot l" "recentlySeenSlots l1 = recentlySeenSlots l"
    and bytes: "Bytes (w_pool (l_world l1)) (Some h) = take BufferSize raw"
    using assms(2) by (simp_all add: loaded_def)
  let ?f1 = "bytesReceived_update (\<lambda>n. n + of_nat (Len (Some h)))"
  have acc: "acceptSlot slot (bump ?f1 l1) = (True, bump ?f1 l1)"
    using same by (intro ready_accepts [OF assms(1)]) simp_all
  have bb: "bump g (bump f l) = bump (g \<circ> f) l" "enableFEC (bump f l) = enableFEC l" for g f l by (simp_all add: bump_def)
  let ?f = "codeShredCount_update (\<lambda>n. n + 1) \<circ> ?f1"
  have nt: "noteSlot env slot (bump ?f l1) = Some (bump ?f l1)"
    using assms(1) same by (simp add: noteSlot_def ready_def leD)
  have sa: "slotAcc slot (bump ?f l1) = slotAcc slot l" by (rule slotAcc_loaded [OF assms(2)])
  have "handlePacketOwned env h l1 =
      Option.bind (pushCode env (cs_FecSetIndex c) (cs_NumDataShreds c) (cs_NumCodingShreds c) (cs_Position c)
          (cs_Coded c) (cs_Variant c) (slotAcc slot l) (l_world l1)) (\<lambda>(acc, w, txs).
        Some (hit_result slot txs, l_pool_release h (putSlot slot acc w (bump ?f l1))))"
    using assms(1,3-5) bytes acc same nt sa
    by (simp add: handlePacketOwned_def handleCode_def Let_def bb ready_def)
  then show ?thesis by blast
qed

lemma slotAcc_release [simp]: "slotAcc slot (l_pool_release h l) = slotAcc slot l"
  by (simp add: slotAcc_def l_pool_release_def split: option.split)

text \<open>
  Property C2. Lost packets do not lose the transactions of a batch that is one FEC set and does not close its
  slot. The pieces of an encoded batch are exactly the data shards of one FEC set at the start of a batch, the
  last one has the flag of a complete batch and none that of the slot's last shred; the slot is not newer
  than the last slot and has room for the set. Some data packets of the set never arrived, and streaming waits at
  one of them; whatever did arrive belongs to the same codeword and still has its buffer. No batch of the slot
  ends at the largest index and a buffer is free. Then handing the listener
  the coding packet with which data and coding shreds are together as many as the set has data shreds
  returns, and returns every transaction of the batch that has not been delivered yet, in order: within
  this one call the packet is parsed and routed, the lost shreds are reconstructed by the erasure code, and
  the batch is decoded and passed. The listener is ready for the slot's next packet.\<close>

theorem coding_packet_delivers:
  assumes "fair_env env" and "ready H slot l" and "enableFEC l" and "available (w_pool (l_world l)) > 0"
    and "ParseKind (take 2048 raw) = Inr (CodeKind c)" and "cs_Slot c = slot"
    and "a = slotAcc slot l" and "no_max a" and "owns_buffers a"
    and "s = cs_FecSetIndex c"
    and "map_of (fecSets a) s \<noteq> None \<or> int (length (fecSets a)) < MaxFECSetsPerSlot (cfg a)"
    and "f = recordCode (cs_Position c) (cs_NumDataShreds c) (cs_NumCodingShreds c) (cs_Coded c) (cs_Variant c)
      (case map_of (fecSets a) s of None \<Rightarrow> newFecSetBuffer s | Some f \<Rightarrow> f)"
    and "recoverable_batch s f cw cs a (l_world l)" and "wf_batch es" and "concat cs = enc_batch es @ padding"
    and "k < length cs" and "streamingCursor a = of_nat (unat s + k)" and "map_of (pending a) (streamingCursor a) = None"
  shows "\<exists>l' more. HandlePacket env raw l = Some (hit_result slot (fresh (yieldedSigs a) (batch_txs es) @ more), l') \<and>
    ready H slot l' \<and> unat s + length cs \<le> unat (batchStart (slotAcc slot l'))"
proof -
  have ok: "buffers_ok H l" "slots_ok l" using assms(2) by (simp_all add: ready_def)
  obtain h l1 where h: "HandlePacket env raw l = handlePacketOwned env h l1" "loaded raw l h l1"
    "buffers_ok (add_mset (h_idx h) H) l1" "enableFEC l1 = enableFEC l"
    by (rule HandlePacket_owned [OF ok assms(4)])
  have a: "slotAcc slot l1 = a" using slotAcc_loaded [OF h(2), of slot "\<lambda>c. c"] assms(7) by (simp add: bump_def)
  obtain K where g: "good K a (l_world l1)" using slotAcc_good [OF h(3), of slot] a by auto
  have "recoverable_batch s f cw cs a (l_world l1)"
    by (rule recoverable_batch_cong [OF _ assms(13)]) (use loaded_slices [OF h(2)] assms(7,9) in blast)
  from coded_shred_delivers [OF g assms(8,11,12) this assms(14-18), of env] obtain b v more where
    push: "pushCode env s (cs_NumDataShreds c) (cs_NumCodingShreds c) (cs_Position c) (cs_Coded c) (cs_Variant c) a (l_world l1) =
      Some (b, v, fresh (yieldedSigs a) (batch_txs es) @ more)" and b: "unat s + length cs \<le> unat (batchStart b)" by blast
  have pk: "ParseKind (take BufferSize raw) = Inr (CodeKind c)" using assms(5) by (simp add: BufferSize_def)
  from handle_coded [OF assms(2) h(2) _ pk assms(6), of env] h(4) assms(3) obtain u where
    hp: "handlePacketOwned env h l1 =
      Option.bind (pushCode env (cs_FecSetIndex c) (cs_NumDataShreds c) (cs_NumCodingShreds c) (cs_Position c)
          (cs_Coded c) (cs_Variant c) (slotAcc slot l) (l_world l1)) (\<lambda>(acc, w, txs).
        Some (hit_result slot txs, l_pool_release h (putSlot slot acc w (bump u l1))))" by auto
  let ?l' = "l_pool_release h (putSlot slot b v (bump u l1))"
  have res: "HandlePacket env raw l = Some (hit_result slot (fresh (yieldedSigs a) (batch_txs es) @ more), ?l')"
    using h(1) hp push assms(7,10) by simp
  have "buffers_ok H ?l'" "slots_ok ?l'" using HandlePacket_ok [OF assms(1) ok res] by simp_all
  then have "ready H slot ?l'" using assms(2) h(2) by (simp add: ready_def loaded_def putSlot_def keys_update)
  with res b show ?thesis by auto
qed

text \<open>The set has one data and one coding shred, and only the coding packet arrives.\<close>

definition demo_code_wire :: "byte list" where
  "demo_code_wire = code_packet (replicate 64 0) demo_code_variant 7 0 1 0 1 1 0 demo_shard (replicate (MerkleSuffix demo_code_variant) 0)"

lemma demo_code_parsed:
  "ParseKind (take 2048 demo_code_wire) = Inr (CodeKind
     \<lparr>cs_Slot = 7, cs_Index = 0, cs_Version = 1, cs_FecSetIndex = 0, cs_NumDataShreds = 1, cs_NumCodingShreds = 1,
      cs_Position = 0, cs_Coded = demo_coded, cs_Variant = demo_code_variant\<rparr>)"
proof -
  have "wf_variant demo_code_variant" "IsCode demo_code_variant" by (simp_all add: wf_variant_def IsCode_def)
  note p = parse_code_packet [OF _ this, of "replicate 64 0" 1 0 1 "replicate (MerkleSuffix demo_code_variant) 0" 7 0 1 0 demo_shard]
  have "length demo_code_wire \<le> 2048"
    by (simp add: demo_code_wire_def code_packet_def demo_shard_packet(1) MerkleSuffix_def ProofNodeSize_def ResignedExtra_def)
  then have "take 2048 demo_code_wire = demo_code_wire" by simp
  then show ?thesis using p by (simp add: demo_code_wire_def demo_coded_def)
qed

theorem coding_packet_delivers_witness:
  "\<exists>l l' more. OfflineWithOptions demo_options = Some l \<and>
     HandlePacket demo_env demo_code_wire (l\<lparr>lastSlot := 7\<rparr>) = Some (hit_result 7 (demo_tx # more), l')"
proof -
  obtain l where l: "OfflineWithOptions demo_options = Some l" "ready {#} 7 (l\<lparr>lastSlot := 7\<rparr>)"
    "available (w_pool (l_world l)) = 2" by (rule demo_ready)
  let ?l = "l\<lparr>lastSlot := 7\<rparr>"
  have n: "slots l = []" "enableFEC l" "accumulatorCfg l = DefaultAccumulatorConfig"
    using l(1) by (auto simp: OfflineWithOptions_def newListener_def demo_options_def DefaultListenerOptions_def split: option.splits)
  then have a: "pending (slotAcc 7 ?l) = []" "batchStart (slotAcc 7 ?l) = 0" "no_max (slotAcc 7 ?l)" "owns_buffers (slotAcc 7 ?l)"
    "fecSets (slotAcc 7 ?l) = []" "MaxFECSetsPerSlot (cfg (slotAcc 7 ?l)) > 0" "streamingCursor (slotAcc 7 ?l) = 0"
    "yieldedSigs (slotAcc 7 ?l) = []"
    by (simp_all add: slotAcc_def newSlotAccumulator_def no_max_def owns_buffers_def DefaultAccumulatorConfig_def
        DefaultMaxFECSetsPerSlot_def)
  from coding_packet_delivers [OF demo_env_fair l(2) _ _ demo_code_parsed _ refl a(3,4) refl _ refl _ wf_demo_batch, of
      "[demo_shard, demo_shard]" "[enc_batch demo_batch]" "[]" 0] demo_recoverable [OF a(1,2)] a n l(3) fresh_demo
  show ?thesis using l(1) by (fastforce simp: demo_coded_set_def)
qed

end
