(* ===== verification/Listener_Stats.thy ===== *)
theory Listener_Stats
  imports Listener_Term
begin

text \<open>
  What the statistics of \<^verbatim>\<open>src/listener.go\<close> mean: the plain accessors, how every packet is
  accounted for by exactly one of the counters, and how the totals over ended and live slots come through
  an eviction.
\<close>

section \<open>The accessors\<close>

definition BusyPollActive :: "Listener \<Rightarrow> bool" where
  "BusyPollActive l = busyPollActive l"

definition LastIOErrorKind :: "Listener \<Rightarrow> string" where
  "LastIOErrorKind l = lastIOErrKind l"

definition DataShredCountTotal :: "Listener \<Rightarrow> u64" where
  "DataShredCountTotal l = dataShredCount (ctr l)"

definition CodeShredCountTotal :: "Listener \<Rightarrow> u64" where
  "CodeShredCountTotal l = codeShredCount (ctr l)"

definition BytesReceived :: "Listener \<Rightarrow> u64" where
  "BytesReceived l = bytesReceived (ctr l)"

definition PoolExhaustedCount :: "Listener \<Rightarrow> u64" where
  "PoolExhaustedCount l = poolExhausted (ctr l)"

definition UnparseableTooShort :: "Listener \<Rightarrow> u64" where
  "UnparseableTooShort l = unparseableTooShort (ctr l)"

definition UnparseableVariant :: "Listener \<Rightarrow> u64" where
  "UnparseableVariant l = unparseableVariant (ctr l)"

definition UnparseablePayload :: "Listener \<Rightarrow> u64" where
  "UnparseablePayload l = unparseablePayload (ctr l)"

definition UnparseableSlotRange :: "Listener \<Rightarrow> u64" where
  "UnparseableSlotRange l = unparseableSlotRange (ctr l)"

definition DroppedKnownSlots :: "Listener \<Rightarrow> u64" where
  "DroppedKnownSlots l = droppedKnownSlots (ctr l)"

definition SlotsCompletedTotal :: "Listener \<Rightarrow> u64" where
  "SlotsCompletedTotal l = slotsCompletedTotal (ctr l)"

definition SlotsEvictedByAge :: "Listener \<Rightarrow> u64" where
  "SlotsEvictedByAge l = slotsEvictedByAge (ctr l)"

definition HarvestedBatchesTotal :: "Listener \<Rightarrow> u64" where
  "HarvestedBatchesTotal l = harvestedBatchesTotal (ctr l)"

definition tx_Slot :: "TransactionIter \<Rightarrow> u64" where
  "tx_Slot it = ti_slot it"

definition tx_Txs :: "TransactionIter \<Rightarrow> VersionedTransaction list" where
  "tx_Txs it = ti_txs it"

definition tx_Err :: "TransactionIter \<Rightarrow> io_error option" where
  "tx_Err it = ti_err it"

definition shred_Err :: "ShredIter \<Rightarrow> io_error option" where
  "shred_Err it = si_err it"

lemmas traffic_defs = DataShredCountTotal_def CodeShredCountTotal_def BytesReceived_def PoolExhaustedCount_def
  UnparseablePackets_def DroppedKnownSlots_def UnparseableTooShort_def UnparseableVariant_def
  UnparseablePayload_def UnparseableSlotRange_def

section \<open>Traffic counters\<close>

text \<open>The shreds taken over by a slot, the packets that were dropped, and both together.\<close>

definition taken :: "Listener \<Rightarrow> u64" where
  "taken l = DataShredCountTotal l + CodeShredCountTotal l"

definition dropped :: "Listener \<Rightarrow> u64" where
  "dropped l = UnparseablePackets l + DroppedKnownSlots l"

text \<open>The counters that are bumped for the content of a packet, by what the parser makes of it.\<close>

definition parse_counts :: "Listener \<Rightarrow> u64 \<times> u64 \<times> u64" where
  "parse_counts l = (UnparseableTooShort l, UnparseableVariant l, UnparseablePayload l)"

text \<open>Eviction does not touch the counters of the traffic.\<close>

definition same_traffic :: "Listener \<Rightarrow> Listener \<Rightarrow> bool" where
  "same_traffic l l' \<longleftrightarrow> taken l' = taken l \<and> dropped l' = dropped l \<and> parse_counts l' = parse_counts l \<and>
     DataShredCountTotal l' = DataShredCountTotal l \<and> CodeShredCountTotal l' = CodeShredCountTotal l \<and>
     PoolExhaustedCount l' = PoolExhaustedCount l \<and> BytesReceived l' = BytesReceived l"

lemma same_traffic_refl [simp]: "same_traffic l l"
  by (simp add: same_traffic_def)

lemma same_traffic_trans: "same_traffic l l' \<Longrightarrow> same_traffic l' l'' \<Longrightarrow> same_traffic l l''"
  by (simp add: same_traffic_def)

lemma same_traffic_ctr: "ctr l' = ctr l \<Longrightarrow> same_traffic l l'"
  by (simp add: same_traffic_def taken_def dropped_def parse_counts_def traffic_defs)

lemma ctr_simps [simp]:
  "ctr (bump f l) = f (ctr l)" "ctr (l_pool_release h l) = ctr l" "ctr (putSlot s a w l) = ctr l"
  by (simp_all add: bump_def l_pool_release_def putSlot_def)

lemma evictSlot_ctr:
  assumes "evictSlot env s l = Some l'" and "map_of (slots l) s = Some acc"
  obtains b v tail where "tryHarvestTail env acc (l_world l) = Some (b, v, tail)" "slots l' = AList.delete s (slots l)"
    "ctr l' = ctr (rollupAccumulator b
       (bump (if slotComplete b then slotsCompletedTotal_update (\<lambda>n. n + 1) else slotsEvictedByAge_update (\<lambda>n. n + 1))
         (if tail \<noteq> [] \<or> salvagedTailTx acc < salvagedTailTx b
          then bump (harvestedBatchesTotal_update (\<lambda>n. n + 1)) l else l)))"
proof -
  obtain b v tail where h: "tryHarvestTail env acc (l_world l) = Some (b, v, tail)"
    using assms by (auto simp: evictSlot_def Let_def bind_eq_Some_conv)
  obtain c u where r: "acc_release env b v = (c, u)" by fastforce
  show ?thesis
    by (rule that [OF h]) (use assms h r in \<open>auto simp: evictSlot_def Let_def rollupAccumulator_def split: if_splits\<close>)
qed

lemma evictSlot_traffic:
  assumes "evictSlot env s l = Some l'"
  shows "same_traffic l l'"
proof (cases "map_of (slots l) s")
  case None
  then show ?thesis using assms by (simp add: evictSlot_def)
next
  case (Some acc)
  show ?thesis
    by (rule evictSlot_ctr [OF assms Some])
      (simp add: same_traffic_def taken_def dropped_def parse_counts_def traffic_defs rollupAccumulator_def)
qed

lemma evictAll_traffic: "evictAll env ss l = Some l' \<Longrightarrow> same_traffic l l'"
proof (induction ss arbitrary: l)
  case (Cons s ss)
  then obtain l1 where "evictSlot env s l = Some l1" "evictAll env ss l1 = Some l'"
    by (auto simp: bind_eq_Some_conv)
  then show ?case using evictSlot_traffic Cons.IH same_traffic_trans by blast
qed simp

lemma evictOldSlots_traffic:
  assumes "evictOldSlots env l = Some l'"
  shows "same_traffic l l'"
proof -
  obtain ks w where o: "order64 env (map fst (slots l)) (l_world l) = (ks, w)" by fastforce
  let ?l1 = "l\<lparr>l_world := w\<rparr>"
  obtain l2 where l1: "ctr ?l1 = ctr l" "evictAll env (filter (expired ?l1) ks) ?l1 = Some l2" "ctr l' = ctr l2"
    using assms o by (auto simp: evictOldSlots_def Let_def bind_eq_Some_conv)
  then show ?thesis
    using evictAll_traffic [OF l1(2)] same_traffic_ctr same_traffic_trans by metis
qed

lemma forceEvict_traffic: "forceEvictOldestSlot env l = Some l' \<Longrightarrow> same_traffic l l'"
  by (auto simp: forceEvictOldestSlot_def split: option.splits dest: evictSlot_traffic)

lemma noteSlot_traffic: "noteSlot env s l = Some l' \<Longrightarrow> same_traffic l l'"
  using same_traffic_trans [OF same_traffic_ctr evictOldSlots_traffic, of "l\<lparr>lastSlot := s\<rparr>" l env l']
  by (auto simp: noteSlot_def split: if_splits)

lemma l_acquire_traffic: "l_acquire l = Some (h, l') \<Longrightarrow> same_traffic l l'"
  by (auto simp: l_acquire_def intro!: same_traffic_ctr)

lemma acquireBuffer_traffic:
  assumes "acquireBufferWithFallback env l = Some (ho, l')"
  shows "taken l' = taken l \<and> dropped l' = dropped l \<and> BytesReceived l' = BytesReceived l \<and>
    PoolExhaustedCount l' = PoolExhaustedCount l + (if ho = None then 1 else 0)"
proof (cases "l_acquire l")
  case (Some p)
  then show ?thesis
    using assms l_acquire_traffic by (cases p) (auto simp: acquireBufferWithFallback_def same_traffic_def)
next
  case None
  obtain l1 where l1: "evictOldSlots env l = Some l1"
    using assms None by (auto simp: acquireBufferWithFallback_def bind_eq_Some_conv)
  show ?thesis
  proof (cases "l_acquire l1")
    case (Some p)
    then show ?thesis
      using assms None l1 l_acquire_traffic evictOldSlots_traffic [OF l1]
      by (cases p) (auto simp: acquireBufferWithFallback_def same_traffic_def)
  next
    case none: None
    obtain l2 where l2: "forceEvictOldestSlot env l1 = Some l2"
      using assms None l1 none by (auto simp: acquireBufferWithFallback_def bind_eq_Some_conv)
    have s: "same_traffic l l2"
      using evictOldSlots_traffic [OF l1] forceEvict_traffic [OF l2] by (rule same_traffic_trans)
    show ?thesis
    proof (cases "l_acquire l2")
      case None
      then have "ho = None" "l' = bump (poolExhausted_update (\<lambda>n. n + 1)) l2"
        using assms \<open>l_acquire l = None\<close> l1 none l2 by (auto simp: acquireBufferWithFallback_def)
      moreover from this(2) have "taken l' = taken l2" "dropped l' = dropped l2" "BytesReceived l' = BytesReceived l2"
        "PoolExhaustedCount l' = PoolExhaustedCount l2 + 1" by (simp_all add: taken_def dropped_def traffic_defs)
      ultimately show ?thesis using s by (simp add: same_traffic_def)
    next
      case (Some p)
      then show ?thesis
        using assms \<open>l_acquire l = None\<close> l1 none l2 l_acquire_traffic s
        by (cases p) (auto simp: acquireBufferWithFallback_def same_traffic_def)
    qed
  qed
qed

section \<open>Packets\<close>

text \<open>A packet that has a buffer is either taken over by a slot or dropped, and counted as such.\<close>

definition one_more :: "Listener \<Rightarrow> Listener \<Rightarrow> packet_result \<Rightarrow> bool" where
  "one_more l l' r \<longleftrightarrow> PoolExhaustedCount l' = PoolExhaustedCount l \<and>
     (taken l' = taken l + 1 \<and> dropped l' = dropped l \<or>
      taken l' = taken l \<and> dropped l' = dropped l + 1 \<and> r = no_result)"

lemma one_more_cong:
  assumes "same_traffic l1 l1'" and "one_more l l1 r"
  shows "one_more l l1' r"
  using assms by (auto simp: one_more_def same_traffic_def)

lemma acceptSlot_traffic:
  assumes "acceptSlot slot l = (False, l')"
  shows "one_more l l' no_result \<and> BytesReceived l' = BytesReceived l"
  using acceptSlot_cases(1) [OF assms] by (simp add: one_more_def taken_def dropped_def traffic_defs)

lemma known_traffic:
  "one_more l (bump (droppedKnownSlots_update (\<lambda>n. n + 1)) l) no_result"
  "BytesReceived (bump (droppedKnownSlots_update (\<lambda>n. n + 1)) l) = BytesReceived l"
  by (simp_all add: one_more_def taken_def dropped_def traffic_defs)

lemma counted_traffic:
  "one_more l (bump (dataShredCount_update (\<lambda>n. n + 1)) l) r"
  "one_more l (bump (codeShredCount_update (\<lambda>n. n + 1)) l) r"
  "BytesReceived (bump (dataShredCount_update (\<lambda>n. n + 1)) l) = BytesReceived l"
  "BytesReceived (bump (codeShredCount_update (\<lambda>n. n + 1)) l) = BytesReceived l"
  by (simp_all add: one_more_def taken_def dropped_def traffic_defs)

lemma traffic_drop [simp]:
  "one_more l (l_pool_release h l') r = one_more l l' r" "BytesReceived (l_pool_release h l) = BytesReceived l"
  "one_more l (putSlot s a w l') r = one_more l l' r" "BytesReceived (putSlot s a w l) = BytesReceived l"
  by (simp_all add: one_more_def taken_def dropped_def traffic_defs)

lemma handleData_traffic:
  assumes "handleData env h d l = Some (r, l')"
  shows "one_more l l' r \<and> BytesReceived l' = BytesReceived l"
proof (cases "acceptSlot (ds_Slot d) l")
  case (Pair ok l1)
  show ?thesis
  proof (cases "ok \<and> ds_Slot d \<notin> set (recentlySeenSlots l)")
    case False
    then show ?thesis
      using assms Pair acceptSlot_traffic [of "ds_Slot d" l l1] acceptSlot_cases(1) [OF Pair] known_traffic [of l]
      by (cases ok) (auto simp: handleData_def Let_def)
  next
    case True
    let ?l = "bump (dataShredCount_update (\<lambda>n. n + 1)) l"
    obtain l2 a w where n: "noteSlot env (ds_Slot d) ?l = Some l2" "l' = putSlot (ds_Slot d) a w l2"
      using True assms Pair acceptSlot_cases(1) [OF Pair] by (auto simp: handleData_def Let_def bind_eq_Some_conv)
    note t = noteSlot_traffic [OF n(1)]
    show ?thesis
      using one_more_cong [OF t counted_traffic(1)] t n(2) counted_traffic(3) by (simp add: same_traffic_def)
  qed
qed

lemma handleCode_traffic:
  assumes "handleCode env h c l = Some (r, l')"
  shows "one_more l l' r \<and> BytesReceived l' = BytesReceived l"
proof (cases "acceptSlot (cs_Slot c) l")
  case (Pair ok l1)
  let ?l = "bump (codeShredCount_update (\<lambda>n. n + 1)) l"
  consider "\<not> (ok \<and> cs_Slot c \<notin> set (recentlySeenSlots l))" | "ok" "cs_Slot c \<notin> set (recentlySeenSlots l)" "\<not> enableFEC l"
    | "ok" "cs_Slot c \<notin> set (recentlySeenSlots l)" "enableFEC l" by blast
  then show ?thesis
  proof cases
    case 1
    then show ?thesis
      using assms Pair acceptSlot_traffic [of "cs_Slot c" l l1] acceptSlot_cases(1) [OF Pair] known_traffic [of l]
      by (cases ok) (auto simp: handleCode_def Let_def)
  next
    case 2
    then have "l' = l_pool_release h ?l"
      using assms Pair acceptSlot_cases(1) [OF Pair] by (auto simp: handleCode_def Let_def bump_def)
    then show ?thesis using counted_traffic by simp
  next
    case 3
    then obtain l2 a w where n: "noteSlot env (cs_Slot c) ?l = Some l2" "l' = l_pool_release h (putSlot (cs_Slot c) a w l2)"
      using assms Pair acceptSlot_cases(1) [OF Pair] by (auto simp: handleCode_def Let_def bind_eq_Some_conv bump_def)
    note t = noteSlot_traffic [OF n(1)]
    show ?thesis
      using one_more_cong [OF t counted_traffic(2)] t n(2) counted_traffic(4) by (simp add: same_traffic_def)
  qed
qed

lemma parse_error_traffic:
  "one_more l (bumpParseError (newParseError err) l) no_result"
  "BytesReceived (bumpParseError (newParseError err) l) = BytesReceived l"
  by (cases err; simp add: one_more_def taken_def dropped_def traffic_defs)+

lemma received_traffic:
  "one_more (bump (bytesReceived_update f) l) l' r = one_more l l' r"
  "BytesReceived (bump (bytesReceived_update f) l) = f (BytesReceived l)"
  by (simp_all add: one_more_def taken_def dropped_def traffic_defs)

lemma handlePacketOwned_traffic:
  assumes "handlePacketOwned env h l = Some (r, l')"
  shows "one_more l l' r \<and> BytesReceived l' = BytesReceived l + of_nat (h_length h)"
proof -
  let ?l = "bump (bytesReceived_update (\<lambda>n. n + of_nat (h_length h))) l"
  have "one_more ?l l' r \<and> BytesReceived l' = BytesReceived ?l"
  proof (cases "ParseKind (Bytes (w_pool (l_world l)) (Some h))")
    case (Inl err)
    then show ?thesis
      using assms parse_error_traffic(1) [of ?l err] parse_error_traffic(2) [of err ?l] by (auto simp: handlePacketOwned_def Len_def Let_def)
  next
    case (Inr kd)
    then have "handlePacketParsed env h kd ?l = Some (r, l')"
      using assms by (simp add: handlePacketOwned_def Len_def Let_def)
    then show ?thesis by (cases kd) (auto dest: handleData_traffic handleCode_traffic)
  qed
  then show ?thesis by (simp add: received_traffic)
qed

lemma fillBuffer_traffic:
  assumes "fillBuffer h raw l = (h', l')"
  shows "ctr l' = ctr l" "h_length h' = min (length raw) BufferSize"
  using assms by (auto simp: fillBuffer_def Let_def SetLen_def)

lemma filled_traffic:
  assumes "fillBuffer h raw l = (h', l1)" and "handlePacketOwned env h' l1 = Some (r, l')"
  shows "one_more l l' r \<and> BytesReceived l' = BytesReceived l + of_nat (min (length raw) BufferSize)"
  using handlePacketOwned_traffic [OF assms(2)] fillBuffer_traffic [OF assms(1)]
  by (simp add: one_more_def taken_def dropped_def traffic_defs)

lemma HandlePacket_traffic:
  assumes "HandlePacket env raw l = Some (r, l')"
  shows "taken l' + dropped l' + PoolExhaustedCount l' = taken l + dropped l + PoolExhaustedCount l + 1"
    "BytesReceived l' = BytesReceived l +
       (if PoolExhaustedCount l' = PoolExhaustedCount l then of_nat (min (length raw) 2048) else 0)"
    "r \<noteq> no_result \<Longrightarrow> taken l' = taken l + 1"
proof -
  obtain ho l1 where a: "acquireBufferWithFallback env l = Some (ho, l1)"
    and r: "case ho of None \<Rightarrow> r = no_result \<and> l' = l1
      | Some h \<Rightarrow> (case fillBuffer h raw l1 of (h, l) \<Rightarrow> handlePacketOwned env h l) = Some (r, l')"
    using assms by (auto simp: HandlePacket_def handlePacketLocked_def bind_eq_Some_conv split: option.splits)
  note t = acquireBuffer_traffic [OF a]
  have "taken l' + dropped l' + PoolExhaustedCount l' = taken l + dropped l + PoolExhaustedCount l + 1 \<and>
     BytesReceived l' = BytesReceived l +
       (if PoolExhaustedCount l' = PoolExhaustedCount l then of_nat (min (length raw) 2048) else 0) \<and>
     (r \<noteq> no_result \<longrightarrow> taken l' = taken l + 1)"
  proof (cases ho)
    case None
    then show ?thesis using r t by simp
  next
    case (Some h)
    obtain h2 l2 where f: "fillBuffer h raw l1 = (h2, l2)" by fastforce
    then have "handlePacketOwned env h2 l2 = Some (r, l')" using r Some by simp
    from filled_traffic [OF f this] t Some show ?thesis by (auto simp: one_more_def BufferSize_def)
  qed
  then show "taken l' + dropped l' + PoolExhaustedCount l' = taken l + dropped l + PoolExhaustedCount l + 1"
    "BytesReceived l' = BytesReceived l +
       (if PoolExhaustedCount l' = PoolExhaustedCount l then of_nat (min (length raw) 2048) else 0)"
    "r \<noteq> no_result \<Longrightarrow> taken l' = taken l + 1" by blast+
qed

lemma recvBegin_traffic:
  assumes "recvBegin env l = Some (st, l')"
  shows "taken l' = taken l \<and> dropped l' = dropped l \<and> BytesReceived l' = BytesReceived l \<and>
     PoolExhaustedCount l' = PoolExhaustedCount l + (if st = PoolEmpty then 1 else 0)"
proof (cases "pendingBatches l = [] \<and> hasSocket l")
  case True
  then obtain ho where "acquireBufferWithFallback env l = Some (ho, l')"
    "st = (case ho of None \<Rightarrow> PoolEmpty | Some h \<Rightarrow> ReadInto h)"
    using assms by (auto simp: recvBegin_def bind_eq_Some_conv)
  then show ?thesis using acquireBuffer_traffic by (auto split: option.splits)
next
  case False
  then have "ctr l' = ctr l" "st \<noteq> PoolEmpty" using assms by (auto simp: recvBegin_def split: list.splits)
  then show ?thesis using same_traffic_ctr [of l' l] by (simp add: same_traffic_def)
qed

lemma recvEnd_traffic:
  assumes "recvEnd env h io l = Some (r, e, l')"
  shows "PoolExhaustedCount l' = PoolExhaustedCount l"
    "taken l' + dropped l' = taken l + dropped l + (case io of IoError _ \<Rightarrow> 0 | Datagram _ \<Rightarrow> 1)"
    "BytesReceived l' = BytesReceived l + (case io of IoError _ \<Rightarrow> 0 | Datagram raw \<Rightarrow> of_nat (min (length raw) 2048))"
proof (atomize (full), cases io)
  case (IoError err)
  then have "ctr l' = ctr l" using assms by (auto simp: recvEnd_def)
  then show "PoolExhaustedCount l' = PoolExhaustedCount l \<and>
    taken l' + dropped l' = taken l + dropped l + (case io of IoError _ \<Rightarrow> 0 | Datagram _ \<Rightarrow> 1) \<and>
    BytesReceived l' = BytesReceived l + (case io of IoError _ \<Rightarrow> 0 | Datagram raw \<Rightarrow> of_nat (min (length raw) 2048))"
    using IoError same_traffic_ctr [of l' l] by (simp add: same_traffic_def)
next
  case (Datagram raw)
  obtain h2 l2 where f: "fillBuffer h raw l = (h2, l2)" by fastforce
  then have "handlePacketOwned env h2 l2 = Some (r, l')" using assms Datagram by (auto simp: recvEnd_def)
  from filled_traffic [OF f this] show "PoolExhaustedCount l' = PoolExhaustedCount l \<and>
    taken l' + dropped l' = taken l + dropped l + (case io of IoError _ \<Rightarrow> 0 | Datagram _ \<Rightarrow> 1) \<and>
    BytesReceived l' = BytesReceived l + (case io of IoError _ \<Rightarrow> 0 | Datagram raw \<Rightarrow> of_nat (min (length raw) 2048))"
    using Datagram by (auto simp: one_more_def BufferSize_def)
qed

lemma lstep_traffic:
  assumes "lstep env (l, hs) (l', hs')"
  shows "(taken l' + dropped l' + PoolExhaustedCount l') - (taken l + dropped l + PoolExhaustedCount l) \<in> {0, 1}"
proof (rule lstepE [OF assms])
  fix raw r
  assume "HandlePacket env raw l = Some (r, l')"
  from HandlePacket_traffic(1) [OF this] show ?thesis by simp
next
  fix st
  assume "recvBegin env l = Some (st, l')"
  from recvBegin_traffic [OF this] show ?thesis by simp
next
  fix h
  assume "recvBegin env l = Some (ReadInto h, l')"
  from recvBegin_traffic [OF this] show ?thesis by simp
next
  fix h io r e
  assume "recvEnd env h io l = Some (r, e, l')"
  from recvEnd_traffic(1,2) [OF this] show ?thesis by (cases io) simp_all
next
  fix e
  assume "l' = fail_iter e l"
  then have "ctr l' = ctr l" by (simp add: fail_iter_def)
  from same_traffic_ctr [OF this] show ?thesis by (simp add: same_traffic_def)
qed

text \<open>Within each group, the counter that grows is the one of the packet's content.\<close>

lemma handleData_counts:
  assumes "handleData env h d l = Some (r, l')"
  shows "parse_counts l' = parse_counts l \<and> CodeShredCountTotal l' = CodeShredCountTotal l"
proof (cases "acceptSlot (ds_Slot d) l")
  case (Pair ok l1)
  note l1 = acceptSlot_cases(1) [OF Pair]
  show ?thesis
  proof (cases "ok \<and> ds_Slot d \<notin> set (recentlySeenSlots l)")
    case False
    then show ?thesis
      using assms Pair l1 by (cases ok) (auto simp: handleData_def Let_def parse_counts_def traffic_defs)
  next
    case True
    let ?l = "bump (dataShredCount_update (\<lambda>n. n + 1)) l"
    obtain l2 a w where n: "noteSlot env (ds_Slot d) ?l = Some l2" "l' = putSlot (ds_Slot d) a w l2"
      using True assms Pair l1 by (auto simp: handleData_def Let_def bind_eq_Some_conv)
    from noteSlot_traffic [OF n(1)] n(2) show ?thesis
      by (simp add: same_traffic_def parse_counts_def traffic_defs)
  qed
qed

lemma handleCode_counts:
  assumes "handleCode env h c l = Some (r, l')"
  shows "parse_counts l' = parse_counts l \<and> DataShredCountTotal l' = DataShredCountTotal l"
proof (cases "acceptSlot (cs_Slot c) l")
  case (Pair ok l1)
  note l1 = acceptSlot_cases(1) [OF Pair]
  let ?l = "bump (codeShredCount_update (\<lambda>n. n + 1)) l"
  show ?thesis
  proof (cases "ok \<and> cs_Slot c \<notin> set (recentlySeenSlots l) \<and> enableFEC l")
    case False
    then show ?thesis
      using assms Pair l1
      by (cases ok) (auto simp: handleCode_def Let_def parse_counts_def traffic_defs bump_def l_pool_release_def split: if_splits)
  next
    case True
    then obtain l2 a w where n: "noteSlot env (cs_Slot c) ?l = Some l2" "l' = l_pool_release h (putSlot (cs_Slot c) a w l2)"
      using assms Pair l1 by (auto simp: handleCode_def Let_def bind_eq_Some_conv bump_def)
    from noteSlot_traffic [OF n(1)] n(2) show ?thesis
      by (simp add: same_traffic_def parse_counts_def traffic_defs)
  qed
qed

lemma owned_counts:
  assumes "handlePacketOwned env h l = Some (r, l')" and "ParseKind (Bytes (w_pool (l_world l)) (Some h)) = res"
  shows "parse_counts l' = (UnparseableTooShort l + (if res = Inl ErrTooShort then 1 else 0),
      UnparseableVariant l + (if res = Inl ErrUnknownVariant then 1 else 0),
      UnparseablePayload l + (if res = Inl ErrPayloadInvalid then 1 else 0)) \<and>
    ((\<forall>d. res \<noteq> Inr (DataKind d)) \<longrightarrow> DataShredCountTotal l' = DataShredCountTotal l) \<and>
    ((\<forall>c. res \<noteq> Inr (CodeKind c)) \<longrightarrow> CodeShredCountTotal l' = CodeShredCountTotal l)"
proof -
  let ?l = "bump (bytesReceived_update (\<lambda>n. n + of_nat (h_length h))) l"
  have same: "parse_counts ?l = parse_counts l" "DataShredCountTotal ?l = DataShredCountTotal l"
    "CodeShredCountTotal ?l = CodeShredCountTotal l" by (simp_all add: parse_counts_def traffic_defs)
  show ?thesis
  proof (cases res)
    case (Inl err)
    then have "l' = l_pool_release h (bumpParseError (newParseError err) ?l)"
      using assms by (simp add: handlePacketOwned_def Len_def Let_def)
    then show ?thesis using Inl by (cases err) (simp_all add: parse_counts_def traffic_defs)
  next
    case (Inr kd)
    then have p: "handlePacketParsed env h kd ?l = Some (r, l')"
      using assms by (simp add: handlePacketOwned_def Len_def Let_def)
    then show ?thesis
      using Inr same by (cases kd) (auto simp: parse_counts_def dest!: handleData_counts handleCode_counts)
  qed
qed

text \<open>
  Property C10. Every packet is accounted for exactly once. A packet handed in, and a datagram read from the
  socket, adds one to the data and coding shreds taken over, or one to the packets dropped as
  unparseable, out of range or of an ended slot, or, when no buffer can be freed for it, one to the
  pool exhaustions; all counters together grow by exactly one, with the wrap-around of 64 bits. The bytes
  received grow by the length of the packet cut to the buffer size unless the pool is exhausted, and a
  packet that returns transactions was counted as a shred. Starting a read counts nothing but a
  pool exhaustion, and a failed read counts nothing, whatever slots are evicted on the way. So no step of
  any interleaving counts more than one packet. Among the counters of the parser and of the two kinds of
  shreds only the one that fits the packet's content can grow: a rejected packet adds one to the counter
  of exactly its error, and a parsed one to none of these.\<close>

theorem packets_accounted:
  "(HandlePacket env raw l = Some (r, l') \<longrightarrow>
     taken l' + dropped l' + PoolExhaustedCount l' = taken l + dropped l + PoolExhaustedCount l + 1 \<and>
     BytesReceived l' = BytesReceived l +
       (if PoolExhaustedCount l' = PoolExhaustedCount l then of_nat (min (length raw) 2048) else 0) \<and>
     (r \<noteq> no_result \<longrightarrow> taken l' = taken l + 1)) \<and>
   (recvBegin env l = Some (st, l') \<longrightarrow>
     taken l' = taken l \<and> dropped l' = dropped l \<and> BytesReceived l' = BytesReceived l \<and>
     PoolExhaustedCount l' = PoolExhaustedCount l + (if st = PoolEmpty then 1 else 0)) \<and>
   (recvEnd env h io l = Some (r, e, l') \<longrightarrow>
     PoolExhaustedCount l' = PoolExhaustedCount l \<and>
     taken l' + dropped l' = taken l + dropped l + (case io of IoError _ \<Rightarrow> 0 | Datagram _ \<Rightarrow> 1) \<and>
     BytesReceived l' = BytesReceived l + (case io of IoError _ \<Rightarrow> 0 | Datagram raw \<Rightarrow> of_nat (min (length raw) 2048))) \<and>
   (lstep env (l, hs) (l', hs') \<longrightarrow>
     (taken l' + dropped l' + PoolExhaustedCount l') - (taken l + dropped l + PoolExhaustedCount l) \<in> {0, 1}) \<and>
   (handlePacketOwned env h l = Some (r, l') \<and> ParseKind (Bytes (w_pool (l_world l)) (Some h)) = res \<longrightarrow>
     UnparseableTooShort l' = UnparseableTooShort l + (if res = Inl ErrTooShort then 1 else 0) \<and>
     UnparseableVariant l' = UnparseableVariant l + (if res = Inl ErrUnknownVariant then 1 else 0) \<and>
     UnparseablePayload l' = UnparseablePayload l + (if res = Inl ErrPayloadInvalid then 1 else 0) \<and>
     ((\<forall>d. res \<noteq> Inr (DataKind d)) \<longrightarrow> DataShredCountTotal l' = DataShredCountTotal l) \<and>
     ((\<forall>c. res \<noteq> Inr (CodeKind c)) \<longrightarrow> CodeShredCountTotal l' = CodeShredCountTotal l))"
proof (intro conjI impI)
  assume "handlePacketOwned env h l = Some (r, l') \<and> ParseKind (Bytes (w_pool (l_world l)) (Some h)) = res"
  then have c: "handlePacketOwned env h l = Some (r, l')" "ParseKind (Bytes (w_pool (l_world l)) (Some h)) = res" by simp_all
  from owned_counts [OF c]
  show "UnparseableTooShort l' = UnparseableTooShort l + (if res = Inl ErrTooShort then 1 else 0)"
    "UnparseableVariant l' = UnparseableVariant l + (if res = Inl ErrUnknownVariant then 1 else 0)"
    "UnparseablePayload l' = UnparseablePayload l + (if res = Inl ErrPayloadInvalid then 1 else 0)"
    "\<forall>d. res \<noteq> Inr (DataKind d) \<Longrightarrow> DataShredCountTotal l' = DataShredCountTotal l"
    "\<forall>c. res \<noteq> Inr (CodeKind c) \<Longrightarrow> CodeShredCountTotal l' = CodeShredCountTotal l"
    by (simp_all add: parse_counts_def)
qed (rule lstep_traffic | simp add: HandlePacket_traffic recvBegin_traffic recvEnd_traffic)+

theorem packets_accounted_witness:
  "\<exists>l'. HandlePacket demo_env demo_newer full_listener = Some (no_result, l') \<and>
     taken l' + dropped l' + PoolExhaustedCount l' = 1"
proof -
  obtain l' where l': "HandlePacket demo_env demo_newer full_listener = Some (no_result, l')"
    using demo_newer_dropped by blast
  have "taken full_listener + dropped full_listener + PoolExhaustedCount full_listener = 0"
    by (simp add: taken_def dropped_def traffic_defs full_listener_def zero_counters_def del: upt_Suc)
  with packets_accounted [of demo_env demo_newer full_listener no_result l'] l' show ?thesis by auto
qed

section \<open>Totals over ended and live slots\<close>

text \<open>
  Each total of the interface with what one live slot contributes to it.
\<close>

definition slot_statistics :: "((Listener \<Rightarrow> u64) \<times> (slotAccumulator \<Rightarrow> u64)) list" where
  "slot_statistics =
     [(DecodeErrorsTotal, \<lambda>a. ucast (decodeErrors a)), (FECRecoveriesTotal, recoveriesDone),
      (FECRecoveryFailuresTotal, recoveryFailures), (BatchesSkippedTotal, batchesSkipped),
      (BatchesDecodedStreamingTotal, batchesDecodedStreaming), (BatchesDecodedFallbackTotal, batchesDecodedFallback),
      (SalvagedTailTxTotal, salvagedTailTx), (FECSetsDiscardedUnusedTotal, fecSetsDiscardedUnused),
      (FECSetsEvictedEarlyTotal, fecSetsEvictedEarly),
      (BatchesForceFinalizedCorruptedTotal, batchesForceFinalizedCorrupted),
      (BatchesForceFinalizedTimeoutTotal, batchesForceFinalizedTimeout)]"

lemma live_total_sum: "live_total ended one l = ended (ctr l) + (\<Sum>(_, a) \<leftarrow> slots l. one a)"
proof -
  have "fold (\<lambda>(_, a) t. t + one a) xs t = t + (\<Sum>(_, a) \<leftarrow> xs. one a)" for xs :: "(u64 \<times> slotAccumulator) list" and t
    by (induction xs arbitrary: t) (auto simp: add.assoc)
  then show ?thesis by (simp add: live_total_def)
qed

lemma sum_delete:
  fixes f :: "'b \<Rightarrow> u64"
  assumes "distinct (map fst xs)" and "map_of xs k = Some v"
  shows "(\<Sum>(_, a) \<leftarrow> AList.delete k xs. f a) = (\<Sum>(_, a) \<leftarrow> xs. f a) - f v"
  using assms
proof (induction xs)
  case (Cons x xs)
  then show ?case by (cases x) (auto simp: image_iff split: if_splits)
qed simp

text \<open>What an eviction adds to a total is what the harvest of the slot added to its own counter.\<close>

lemma live_total_evict:
  assumes "distinct (map fst (slots l))" and "map_of (slots l) s = Some acc" and "slots l' = AList.delete s (slots l)"
    and "ended (ctr l') = ended (ctr l) + one b"
  shows "live_total ended one l' = live_total ended one l + (one b - one acc)"
  using assms(3,4) sum_delete [OF assms(1,2), of one] by (simp add: live_total_sum)

lemma length_delete_live:
  "distinct (map fst xs) \<Longrightarrow> map_of xs k \<noteq> None \<Longrightarrow> Suc (length (AList.delete k xs)) = length xs"
  by (induction xs) (force simp: map_of_eq_None_iff image_iff)+

text \<open>
  Property C15. An eviction loses no statistics. When a live slot is evicted, each of the eleven totals
  over ended and live slots changes by exactly what harvesting the slot's tail changed in the slot's
  own counter; otherwise it is the same before and after, although the slot is gone. The slot moves from
  the live slots to exactly one of the completed ones and the ones evicted by age, so their sum is kept,
  and a harvested batch is counted exactly when the harvest returned or salvaged transactions.\<close>

theorem eviction_keeps_totals:
  assumes "slots_ok l" and "map_of (slots l) s = Some acc" and "evictSlot env s l = Some l'"
  shows "\<exists>b v tail. tryHarvestTail env acc (l_world l) = Some (b, v, tail) \<and>
    (\<forall>(total, one) \<in> set slot_statistics. total l' = total l + (one b - one acc)) \<and>
    SlotCount l = Suc (SlotCount l') \<and>
    SlotsCompletedTotal l' = SlotsCompletedTotal l + (if slotComplete b then 1 else 0) \<and>
    SlotsEvictedByAge l' = SlotsEvictedByAge l + (if slotComplete b then 0 else 1) \<and>
    HarvestedBatchesTotal l' = HarvestedBatchesTotal l +
      (if tail \<noteq> [] \<or> salvagedTailTx acc < salvagedTailTx b then 1 else 0)"
proof (rule evictSlot_ctr [OF assms(3,2)])
  fix b v tail
  assume h: "tryHarvestTail env acc (l_world l) = Some (b, v, tail)" "slots l' = AList.delete s (slots l)"
    "ctr l' = ctr (rollupAccumulator b
       (bump (if slotComplete b then slotsCompletedTotal_update (\<lambda>n. n + 1) else slotsEvictedByAge_update (\<lambda>n. n + 1))
         (if tail \<noteq> [] \<or> salvagedTailTx acc < salvagedTailTx b
          then bump (harvestedBatchesTotal_update (\<lambda>n. n + 1)) l else l)))"
  have d: "distinct (map fst (slots l))" using assms(1) by (simp add: slots_ok_def)
  note total = live_total_evict [OF d assms(2) h(2)]
  have "\<forall>(total, one) \<in> set slot_statistics. total l' = total l + (one b - one acc)"
    by (simp add: slot_statistics_def DecodeErrorsTotal_def FECRecoveriesTotal_def FECRecoveryFailuresTotal_def
        BatchesSkippedTotal_def BatchesDecodedStreamingTotal_def BatchesDecodedFallbackTotal_def SalvagedTailTxTotal_def
        FECSetsDiscardedUnusedTotal_def FECSetsEvictedEarlyTotal_def BatchesForceFinalizedCorruptedTotal_def
        BatchesForceFinalizedTimeoutTotal_def, intro conjI; rule total) (simp_all add: h(3) rollupAccumulator_def)
  moreover have "SlotCount l = Suc (SlotCount l')"
    using length_delete_live [OF d, of s] assms(2) h(2) by (simp add: SlotCount_def)
  ultimately show ?thesis
    using h(1,3) by (intro exI [of _ b] exI [of _ v] exI [of _ tail])
      (simp add: SlotsCompletedTotal_def SlotsEvictedByAge_def HarvestedBatchesTotal_def rollupAccumulator_def)
qed

theorem eviction_keeps_totals_witness:
  "\<exists>l'. evictSlot demo_env 1 full_listener = Some l' \<and> SlotCount l' = 63 \<and>
     SlotsCompletedTotal l' + SlotsEvictedByAge l' = 1"
proof -
  have "calm full_listener"
    by (auto simp: calm_def no_max_def full_listener_def newSlotAccumulator_def simp del: upt_Suc)
  then obtain l' where e: "evictSlot demo_env 1 full_listener = Some l'"
    using evictSlot_returns [OF full_listener_ok(1)] by blast
  have s: "map_of (slots full_listener) 1 = Some (newSlotAccumulator DefaultAccumulatorConfig)"
    by (simp add: full_listener_def upt_conv_Cons del: upt_Suc)
  from eviction_keeps_totals [OF full_listener_ok(2) s e] obtain b :: slotAccumulator where
    "SlotCount full_listener = Suc (SlotCount l')"
    "SlotsCompletedTotal l' = SlotsCompletedTotal full_listener + (if slotComplete b then 1 else 0)"
    "SlotsEvictedByAge l' = SlotsEvictedByAge full_listener + (if slotComplete b then 0 else 1)"
    by blast
  moreover have "SlotCount full_listener = 64" "SlotsCompletedTotal full_listener = 0" "SlotsEvictedByAge full_listener = 0"
    using full_listener_ok(3)
    by (simp_all add: SlotCount_def SlotsCompletedTotal_def SlotsEvictedByAge_def full_listener_def zero_counters_def del: upt_Suc)
  ultimately show ?thesis using e by auto
qed

end
