(* ===== verification/Tx_Typing.thy ===== *)
theory Tx_Typing
  imports Tx_Encoding
begin

text \<open>
  What the decoder returns is well-formed, whatever bytes it is given: signatures, keys and hashes
  have their sizes and every length is one the wire format can carry. This is the typing the Go
  arrays \<^verbatim>\<open>[64]byte\<close> and \<^verbatim>\<open>[32]byte\<close> give, which the byte lists of the model do not have by
  themselves.
\<close>

section \<open>Typed readers\<close>

locale typed_reader =
  fixes r :: "byte list \<Rightarrow> nat \<Rightarrow> 'a dres"
    and P :: "'a \<Rightarrow> bool"
  assumes reader_type: "r b pos = Complete p v \<Longrightarrow> P v"
begin

lemma many_type: "readMany r k b pos = Complete p xs \<Longrightarrow> length xs = k \<and> (\<forall>x \<in> set xs. P x)"
proof (induction k arbitrary: pos xs)
  case (Suc k)
  from Suc.prems obtain q x ys where "r b pos = Complete q x" "readMany r k b q = Complete p ys" "xs = x # ys"
    by auto
  with Suc.IH [of q ys] reader_type [of b pos q x] show ?case by simp
qed simp

end

lemma readBytes_type: "readBytes n b pos = Complete p v \<Longrightarrow> length v = n"
  by (auto simp: readBytes_def subslice_def split: if_splits)

lemma readCompact_type: "readCompact b pos = Complete p v \<Longrightarrow> v < 65536"
  by (auto simp: readCompact_def split: option.splits dest: decodeCompactU16_range)

lemma readChunks_type:
  assumes "readChunks sz n b pos = Complete p xs"
  shows "length xs = n \<and> (\<forall>x \<in> set xs. length x = sz)"
proof -
  have "pos + n * sz \<le> length b"
    and xs: "xs = map (\<lambda>i. subslice (pos + i * sz) (pos + i * sz + sz) b) [0..<n]"
    using assms by (auto simp: readChunks_def split: if_splits)
  then have "length (subslice (pos + i * sz) (pos + i * sz + sz) b) = sz" if "i < n" for i
    using chunk_in_range [of pos n sz "length b" i] that by (simp add: subslice_def)
  then show ?thesis unfolding xs by auto
qed

lemmas read_types = readBytes_type readCompact_type

interpretation ins: typed_reader readInstruction wf_instruction
  by unfold_locales (auto simp: readInstruction_def wf_instruction_def Let_def split: if_splits dest!: read_types)

interpretation lk: typed_reader readLookup wf_lookup
  by unfold_locales (auto simp: readLookup_def wf_lookup_def dest!: read_types)

lemma readLookups_type:
  "readLookups isV0 b pos = Complete p xs \<Longrightarrow>
     length xs < 65536 \<and> (\<forall>l \<in> set xs. wf_lookup l) \<and> (\<not> isV0 \<longrightarrow> xs = [])"
  by (auto simp: readLookups_def split: if_splits dest!: readCompact_type lk.many_type)

text \<open>Without a version byte the header starts where the version bit was found clear.\<close>

lemma readVersion_header:
  "readVersion b pos = Complete q False \<Longrightarrow> readHeader b q = Complete p h \<Longrightarrow> NumRequiredSignatures h AND 0x80 = 0"
  by (auto simp: readVersion_def readHeader_def Let_def split: if_splits)

lemma decodeMessageAt_type:
  assumes "decodeMessageAt b pos = Complete p m"
  shows "wf_message m"
proof -
  obtain q0 q1 q2 q3 q4 q5 q6 v h n keys hash k ins ls where
    r: "readVersion b pos = Complete q0 v" "readHeader b q0 = Complete q1 h" "readCompact b q1 = Complete q2 n"
      "readChunks 32 n b q2 = Complete q3 keys" "readBytes 32 b q3 = Complete q4 hash"
      "readCompact b q4 = Complete q5 k" "readMany readInstruction k b q5 = Complete q6 ins"
      "readLookups v b q6 = Complete p ls"
    and m: "m = \<lparr>IsV0 = v, Header = h, AccountKeys = keys, RecentBlockhash = hash, Instructions = ins,
      AddressTableLookups = ls\<rparr>"
    using assms by (auto simp: decodeMessageAt_def)
  have "\<not> v \<Longrightarrow> NumRequiredSignatures h AND 0x80 = 0" using readVersion_header [of b pos q0 q1 h] r(1,2) by simp
  then show ?thesis
    using readCompact_type [OF r(3)] readChunks_type [OF r(4)] readBytes_type [OF r(5)] readCompact_type [OF r(6)]
      ins.many_type [OF r(7)] readLookups_type [OF r(8)] m by (simp add: wf_message_def)
qed

lemma decodeTransaction_type:
  assumes "decodeTransaction b = Complete p t"
  shows "wf_tx t"
proof -
  obtain q n sigs q' q'' m where r: "readCompact b 0 = Complete q n" "n \<le> 256" "readChunks 64 n b q = Complete q' sigs"
    "decodeMessage (drop q' b) = Complete q'' m" and t: "t = \<lparr>Signatures = sigs, Message = m\<rparr>"
    using assms by (auto simp: decodeTransaction_def at_slice_def split: if_splits)
  show ?thesis
    using readChunks_type [OF r(3)] decodeMessageAt_type [OF r(4) [unfolded decodeMessage_def]] r(2) t
    by (simp add: wf_tx_def)
qed

interpretation txs: typed_reader "at_slice decodeTransaction" wf_tx
  by unfold_locales (auto simp: at_slice_def dest: decodeTransaction_type)

lemma decodeEntry_type: "decodeEntry b = Complete p ts \<Longrightarrow> \<forall>t \<in> set ts. wf_tx t"
  by (auto simp: decodeEntry_def Let_def split: if_splits dest: txs.many_type)

section \<open>Batches\<close>

lemma batchLoop_type:
  "batchLoop k b pos ts = Inr (p, us) \<Longrightarrow> \<forall>t \<in> set ts. wf_tx t \<Longrightarrow> \<forall>t \<in> set us. wf_tx t"
proof (induction k b pos ts rule: batchLoop.induct)
  case (2 k b pos ts)
  from "2.prems"(1) obtain n es where e: "decodeEntry (drop pos b) = Complete n es" "\<not> pos \<ge> length b"
    "batchLoop k b (pos + n) (ts @ es) = Inr (p, us)"
    by (auto split: if_splits dres.splits)
  have "\<forall>t \<in> set (ts @ es). wf_tx t" using "2.prems"(2) decodeEntry_type [OF e(1)] by auto
  from "2.IH" [OF e(2,1,3) this] show ?case .
qed simp

lemma DecodeBatch_type: "DecodeBatch b = Inr ts \<Longrightarrow> \<forall>t \<in> set ts. wf_tx t"
  by (auto simp: DecodeBatch_def Let_def split: if_splits sum.splits dest: batchLoop_type)

lemma concatLoop_type: "\<forall>t \<in> set out. wf_tx t \<Longrightarrow> \<forall>t \<in> set (concatLoop b offset out). wf_tx t"
proof (induction b offset out rule: concatLoop.induct)
  case (1 b offset out)
  let ?r = "drop offset b" and ?n = "le_nat (subslice 0 8 (drop offset b))"
  show ?case
  proof (cases "batchLoop ?n ?r 8 []")
    case (Inl e)
    then show ?thesis using "1.prems" by (subst concatLoop.simps) (simp add: Let_def)
  next
    case (Inr q)
    obtain p us where q: "q = (p, us)" by fastforce
    have "\<forall>t \<in> set (out @ us). wf_tx t" using batchLoop_type [of ?n ?r 8 "[]" p us] Inr q "1.prems" by auto
    with "1.IH" [OF _ refl _ refl Inr q [symmetric]] Inr q "1.prems" show ?thesis
      by (subst concatLoop.simps) (simp add: Let_def)
  qed
qed

lemma DecodeConcatenated_type: "\<forall>t \<in> set (DecodeConcatenated b). wf_tx t"
  unfolding DecodeConcatenated_def by (rule concatLoop_type) simp

lemma entryLoop_type:
  "entryLoop d ts = (d', Inr us) \<Longrightarrow> \<forall>t \<in> set ts. wf_tx t \<Longrightarrow> \<forall>t \<in> set us. wf_tx t"
proof (induction d ts rule: entryLoop.induct)
  case (1 d ts)
  show ?case
  proof (cases "entriesYielded d < expectedCount d \<and> cursor d < length (buffer d)")
    case True
    show ?thesis
    proof (cases "decodeEntry (drop (cursor d) (buffer d))")
      case (Complete n es)
      let ?d = "d\<lparr>cursor := cursor d + n, entriesYielded := entriesYielded d + 1\<rparr>"
      have "entryLoop ?d (ts @ es) = (d', Inr us)"
        using "1.prems"(1) True Complete by (subst (asm) entryLoop.simps) simp
      moreover have "\<forall>t \<in> set (ts @ es). wf_tx t" using "1.prems"(2) decodeEntry_type [OF Complete] by auto
      ultimately show ?thesis using "1.IH" [OF _ _ Complete] True by simp
    qed (use "1.prems" True in \<open>subst (asm) (1) entryLoop.simps; simp\<close>)+
  next
    case False
    then show ?thesis using "1.prems" by (subst (asm) entryLoop.simps) (auto split: if_splits)
  qed
qed

lemma Push_type: "Push d pl = (d', Inr ts) \<Longrightarrow> \<forall>t \<in> set ts. wf_tx t"
  by (auto simp: Push_def tryDeserialize_def Let_def split: if_splits dest: entryLoop_type)

text \<open>
  Property C37. Everything the decoder returns is well-formed, for arbitrary bytes and any decoder
  state: in each transaction of DecodeBatch, of DecodeConcatenated and of every push to the
  streaming decoder, at most 256 signatures of 64 bytes each, account keys, lookup keys and block
  hash of 32 bytes, every list shorter than 65536, no lookups in a legacy message, and a legacy
  header whose first byte has a clear version bit. Hence each returned transaction has a wire
  encoding, and decoding that encoding gives the transaction back.\<close>

theorem decoded_well_formed:
  assumes "DecodeBatch b = Inr ts \<and> t \<in> set ts \<or> t \<in> set (DecodeConcatenated b) \<or>
    Push d b = (d', Inr ts) \<and> t \<in> set ts"
  shows "wf_tx t \<and> decodeTransaction (enc_tx t @ c) = Complete (length (enc_tx t)) t"
proof -
  have "wf_tx t" using assms DecodeBatch_type DecodeConcatenated_type Push_type by blast
  then show ?thesis using decodeTransaction_enc by blast
qed

theorem decoded_well_formed_witness:
  "demo_tx \<in> set (DecodeConcatenated (enc_batch demo_batch)) \<and> wf_tx demo_tx"
proof -
  have "demo_tx \<in> set (DecodeConcatenated (enc_batch demo_batch))"
    using concatLoop_enc [of "[demo_batch]" "[]" "[]" "[]"] wf_demo_batch
    by (simp add: DecodeConcatenated_def demo_batch_def)
  then show ?thesis using decoded_well_formed [of "enc_batch demo_batch"] by blast
qed

end
