(* ===== verification/Delivered.thy ===== *)
theory Delivered
  imports Listener_Delivery Tx_Typing
begin

text \<open>
  What reaches a user of the library: every transaction the accumulator emits, the listener returns
  or keeps for later, and the iterator yields is well-formed and carries a signature. The first part
  follows the output list through the operations of \<^verbatim>\<open>src/accumulator.go\<close>, the second the results
  and kept batches through those of \<^verbatim>\<open>src/listener.go\<close>, up to all reachable states.
\<close>

section \<open>The output of the accumulator\<close>

definition deliverable :: "VersionedTransaction list \<Rightarrow> bool" where
  "deliverable out \<longleftrightarrow> (\<forall>t \<in> set out. wf_tx t \<and> Signatures t \<noteq> [])"

lemma deliverable_Nil [simp]: "deliverable []"
  by (simp add: deliverable_def)

lemma recordSig_signed: "recordSig t a = (True, b) \<Longrightarrow> Signatures t \<noteq> []"
  by (auto simp: recordSig_def)

lemma emitTxs_deliverable:
  "emitTxs txs a out = (b, out', n) \<Longrightarrow> \<forall>t \<in> set txs. wf_tx t \<Longrightarrow> deliverable out \<Longrightarrow> deliverable out'"
proof (induction txs arbitrary: a out n)
  case (Cons t txs)
  obtain new c where r: "recordSig t a = (new, c)" by fastforce
  show ?case
  proof (cases new)
    case True
    then have "deliverable (out @ [t])"
      using Cons.prems r recordSig_signed by (auto simp: deliverable_def)
    moreover obtain k where "emitTxs txs c (out @ [t]) = (b, out', k)"
      using Cons.prems(1) r True by (auto split: prod.splits)
    ultimately show ?thesis using Cons.IH Cons.prems(2) by simp
  next
    case False
    then show ?thesis using Cons.IH [of c out n] Cons.prems r by simp
  qed
qed simp

text \<open>Emission of a salvaged run, the step the two salvage loops share.\<close>

lemma emit_run_deliverable:
  "(if s \<noteq> [] then emitTxs (DecodeConcatenated s) a out else (a, out, 0)) = (b, out', n) \<Longrightarrow>
   deliverable out \<Longrightarrow> deliverable out'"
  using emitTxs_deliverable [of "DecodeConcatenated s" a out b out' n] DecodeConcatenated_type [of s]
  by (auto split: if_splits)

lemma salvageLoop_deliverable:
  "salvageLoop p c e a out n = (b, out', m) \<Longrightarrow> deliverable out \<Longrightarrow> deliverable out'"
proof (induction p c e a out n rule: salvageLoop.induct)
  case (1 p c e a out n)
  show ?case
  proof (cases "c \<le> e \<and> (\<exists>c1. skipMissing (pending a) c e = Some c1 \<and> \<not> e < c1)")
    case False
    then show ?thesis
      using "1.prems" by (subst (asm) salvageLoop.simps) (auto split: if_splits option.splits)
  next
    case True
    then obtain c1 where c1: "skipMissing (pending a) c e = Some c1" "\<not> e < c1" and le: "c \<le> e" by blast
    obtain c2 rd s where run: "collectRun p (pending a) c1 e [] = (c2, rd, s)" by (metis prod_cases3)
    obtain a1 out1 k where em:
      "(if s \<noteq> [] then emitTxs (DecodeConcatenated s) a out else (a, out, 0)) = (a1, out1, k)"
      by (metis prod_cases3)
    have step: "salvageLoop p c e a out n =
        (if rd then (a1, out1, n + k) else salvageLoop p c2 e a1 out1 (n + k))"
      using c1 le run em by (subst salvageLoop.simps) simp
    have d: "deliverable out1" by (rule emit_run_deliverable [OF em "1.prems"(2)])
    show ?thesis
    proof (cases rd)
      case True
      then show ?thesis using "1.prems" step d by simp
    next
      case False
      show ?thesis
        by (rule "1.IH" [OF le c1(1,2) run [symmetric] refl em [symmetric] refl False _ d])
          (use "1.prems" step False in simp)
    qed
  qed
qed

lemma salvageBatch_deliverable: "salvageBatch p s e a out = (b, out') \<Longrightarrow> deliverable out \<Longrightarrow> deliverable out'"
  by (auto simp: salvageBatch_def salvageContiguousRunsIn_def dest!: salvageLoop_deliverable
      split: prod.splits if_splits)

lemma decodeFlushed_deliverable: "decodeFlushed s a out = (b, out') \<Longrightarrow> deliverable out \<Longrightarrow> deliverable out'"
  using emitTxs_deliverable DecodeBatch_type
  by (fastforce simp: decodeFlushed_def split: sum.splits prod.splits if_splits)

lemma tailRuns_deliverable: "tailRuns p is a out = (b, out') \<Longrightarrow> deliverable out \<Longrightarrow> deliverable out'"
proof (induction p "is" a out rule: tailRuns.induct)
  case (2 p i "is" a out)
  obtain rest s where tr: "takeRun p (pending a) (i + 1) is
      (case map_of (pending a) i of None \<Rightarrow> [] | Some ps \<Rightarrow> payload_or_empty p ps) = (rest, s)" by fastforce
  obtain a1 out1 k where em:
    "(if s \<noteq> [] then emitTxs (DecodeConcatenated s) a out else (a, out, 0)) = (a1, out1, k)"
    by (metis prod_cases3)
  have "tailRuns p rest a1 out1 = (b, out')" using "2.prems"(1) tr em by simp
  from "2.IH" [OF tr [symmetric] em [symmetric] refl this emit_run_deliverable [OF em "2.prems"(2)]]
  show ?case .
qed simp

abbreviation out_state :: "acc_state \<Rightarrow> bool" where
  "out_state st \<equiv> deliverable (snd (snd st))"

lemma dropCorrupted_deliverable: "deliverable out \<Longrightarrow> out_state (dropCorrupted env ps a w out)"
  by (auto simp: dropCorrupted_def Let_def dest: salvageBatch_deliverable split: prod.splits)

lemma advanceRound_deliverable:
  assumes "out_state st" and "advanceRound env st = (again, st')"
  shows "out_state st'"
proof -
  obtain a w out where st: "st = (a, w, out)" by (metis prod_cases3)
  show ?thesis
  proof (cases "\<exists>ps h. map_of (pending a) (streamingCursor a) = Some ps \<and> source ps = PoolPayload h")
    case False
    then show ?thesis
      using assms st by (auto simp: advanceRound_def split: option.splits payloadSource.splits)
  next
    case True
    then obtain ps h where ps: "map_of (pending a) (streamingCursor a) = Some ps" "source ps = PoolPayload h"
      by blast
    show ?thesis
    proof (cases "pd_payload (w_pool w) ps")
      case None
      then show ?thesis using assms st ps dropCorrupted_deliverable by (auto simp: advanceRound_def)
    next
      case (Some pl)
      then show ?thesis
        using assms st ps
        by (auto simp: advanceRound_def Let_def dest: emitTxs_deliverable [OF _ Push_type]
            split: prod.splits sum.splits)
    qed
  qed
qed

lemma advanceStreaming_deliverable:
  assumes "advanceStreaming env a w out = Some st" and "deliverable out"
  shows "out_state st"
  by (rule go_loop_invariant [where I = out_state, OF assms(1) [unfolded advanceStreaming_def]])
    (use assms(2) advanceRound_deliverable in auto)

lemma flushRound_deliverable:
  assumes "out_state st" and "flushRound env st = Some (again, st')"
  shows "out_state st'"
proof -
  obtain a w out where st: "st = (a, w, out)" by (metis prod_cases3)
  show ?thesis
  proof (cases "smallestBatchCompleteIdxFrom (batchStart a) a")
    case None
    then show ?thesis using assms st by (auto simp: flushRound_def)
  next
    case (Some bt)
    obtain bcIdx t0 where bt: "bt = (bcIdx, t0)" by fastforce
    let ?start = "batchStart a" and ?ex = "unat (bcIdx - batchStart a) + 1"
    obtain a1 w1 where fill: "(if countPendingInRange a ?start bcIdx < ?ex
        then fillForFlush env ?start bcIdx a w else (a, w)) = (a1, w1)" by fastforce
    show ?thesis
      using assms st Some bt fill
      by (auto simp: flushRound_def Let_def bind_eq_Some_conv
          dest: salvageBatch_deliverable decodeFlushed_deliverable split: if_splits prod.splits)
  qed
qed

lemma tryFlushBatches_deliverable:
  assumes "tryFlushBatches env a w out = Some st" and "deliverable out"
  shows "out_state st"
  by (rule go_loop_invariant [where I = out_state, OF assms(1) [unfolded tryFlushBatches_def]])
    (use assms(2) flushRound_deliverable in auto)

lemma pushData_deliverable:
  assumes "pushData env index fec handle pEnd bc isLast a w = Some (b, v, out)"
  shows "deliverable out"
proof (cases "isLast \<or> index < batchStart a \<or> map_of (pending a) index \<noteq> None")
  case True
  then show ?thesis
    using assms by (auto simp: pushData_def dest: tryFlushBatches_deliverable split: if_splits)
next
  case False
  then obtain a1 w1 a2 w2 out2 a3 w3 out3 where adv: "advanceStreaming env a1 w1 [] = Some (a2, w2, out2)"
    and mid: "(if streamingCursor a2 \<le> index then
           (case tryFecFill env fec a2 w2 of
              (filled, a, w) \<Rightarrow> if filled then advanceStreaming env a w out2 else Some (a, w, out2))
         else Some (a2, w2, out2)) = Some (a3, w3, out3)"
    and fin: "tryFlushBatches env a3 w3 out3 = Some (b, v, out)"
    using assms unfolding pushData_def Let_def
    by (auto simp: bind_eq_Some_conv simp del: if_split split: prod.splits)
  have "deliverable out2" using advanceStreaming_deliverable [OF adv] by simp
  then have "deliverable out3"
    using mid by (auto dest: advanceStreaming_deliverable split: if_splits prod.splits)
  then show ?thesis using tryFlushBatches_deliverable [OF fin] by simp
qed

lemma pushCode_deliverable:
  assumes "pushCode env fecSetIndex numData numCoding position coded variant a w = Some (b, v, out)"
  shows "deliverable out"
proof -
  obtain filled a3 w3 a4 w4 out4 where
    mid: "(if filled then advanceStreaming env a3 w3 [] else Some (a3, w3, [])) = Some (a4, w4, out4)"
    and fin: "tryFlushBatches env a4 w4 out4 = Some (b, v, out)"
    using assms unfolding pushCode_def Let_def
    by (auto simp: bind_eq_Some_conv simp del: if_split split: prod.splits)
  have "deliverable out4" using mid by (auto dest: advanceStreaming_deliverable split: if_splits)
  then show ?thesis using tryFlushBatches_deliverable [OF fin] by simp
qed

lemma harvestBoundaries_deliverable:
  "harvestBoundaries env bs a w out = Some (b, v, out') \<Longrightarrow> deliverable out \<Longrightarrow> deliverable out'"
proof (induction bs arbitrary: a w out)
  case (Cons bcIdx bs)
  show ?case
  proof (cases "bcIdx < batchStart a")
    case True
    then show ?thesis using Cons by simp
  next
    case False
    then obtain a1 out1 where
      one: "(if contiguousRange a (batchStart a) bcIdx then
             Option.bind (gatherLoop (w_pool w) (pending a) (batchStart a) bcIdx []) (\<lambda>scratch.
               Some (decodeFlushed scratch a out))
           else Some (salvageBatch (w_pool w) (batchStart a) bcIdx a out)) = Some (a1, out1)"
      and nxt: "(case completeBatch env bcIdx a1 w of (a, w) \<Rightarrow> harvestBoundaries env bs a w out1)
          = Some (b, v, out')"
      using Cons.prems(1) by (auto simp: bind_eq_Some_conv Let_def simp del: if_split)
    have "deliverable out1"
      using one Cons.prems(2)
      by (auto simp: bind_eq_Some_conv dest: decodeFlushed_deliverable salvageBatch_deliverable split: if_splits)
    then show ?thesis using nxt Cons.IH by (auto split: prod.splits)
  qed
qed simp

lemma tryHarvestTail_deliverable:
  assumes "tryHarvestTail env a w = Some (b, v, out)"
  shows "deliverable out"
proof -
  obtain hints w0 where o: "order32 env (map fst (fecSets a)) w = (hints, w0)" by fastforce
  obtain a1 w1 where f: "fillAll env hints a w0 = (a1, w1)" by fastforce
  let ?bs = "sort (map fst (filter (\<lambda>(idx, ps). batchComplete ps \<and> idx \<ge> batchStart a1) (pending a1)))"
  obtain a2 w2 out2 where h: "harvestBoundaries env ?bs a1 w1 [] = Some (a2, w2, out2)"
    using assms o f by (auto simp: tryHarvestTail_def Let_def bind_eq_Some_conv)
  obtain a3 out3 where t: "tailRuns (w_pool w2) (sort (map fst (pending a2))) a2 out2 = (a3, out3)"
    by fastforce
  have "out = (if ac_disableSalvageDelivery a3 then [] else out3)"
    using assms o f h t by (auto simp: tryHarvestTail_def Let_def)
  then show ?thesis using tailRuns_deliverable [OF t harvestBoundaries_deliverable [OF h]] by simp
qed

section \<open>The listener\<close>

definition kept_ok :: "Listener \<Rightarrow> bool" where
  "kept_ok l \<longleftrightarrow> (\<forall>b \<in> set (pendingBatches l). sb_txs b \<noteq> [] \<and> deliverable (sb_txs b))"

fun result_ok :: "packet_result \<Rightarrow> bool" where
  "result_ok (slot, txs, hit) \<longleftrightarrow> (hit \<longleftrightarrow> txs \<noteq> []) \<and> deliverable txs"

lemma kept_ok_cong: "pendingBatches l = pendingBatches l' \<Longrightarrow> kept_ok l = kept_ok l'"
  by (simp add: kept_ok_def)

lemma kept_ok_simps [simp]:
  "kept_ok (bump f l) = kept_ok l" "kept_ok (l_pool_release h l) = kept_ok l" "kept_ok (putSlot s a w l) = kept_ok l"
  "kept_ok (l\<lparr>lastSlot := n\<rparr>) = kept_ok l" "kept_ok (l\<lparr>l_world := w\<rparr>) = kept_ok l"
  "kept_ok (l\<lparr>recentlySeenSlots := rs\<rparr>) = kept_ok l" "kept_ok (fail_iter e l) = kept_ok l"
  by (rule kept_ok_cong, simp add: bump_def l_pool_release_def putSlot_def fail_iter_def)+

lemma result_ok_simps [simp]:
  "result_ok no_result" "result_ok (hit_result slot txs) \<longleftrightarrow> deliverable txs"
  by (simp_all add: no_result_def hit_result_def)

lemma evictSlot_kept: "evictSlot env s l = Some l' \<Longrightarrow> kept_ok l \<Longrightarrow> kept_ok l'"
proof (cases "map_of (slots l) s")
  case (Some acc)
  assume e: "evictSlot env s l = Some l'" and k: "kept_ok l"
  from evictSlot_cases [OF e Some] obtain b v tail where h: "tryHarvestTail env acc (l_world l) = Some (b, v, tail)"
    and "pendingBatches l' = pendingBatches l @ (if tail = [] then [] else [\<lparr>sb_slot = s, sb_txs = tail\<rparr>])" by metis
  then show ?thesis using k tryHarvestTail_deliverable [OF h] by (auto simp: kept_ok_def)
qed (simp add: evictSlot_def)

lemma evictAll_kept: "evictAll env ss l = Some l' \<Longrightarrow> kept_ok l \<Longrightarrow> kept_ok l'"
  by (induction ss arbitrary: l) (auto simp: bind_eq_Some_conv dest: evictSlot_kept)

lemma evictOldSlots_kept: "evictOldSlots env l = Some l' \<Longrightarrow> kept_ok l \<Longrightarrow> kept_ok l'"
  by (auto simp: evictOldSlots_def Let_def bind_eq_Some_conv dest: evictAll_kept split: prod.splits)

lemma forceEvict_kept: "forceEvictOldestSlot env l = Some l' \<Longrightarrow> kept_ok l \<Longrightarrow> kept_ok l'"
  by (auto simp: forceEvictOldestSlot_def dest: evictSlot_kept split: option.splits)

lemma l_acquire_kept: "l_acquire l = Some (h, l') \<Longrightarrow> kept_ok l' = kept_ok l"
  by (auto simp: l_acquire_def)

lemma acquireBuffer_kept: "acquireBufferWithFallback env l = Some (ho, l') \<Longrightarrow> kept_ok l \<Longrightarrow> kept_ok l'"
  unfolding acquireBufferWithFallback_def
  by (auto simp: bind_eq_Some_conv l_acquire_kept dest!: evictOldSlots_kept forceEvict_kept split: option.splits)

lemma noteSlot_kept: "noteSlot env s l = Some l' \<Longrightarrow> kept_ok l \<Longrightarrow> kept_ok l'"
  by (auto simp: noteSlot_def dest: evictOldSlots_kept split: if_splits)

lemma handleData_kept:
  assumes "handleData env h d l = Some (r, l')" and "kept_ok l"
  shows "result_ok r \<and> kept_ok l'"
proof -
  obtain acc l0 where acc: "acceptSlot (ds_Slot d) l = (acc, l0)" by fastforce
  then have "kept_ok l0" using acceptSlot_cases(1) [OF acc] assms(2) by simp
  then show ?thesis
    using assms(1) acc
    by (cases acc) (auto simp: handleData_def Let_def bind_eq_Some_conv dest: noteSlot_kept pushData_deliverable
        split: if_splits)
qed

lemma handleCode_kept:
  assumes "handleCode env h c l = Some (r, l')" and "kept_ok l"
  shows "result_ok r \<and> kept_ok l'"
proof -
  obtain acc l0 where acc: "acceptSlot (cs_Slot c) l = (acc, l0)" by fastforce
  then have "kept_ok l0" using acceptSlot_cases(1) [OF acc] assms(2) by simp
  then show ?thesis
    using assms(1) acc
    by (cases acc) (auto simp: handleCode_def Let_def bind_eq_Some_conv dest: noteSlot_kept pushCode_deliverable
        split: if_splits)
qed

lemma handlePacketOwned_kept:
  assumes "handlePacketOwned env h l = Some (r, l')" and "kept_ok l"
  shows "result_ok r \<and> kept_ok l'"
proof (cases "ParseKind (Bytes (w_pool (l_world l)) (Some h))")
  case (Inl err)
  then show ?thesis using assms by (cases err) (auto simp: handlePacketOwned_def Let_def)
next
  case (Inr kd)
  then show ?thesis
    using assms by (cases kd) (auto simp: handlePacketOwned_def Let_def dest: handleData_kept handleCode_kept)
qed

lemma fillBuffer_kept: "fillBuffer h raw l = (h', l') \<Longrightarrow> kept_ok l' = kept_ok l"
  by (auto simp: fillBuffer_def Let_def)

lemma HandlePacket_kept:
  assumes "HandlePacket env raw l = Some (r, l')" and "kept_ok l"
  shows "result_ok r \<and> kept_ok l'"
proof -
  obtain ho l1 where a: "acquireBufferWithFallback env l = Some (ho, l1)"
    using assms(1) by (auto simp: HandlePacket_def handlePacketLocked_def bind_eq_Some_conv)
  have k: "kept_ok l1" by (rule acquireBuffer_kept [OF a assms(2)])
  show ?thesis
  proof (cases ho)
    case None
    then show ?thesis using assms(1) a k by (auto simp: HandlePacket_def handlePacketLocked_def)
  next
    case (Some h)
    obtain h2 l2 where f: "fillBuffer h raw l1 = (h2, l2)" by fastforce
    have "handlePacketOwned env h2 l2 = Some (r, l')"
      using assms(1) a Some f by (simp add: HandlePacket_def handlePacketLocked_def)
    then show ?thesis using handlePacketOwned_kept fillBuffer_kept [OF f] k by blast
  qed
qed

lemma recvBegin_kept:
  assumes "recvBegin env l = Some (st, l')" and "kept_ok l"
  shows "kept_ok l' \<and> (\<forall>b. st = KeptBatch b \<longrightarrow> sb_txs b \<noteq> [] \<and> deliverable (sb_txs b))"
proof (cases "pendingBatches l")
  case (Cons b bs)
  then show ?thesis using assms by (auto simp: recvBegin_def kept_ok_def)
next
  case Nil
  then show ?thesis
    using assms by (auto simp: recvBegin_def bind_eq_Some_conv dest: acquireBuffer_kept split: if_splits option.splits)
qed

lemma recvEnd_kept:
  assumes "recvEnd env h io l = Some (r, e, l')" and "kept_ok l"
  shows "result_ok r \<and> kept_ok l'"
proof (cases io)
  case (Datagram raw)
  obtain h1 l1 where f: "fillBuffer h raw l = (h1, l1)" by fastforce
  then have "handlePacketOwned env h1 l1 = Some (r, l')" using assms(1) Datagram by (auto simp: recvEnd_def)
  then show ?thesis using handlePacketOwned_kept fillBuffer_kept [OF f] assms(2) by blast
qed (use assms in \<open>auto simp: recvEnd_def\<close>)

lemma recvOne_kept:
  assumes "recvOne env ios l = Some (Inr (r, e, ios', l'))" and "kept_ok l"
  shows "result_ok r \<and> kept_ok l'"
proof -
  obtain st l1 where b: "recvBegin env l = Some (st, l1)"
    using assms(1) by (auto simp: recvOne_def bind_eq_Some_conv)
  note k = recvBegin_kept [OF b assms(2)]
  show ?thesis
    using assms(1) b k by (cases st; cases ios) (auto simp: recvOne_def dest: recvEnd_kept)
qed

lemma newListener_kept: "newListener opts = Some l \<Longrightarrow> kept_ok l"
  by (auto simp: newListener_def kept_ok_def split: option.splits)

lemma lstep_kept: "lstep env st st' \<Longrightarrow> kept_ok (fst st) \<Longrightarrow> kept_ok (fst st')"
  by (cases rule: lstep.cases) (auto dest: HandlePacket_kept recvBegin_kept recvEnd_kept)

lemma reachable_kept: "reachable env opts st \<Longrightarrow> kept_ok (fst st)"
proof (induction rule: reachable.induct)
  case (bound sys port tr l tr')
  obtain l0 bp where "newListener opts = Some l0" "l = l0\<lparr>hasSocket := True, busyPollActive := bp\<rparr>"
    using bound by (rule BindWithOptions_listener)
  then show ?case using newListener_kept [of opts l0] by (simp add: kept_ok_def)
next
  case (connected l)
  then obtain l0 where "newListener opts = Some l0" "l = l0\<lparr>hasSocket := True\<rparr>" by (auto simp: FromConn_def)
  then show ?case using newListener_kept [of opts l0] by (simp add: kept_ok_def)
qed (auto simp: OfflineWithOptions_def newListener_kept intro: lstep_kept)

section \<open>The iterator\<close>

lemma txTurn_kept:
  assumes "txTurn env ios it l = Some res" and "kept_ok l"
  shows "case res of
      Inl (Inr (ok, it', ios', l')) \<Rightarrow> kept_ok l' \<and> (ok \<longrightarrow> ti_txs it' \<noteq> [] \<and> deliverable (ti_txs it'))
    | Inl (Inl l') \<Rightarrow> True
    | Inr (ios', l') \<Rightarrow> kept_ok l'"
proof -
  obtain one where one: "recvOne env ios l = Some one" using assms(1) by (auto simp: txTurn_def)
  show ?thesis
  proof (cases one)
    case (Inl l1)
    then show ?thesis using assms one by (auto simp: txTurn_def)
  next
    case (Inr p)
    obtain slot txs ok err ios1 l1 where p: "p = ((slot, txs, ok), err, ios1, l1)" by (metis prod_cases3)
    note k = recvOne_kept [OF one [unfolded Inr p] assms(2)]
    show ?thesis using assms(1) one Inr p k by (cases err) (auto simp: txTurn_def split: if_splits)
  qed
qed

lemma txLoop_kept:
  "txLoop env cancelled k ios it l = Some (Inr (ok, it', ios', l')) \<Longrightarrow> kept_ok l \<Longrightarrow>
   kept_ok l' \<and> (ok \<longrightarrow> ti_txs it' \<noteq> [] \<and> deliverable (ti_txs it'))"
proof (induction env cancelled k ios it l rule: txLoop.induct)
  case (1 env cancelled k ios it l)
  show ?case
  proof (cases "cancelled k")
    case True
    then show ?thesis using "1.prems" by (subst (asm) txLoop.simps) auto
  next
    case False
    obtain t where t: "txTurn env ios it l = Some t"
      using "1.prems" False by (subst (asm) txLoop.simps) (auto split: option.splits)
    note turn = txTurn_kept [OF t "1.prems"(2)]
    show ?thesis
    proof (cases t)
      case (Inl res)
      then have "res = Inr (ok, it', ios', l')"
        using "1.prems" False t by (subst (asm) txLoop.simps) simp
      then show ?thesis using turn Inl by simp
    next
      case (Inr p)
      obtain ios1 l1 where p: "p = (ios1, l1)" by fastforce
      have "txLoop env cancelled (Suc k) ios1 it l1 = Some (Inr (ok, it', ios', l'))"
        using "1.prems" False t Inr p by (subst (asm) txLoop.simps) simp
      from "1.IH" [OF False t Inr p [symmetric] this] turn Inr p show ?thesis by simp
    qed
  qed
qed

lemma txNext_kept_ok:
  assumes "txNext env cancelled ios it l = Some (Inr (ok, it', ios', l'))" and "kept_ok l"
  shows "kept_ok l' \<and> (ok \<longrightarrow> ti_txs it' \<noteq> [] \<and> deliverable (ti_txs it'))"
  using assms by (auto simp: txNext_def dest: txLoop_kept split: if_splits)

text \<open>
  Property C9. Whatever arrives on the network, what a user receives is well-formed. In every
  reachable state, every transaction of a batch kept for delivery, returned by a packet handed in or
  yielded by a call of Next that returns true has at least one signature, 64-byte signatures, 32-byte
  keys and hash, and a wire encoding that decodes to it; and a packet that returns a transaction reports a
  hit. So the first signature may be read without a check.\<close>

theorem delivered_transactions:
  assumes "reachable env opts (l, hs)"
    and "t \<in> set txs"
    and "(\<exists>b \<in> set (pendingBatches l). txs = sb_txs b) \<or> HandlePacket env raw l = Some ((slot, txs, hit), l') \<or>
      txNext env cancelled ios it l = Some (Inr (True, it', ios', l')) \<and> txs = ti_txs it'"
  shows "wf_tx t \<and> (\<exists>sig sigs. Signatures t = sig # sigs \<and> length sig = 64) \<and>
    (HandlePacket env raw l = Some ((slot, txs, hit), l') \<longrightarrow> hit) \<and>
    decodeTransaction (enc_tx t) = Complete (length (enc_tx t)) t"
proof -
  have k: "kept_ok l" using reachable_kept [OF assms(1)] by simp
  then have "deliverable txs"
    using assms(3) HandlePacket_kept [OF _ k] txNext_kept_ok [OF _ k] by (force simp: kept_ok_def)
  then have t: "wf_tx t" "Signatures t \<noteq> []" using assms(2) by (auto simp: deliverable_def)
  then have "\<exists>sig sigs. Signatures t = sig # sigs \<and> length sig = 64"
    by (cases "Signatures t") (auto simp: wf_tx_def)
  moreover have "hit" if "HandlePacket env raw l = Some ((slot, txs, hit), l')"
    using HandlePacket_kept [OF that k] assms(2) by auto
  ultimately show ?thesis using t(1) decodeTransaction_enc [OF t(1), of "[]"] by auto
qed

text \<open>The first packet of a fresh listener opens its slot, as if the listener had already reached it.\<close>

definition opened :: "u64 \<Rightarrow> Listener \<Rightarrow> Listener" where
  "opened slot l = l\<lparr>lastSlot := slot, l_world := (l_world l)\<lparr>w_ticks := Suc (w_ticks (l_world l))\<rparr>\<rparr>"

lemma opened_fields [simp]:
  "slots (opened s l) = slots l" "recentlySeenSlots (opened s l) = recentlySeenSlots l" "lastSlot (opened s l) = s"
  "w_pool (l_world (opened s l)) = w_pool (l_world l)" "w_cache (l_world (opened s l)) = w_cache (l_world l)"
  "bump f (opened s l) = opened s (bump f l)"
  by (simp_all add: opened_def bump_def)

lemma noteSlot_opened:
  assumes "slots l = []" and "recentlySeenSlots l = []" and "lastSlot l < s"
  shows "noteSlot env s l = Some (opened s l)" "noteSlot env s (opened s l) = Some (opened s l)"
  using assms by (cases l; simp add: noteSlot_def evictOldSlots_def order64_def opened_def expired_def Let_def)+

lemma handleData_opened:
  assumes "slots l = []" and "recentlySeenSlots l = []" and "lastSlot l = 0" and "0 < ds_Slot d"
    and "ds_Slot d \<le> maxBootstrapSlot"
  shows "handleData env h d (opened (ds_Slot d) l) = handleData env h d l"
proof -
  have "\<not> ds_Slot d > maxPlausibleSlot"
    using assms(5) by (simp add: maxBootstrapSlot_def maxPlausibleSlot_def word_le_nat_alt word_less_nat_alt push_bit_eq_mult)
  then have "acceptSlot (ds_Slot d) l = (True, l)"
    "acceptSlot (ds_Slot d) (opened (ds_Slot d) l) = (True, opened (ds_Slot d) l)"
    using assms by (simp_all add: acceptSlot_def maxLiveSlots_def leD)
  then show ?thesis
    using assms noteSlot_opened [of "bump f l" "ds_Slot d" env for f] by (simp add: handleData_def Let_def)
qed

lemma HandlePacket_first:
  assumes "OfflineWithOptions opts = Some l" and "carries slot i bc c raw" and "0 < slot" and "slot \<le> maxBootstrapSlot"
  shows "HandlePacket env raw l = HandlePacket env raw (opened slot l)"
proof -
  have nl: "newListener opts = Some l" using assms(1) by (simp add: OfflineWithOptions_def)
  then obtain p where l: "slots l = []" "recentlySeenSlots l = []" "lastSlot l = 0"
    "newBufferPool (PoolSize opts) = Some p" "w_pool (l_world l) = p"
    by (auto simp: newListener_def split: option.splits)
  have ok: "buffers_ok {#} l" "slots_ok l" using newListener_ok [OF nl] by (simp_all add: system_ok_def)
  have "0 < PoolSize opts" using l(4) by (auto simp: newBufferPool_def split: if_splits)
  then have "acquire p \<noteq> None" using newBufferPool_ok [OF l(4)] by (auto simp: available_def acquire_def Let_def)
  then obtain h q where a: "acquire p = Some (h, q)" by auto
  let ?l1 = "l\<lparr>l_world := (l_world l)\<lparr>w_pool := q\<rparr>\<rparr>"
  have la: "l_acquire l = Some (h, ?l1)" "l_acquire (opened slot l) = Some (h, opened slot ?l1)"
    using a l(5) by (simp_all add: l_acquire_def opened_def)
  have b: "buffers_ok (add_mset (h_idx h) {#}) ?l1" "attached h" using l_acquire_ok [OF ok la(1)] by simp_all
  obtain h2 l2 where f: "fillBuffer h raw ?l1 = (h2, l2)" by fastforce
  note fo = fillBuffer_ok [OF b f]
  have f': "fillBuffer h raw (opened slot ?l1) = (h2, opened slot l2)"
    using f by (auto simp: fillBuffer_def opened_def Let_def)
  obtain d where d: "ParseKind (take BufferSize raw) = Inr (DataKind d)" "ds_Slot d = slot"
    using carriesE [OF assms(2)] by metis
  have "handlePacketOwned env h2 (opened slot l2) = handlePacketOwned env h2 l2"
    using fo(4) d handleData_opened [of "bump g l2" d env h2 for g] fo l assms(3,4)
    by (simp add: handlePacketOwned_def Let_def)
  then show ?thesis
    using la f f' by (simp add: HandlePacket_def handlePacketLocked_def acquireBufferWithFallback_def)
qed

lemma demo_delivery:
  obtains l l' where "OfflineWithOptions demo_options = Some l"
    "HandlePacket demo_env demo_wire l = Some ((7, [demo_tx], True), l')"
proof -
  obtain l where l: "OfflineWithOptions demo_options = Some l" "ready {#} 7 (l\<lparr>lastSlot := 7\<rparr>)"
    "at_batch_start 0 (slotAcc 7 (l\<lparr>lastSlot := 7\<rparr>))" "available (w_pool (l_world l)) = 2"
    by (rule demo_ready)
  let ?l = "opened 7 l"
  have b: "buffers_ok {#} ?l"
    using buffers_ok_cong [of ?l "l\<lparr>lastSlot := 7\<rparr>"] l(2) by (simp add: ready_def)
  have r: "ready {#} 7 ?l"
    using b l(2) slots_ok_cong [of ?l "l\<lparr>lastSlot := 7\<rparr>"] by (simp add: ready_def)
  have "slotAcc 7 ?l = slotAcc 7 (l\<lparr>lastSlot := 7\<rparr>)" by (simp add: slotAcc_def opened_def split: option.split)
  then have s: "at_batch_start 0 (slotAcc 7 ?l)" using l(3) by simp
  then have m: "mid_slot {#} 7 [] ?l" using r by (simp add: mid_slot_def mid_batch_def at_batch_start_def)
  obtain d where p: "Push NewStreamingDecoder (enc_batch demo_batch) = (d, Inr (batch_txs demo_batch))"
    using Push_batch [OF wf_demo_batch, of "[]"] by auto
  have "\<exists>l'. HandlePacket demo_env demo_wire ?l = Some (hit_result 7 (fresh [] (batch_txs demo_batch)), l')"
    using packet_last [OF demo_env_fair m, of "enc_batch demo_batch" demo_wire d "batch_txs demo_batch" "batch_txs demo_batch"]
      s p l(4) demo_carries DecodeBatch_enc [OF wf_demo_batch, of "[]"] fresh_seen [of "batch_txs demo_batch" "batch_txs demo_batch" "[]"]
    by (auto simp: at_batch_start_def)
  moreover have "HandlePacket demo_env demo_wire l = HandlePacket demo_env demo_wire ?l"
    by (rule HandlePacket_first [OF l(1) demo_carries]) (simp_all add: maxBootstrapSlot_def)
  ultimately show ?thesis using that l(1) fresh_demo by (auto simp: hit_result_def)
qed

theorem delivered_transactions_witness:
  "\<exists>l l'. reachable demo_env demo_options (l, []) \<and>
     HandlePacket demo_env demo_wire l = Some ((7, [demo_tx], True), l') \<and> Signatures demo_tx \<noteq> []"
proof -
  obtain l l' where l: "OfflineWithOptions demo_options = Some l"
    "HandlePacket demo_env demo_wire l = Some ((7, [demo_tx], True), l')" by (rule demo_delivery)
  have "reachable demo_env demo_options (l, [])" by (rule reachable.offline [OF l(1)])
  from delivered_transactions [OF this, of demo_tx "[demo_tx]"] l this show ?thesis by fastforce
qed

end
