(* ===== verification/Pumpfun.thy ===== *)
theory Pumpfun
  imports Tx_Encoding
begin

text \<open>
  The detector of token creations of the example \<^verbatim>\<open>src/examples/pumpfun_creates/main.go\<close>. The
  base58 encoding comes from a third-party package: it is the parameter \<open>enc58\<close>, of which nothing is
  assumed. The bytes of the program id, which the example decodes with the same package, are an
  argument as in the source.
\<close>

section \<open>Definitions\<close>

definition createDisc :: "byte list" where
  "createDisc = [24, 30, 200, 40, 5, 28, 7, 119]"

definition createV2Disc :: "byte list" where
  "createV2Disc = [214, 144, 76, 236, 95, 139, 49, 180]"

record pumpfunCreate =
  mint :: string
  bondingCurve :: string
  creator :: string

text \<open>The closure \<^verbatim>\<open>resolve\<close>: the key of the instruction's account \<open>idx\<close>, or the empty string.\<close>

definition resolve :: "(byte list \<Rightarrow> string) \<Rightarrow> Pubkey list \<Rightarrow> CompiledInstruction \<Rightarrow> nat \<Rightarrow> string" where
  "resolve enc58 keys ix idx =
     (if idx \<ge> length (Accounts ix) then []
      else (let k = unat (Accounts ix ! idx) in
        if k \<ge> length keys then [] else enc58 (keys ! k)))"

fun detectIn :: "(byte list \<Rightarrow> string) \<Rightarrow> byte list \<Rightarrow> Pubkey list \<Rightarrow> CompiledInstruction list
    \<Rightarrow> pumpfunCreate option" where
  "detectIn enc58 programID keys [] = None"
| "detectIn enc58 programID keys (ix # ixs) =
     (if unat (ProgramIDIndex ix) \<ge> length keys then detectIn enc58 programID keys ixs
      else if keys ! unat (ProgramIDIndex ix) \<noteq> programID then detectIn enc58 programID keys ixs
      else if length (Data ix) < 8 then detectIn enc58 programID keys ixs
      else
        (let disc = take 8 (Data ix);
             isCreate = (disc = createDisc);
             isV2 = (disc = createV2Disc) in
         if \<not> isCreate \<and> \<not> isV2 then detectIn enc58 programID keys ixs
         else
           (let creatorIdx = (if isV2 then 5 else 7) in
            Some \<lparr>mint = resolve enc58 keys ix 0, bondingCurve = resolve enc58 keys ix 2,
                  creator = resolve enc58 keys ix creatorIdx\<rparr>)))"

definition detectCreate :: "(byte list \<Rightarrow> string) \<Rightarrow> VersionedTransaction \<Rightarrow> byte list \<Rightarrow> pumpfunCreate option" where
  "detectCreate enc58 tx programID =
     detectIn enc58 programID (AccountKeys (Message tx)) (Instructions (Message tx))"

section \<open>What is detected\<close>

text \<open>An instruction of the program that starts with one of the two discriminators.\<close>

definition is_create :: "byte list \<Rightarrow> Pubkey list \<Rightarrow> CompiledInstruction \<Rightarrow> bool" where
  "is_create programID keys ix \<longleftrightarrow>
     unat (ProgramIDIndex ix) < length keys \<and> keys ! unat (ProgramIDIndex ix) = programID \<and>
     (\<exists>rest. Data ix = createDisc @ rest \<or> Data ix = createV2Disc @ rest)"

lemma disc_lengths: "length createDisc = 8" "length createV2Disc = 8" "createDisc \<noteq> createV2Disc"
  by (simp_all add: createDisc_def createV2Disc_def)

lemma starts_with: "(\<exists>rest. xs = p @ rest) \<longleftrightarrow> length p \<le> length xs \<and> take (length p) xs = p"
  by (metis append_eq_conv_conj append_take_drop_id length_append le_add1)

lemma is_create_iff:
  "is_create programID keys ix \<longleftrightarrow>
     unat (ProgramIDIndex ix) < length keys \<and> keys ! unat (ProgramIDIndex ix) = programID \<and>
     8 \<le> length (Data ix) \<and> (take 8 (Data ix) = createDisc \<or> take 8 (Data ix) = createV2Disc)"
  using starts_with [of "Data ix" createDisc] starts_with [of "Data ix" createV2Disc]
  by (auto simp: is_create_def disc_lengths)

definition create_of :: "(byte list \<Rightarrow> string) \<Rightarrow> Pubkey list \<Rightarrow> CompiledInstruction \<Rightarrow> pumpfunCreate" where
  "create_of enc58 keys ix =
     \<lparr>mint = resolve enc58 keys ix 0, bondingCurve = resolve enc58 keys ix 2,
      creator = resolve enc58 keys ix (if take 8 (Data ix) = createV2Disc then 5 else 7)\<rparr>"

lemma detectIn_step:
  "detectIn enc58 programID keys (ix # ixs) =
     (if is_create programID keys ix then Some (create_of enc58 keys ix) else detectIn enc58 programID keys ixs)"
  by (auto simp: is_create_iff create_of_def Let_def not_le not_less)

declare detectIn.simps(2) [simp del]

lemma detectIn_find:
  "detectIn enc58 programID keys ixs = map_option (create_of enc58 keys) (find (is_create programID keys) ixs)"
  by (induction ixs) (simp_all add: detectIn_step)

text \<open>
  Property C36. The creation detector reports exactly the first instruction of the transaction that
  belongs to the program and starts with the create or the create-v2 discriminator; nothing is reported
  exactly when there is none. The reported accounts are those at positions 0, 2 and 7, or 5 in
  the second version, and a position outside the instruction's accounts or the message's keys gives
  the empty string; no index is ever out of range, whatever the transaction is.\<close>

theorem detectCreate_first:
  "detectCreate enc58 tx programID =
     (case find (is_create programID (AccountKeys (Message tx))) (Instructions (Message tx)) of
        None \<Rightarrow> None
      | Some ix \<Rightarrow>
         (let keys = AccountKeys (Message tx);
              account = (\<lambda>i. if i < length (Accounts ix) \<and> unat (Accounts ix ! i) < length keys
                             then enc58 (keys ! unat (Accounts ix ! i)) else []);
              v2 = (\<exists>rest. Data ix = createV2Disc @ rest) in
          Some \<lparr>mint = account 0, bondingCurve = account 2, creator = account (if v2 then 5 else 7)\<rparr>))"
proof (cases "find (is_create programID (AccountKeys (Message tx))) (Instructions (Message tx))")
  case None
  then show ?thesis by (simp add: detectCreate_def detectIn_find)
next
  case (Some ix)
  let ?keys = "AccountKeys (Message tx)"
  have acc: "resolve enc58 ?keys ix i = (if i < length (Accounts ix) \<and> unat (Accounts ix ! i) < length ?keys
      then enc58 (?keys ! unat (Accounts ix ! i)) else [])" for i
    by (auto simp: resolve_def Let_def)
  have "is_create programID ?keys ix" using Some by (auto simp: find_Some_iff)
  then have "take 8 (Data ix) = createV2Disc \<longleftrightarrow> (\<exists>rest. Data ix = createV2Disc @ rest)"
    using starts_with [of "Data ix" createV2Disc] by (auto simp: is_create_iff disc_lengths)
  then show ?thesis using Some by (simp add: detectCreate_def detectIn_find create_of_def acc Let_def)
qed

end
