(* ===== verification/Iterator.thy ===== *)
theory Iterator
  imports Listener_Delivery
begin

text \<open>
  The transaction iterator of \<^verbatim>\<open>src/listener.go\<close>: exactly when a call of \<^verbatim>\<open>Next\<close> returns, with what
  result, and which input errors it survives.
\<close>

section \<open>Recoverable errors\<close>

lemma contains_iff: "contains s sub \<longleftrightarrow> (\<exists>p q. s = p @ sub @ q)"
proof (induction s)
  case (Cons c cs)
  have "take (length sub) (c # cs) = sub \<longleftrightarrow> (\<exists>q. c # cs = sub @ q)"
    by (metis append_eq_conv_conj append_take_drop_id)
  moreover have "(\<exists>p q. c # cs = p @ sub @ q) \<longleftrightarrow> (\<exists>q. c # cs = sub @ q) \<or> (\<exists>p q. cs = p @ sub @ q)"
  proof
    assume "\<exists>p q. c # cs = p @ sub @ q"
    then obtain p q where "c # cs = p @ sub @ q" by blast
    then show "(\<exists>q. c # cs = sub @ q) \<or> (\<exists>p q. cs = p @ sub @ q)" by (cases p) auto
  next
    assume "(\<exists>q. c # cs = sub @ q) \<or> (\<exists>p q. cs = p @ sub @ q)"
    then show "\<exists>p q. c # cs = p @ sub @ q" by (metis append_Cons append_Nil)
  qed
  ultimately show ?case using Cons.IH by simp
qed simp

section \<open>Turns without a result\<close>

text \<open>
  A turn of the loop that neither yields a batch nor ends the iterator: a packet that completes nothing, or an
  error that is recoverable. \<open>idles\<close> is any number of such turns, each after a check of the context that
  finds it not cancelled; the numbers are those of the next check.
\<close>

definition idle_turn :: "environ \<Rightarrow> io_result list \<times> Listener \<Rightarrow> io_result list \<times> Listener \<Rightarrow> bool" where
  "idle_turn env s s' \<longleftrightarrow>
     (\<exists>slot txs ok err. recvOne env (fst s) (snd s) = Some (Inr ((slot, txs, ok), err, fst s', snd s')) \<and>
        (case err of None \<Rightarrow> \<not> ok | Some e \<Rightarrow> isRecoverableIOError e))"

inductive idles :: "environ \<Rightarrow> (nat \<Rightarrow> bool) \<Rightarrow> nat \<Rightarrow> io_result list \<times> Listener \<Rightarrow> nat \<Rightarrow> io_result list \<times> Listener \<Rightarrow> bool"
  for env cancelled where
  none: "idles env cancelled k s k s"
| turn: "\<not> cancelled k \<Longrightarrow> idle_turn env s s' \<Longrightarrow> idles env cancelled (Suc k) s' k' s'' \<Longrightarrow> idles env cancelled k s k' s''"

lemma txTurn_idle: "txTurn env (fst s) it (snd s) = Some (Inr s') \<longleftrightarrow> idle_turn env s s'"
proof (cases "recvOne env (fst s) (snd s)")
  case (Some res)
  show ?thesis
  proof (cases res)
    case (Inr p)
    obtain slot txs ok err ios1 l1 where "p = ((slot, txs, ok), err, ios1, l1)" by (metis prod_cases3)
    then show ?thesis using Some Inr by (cases err; cases s') (auto simp: txTurn_def idle_turn_def)
  qed (use Some in \<open>simp add: txTurn_def idle_turn_def\<close>)
qed (simp add: txTurn_def idle_turn_def)

lemma txLoop_idles: "idles env cancelled k s k' s' \<Longrightarrow>
    txLoop env cancelled k (fst s) it (snd s) = txLoop env cancelled k' (fst s') it (snd s')"
proof (induction rule: idles.induct)
  case (turn k s s' k' s'')
  have "txTurn env (fst s) it (snd s) = Some (Inr s')" using turn.hyps(2) by (simp add: txTurn_idle)
  then show ?case using turn.hyps(1) turn.IH by (subst txLoop.simps) (cases s', simp)
qed simp

text \<open>What ends the loop: a cancelled context, or a turn with a result.\<close>

definition stopped :: "environ \<Rightarrow> (nat \<Rightarrow> bool) \<Rightarrow> nat \<Rightarrow> io_result list \<times> Listener \<Rightarrow> bool" where
  "stopped env cancelled k s \<longleftrightarrow> cancelled k \<or> (\<nexists>s'. idle_turn env s s')"

lemma idles_stop: "\<exists>k' s'. idles env cancelled k s k' s' \<and> stopped env cancelled k' s'"
proof (induction "length (fst s)" arbitrary: k s rule: less_induct)
  case less
  show ?case
  proof (cases "stopped env cancelled k s")
    case True
    then show ?thesis using idles.none by blast
  next
    case False
    then obtain s1 where s1: "\<not> cancelled k" "idle_turn env s s1" by (auto simp: stopped_def)
    then have "length (fst s1) < length (fst s)"
      using txTurn_consumes [of env "fst s" Transactions "snd s" "fst s1" "snd s1"] txTurn_idle [of env s _ s1] by simp
    from less [OF this, of "Suc k"] s1 show ?thesis using idles.turn by blast
  qed
qed

lemma stopped_result:
  assumes "stopped env cancelled k (ios, l)" and "\<not> cancelled k"
    and "recvOne env ios l = Some (Inr ((slot, txs, ok), err, ios1, l1))"
  shows "case err of None \<Rightarrow> ok | Some e \<Rightarrow> \<not> isRecoverableIOError e"
proof -
  have "\<not> idle_turn env (ios, l) (ios1, l1)" using assms(1,2) by (auto simp: stopped_def)
  then show ?thesis using assms(3) by (auto simp: idle_turn_def split: option.splits)
qed

lemma txLoop_cancelled: "cancelled k \<Longrightarrow> txLoop env cancelled k ios it l = Some (Inr (False, it\<lparr>ti_done := True\<rparr>, ios, l))"
  by (simp add: txLoop.simps)

lemma txLoop_fatal:
  assumes "\<not> cancelled k" and "recvOne env ios l = Some (Inr (r, Some e, ios', l'))" and "\<not> isRecoverableIOError e"
  shows "txLoop env cancelled k ios it l =
    Some (Inr (False, it\<lparr>ti_err := Some e, ti_done := True\<rparr>, ios', l'\<lparr>lastIOErrKind := ioe_msg e\<rparr>))"
  using assms by (cases r) (simp add: txLoop.simps txTurn_def fail_iter_def)

lemma txLoop_batch:
  assumes "\<not> cancelled k" and "recvOne env ios l = Some (Inr ((slot, txs, True), None, ios', l'))"
  shows "txLoop env cancelled k ios it l = Some (Inr (True, it\<lparr>ti_slot := slot, ti_txs := txs\<rparr>, ios', l'))"
  using assms by (simp add: txLoop.simps txTurn_def)

lemma txLoop_none: "\<not> cancelled k \<Longrightarrow> recvOne env ios l = None \<Longrightarrow> txLoop env cancelled k ios it l = None"
  by (simp add: txLoop.simps txTurn_def)

lemma txLoop_waits: "\<not> cancelled k \<Longrightarrow> recvOne env ios l = Some (Inl l') \<Longrightarrow> txLoop env cancelled k ios it l = Some (Inl l')"
  by (simp add: txLoop.simps txTurn_def)

text \<open>The five ways a call goes, after the turns that yield nothing.\<close>

lemma txNext_cases:
  assumes "\<not> ti_done it"
  obtains k ios1 l1 where "idles env cancelled 0 (ios, l) k (ios1, l1)" "cancelled k"
      "txNext env cancelled ios it l = Some (Inr (False, it\<lparr>ti_done := True\<rparr>, ios1, l1))"
    | k ios1 l1 r e ios2 l2 where "idles env cancelled 0 (ios, l) k (ios1, l1)" "\<not> cancelled k"
      "recvOne env ios1 l1 = Some (Inr (r, Some e, ios2, l2))" "\<not> isRecoverableIOError e"
      "txNext env cancelled ios it l =
        Some (Inr (False, it\<lparr>ti_err := Some e, ti_done := True\<rparr>, ios2, l2\<lparr>lastIOErrKind := ioe_msg e\<rparr>))"
    | k ios1 l1 slot txs ios2 l2 where "idles env cancelled 0 (ios, l) k (ios1, l1)" "\<not> cancelled k"
      "recvOne env ios1 l1 = Some (Inr ((slot, txs, True), None, ios2, l2))"
      "txNext env cancelled ios it l = Some (Inr (True, it\<lparr>ti_slot := slot, ti_txs := txs\<rparr>, ios2, l2))"
    | "txNext env cancelled ios it l = None"
    | l1 where "txNext env cancelled ios it l = Some (Inl l1)"
proof -
  obtain k ios1 l1 where stop: "idles env cancelled 0 (ios, l) k (ios1, l1)" "stopped env cancelled k (ios1, l1)"
    using idles_stop [of env cancelled 0 "(ios, l)"] by auto
  have go: "txNext env cancelled ios it l = txLoop env cancelled k ios1 it l1"
    using txLoop_idles [OF stop(1), of it] assms by (simp add: txNext_def)
  show ?thesis
  proof (cases "cancelled k")
    case True
    then show ?thesis using that(1) [OF stop(1)] go txLoop_cancelled by simp
  next
    case False
    consider "recvOne env ios1 l1 = None" | l2 where "recvOne env ios1 l1 = Some (Inl l2)"
      | slot txs ok err ios2 l2 where "recvOne env ios1 l1 = Some (Inr ((slot, txs, ok), err, ios2, l2))"
      by (cases "recvOne env ios1 l1") (auto, metis prod_cases3 sum.exhaust)
    then show ?thesis
    proof cases
      case 1
      then show ?thesis using that(4) go txLoop_none [of cancelled k, OF False] by simp
    next
      case 2
      then show ?thesis using that(5) go txLoop_waits [of cancelled k, OF False] by simp
    next
      case 3
      show ?thesis
      proof (cases err)
        case None
        then have r: "recvOne env ios1 l1 = Some (Inr ((slot, txs, True), None, ios2, l2))"
          using stopped_result [OF stop(2) False 3] 3 by simp
        show ?thesis using that(3) [OF stop(1) False r] go txLoop_batch [of cancelled k, OF False r] by simp
      next
        case (Some e)
        then have r: "recvOne env ios1 l1 = Some (Inr ((slot, txs, ok), Some e, ios2, l2))" "\<not> isRecoverableIOError e"
          using stopped_result [OF stop(2) False 3] 3 by simp_all
        show ?thesis using that(2) [OF stop(1) False r] go txLoop_fatal [of cancelled k, OF False r] by simp
      qed
    qed
  qed
qed

lemma txNext_idles:
  assumes "\<not> ti_done it" and "idles env cancelled 0 (ios, l) k (ios1, l1)"
  shows "txNext env cancelled ios it l = txLoop env cancelled k ios1 it l1"
  using txLoop_idles [OF assms(2), of it] assms(1) by (simp add: txNext_def)

lemma txNext_kept:
  assumes "\<not> ti_done it" and "\<not> cancelled 0" and "pendingBatches l = b # bs"
  shows "txNext env cancelled ios it l =
    Some (Inr (True, it\<lparr>ti_slot := sb_slot b, ti_txs := sb_txs b\<rparr>, ios, l\<lparr>pendingBatches := bs\<rparr>))"
  using assms by (simp add: txNext_def txLoop.simps txTurn_def recvOne_def recvBegin_def)

text \<open>
  Property C35. Exactly when and how a call of Next ends. After any number of turns that yield nothing,
  each following a check that finds the context not cancelled, Next returns false if and only if the next
  check finds it cancelled, and then nothing but the end of the iterator is recorded, or the next
  read fails with an error that is not recoverable, which iterator and listener both record. It returns
  true if and only if the context is not cancelled at the next check and the next turn yields a batch,
  which becomes the current one. Recoverable are exactly timeouts, EINTR, EAGAIN, exceeded deadlines
  and the errors whose text contains one of three phrases. A finished iterator stays finished and
  touches neither the socket nor the listener. A batch kept from an evicted slot is delivered first,
  without reading from the socket.\<close>

theorem iterator_outcomes:
  assumes "\<not> ti_done it"
  shows "(txNext env cancelled ios it l = Some (Inr (False, it', ios', l')) \<longleftrightarrow>
      (\<exists>k ios1 l1. idles env cancelled 0 (ios, l) k (ios1, l1) \<and>
        (cancelled k \<and> it' = it\<lparr>ti_done := True\<rparr> \<and> ios' = ios1 \<and> l' = l1 \<or>
         \<not> cancelled k \<and> (\<exists>r e l2. recvOne env ios1 l1 = Some (Inr (r, Some e, ios', l2)) \<and>
           \<not> isRecoverableIOError e \<and> it' = it\<lparr>ti_err := Some e, ti_done := True\<rparr> \<and>
           l' = l2\<lparr>lastIOErrKind := ioe_msg e\<rparr>)))) \<and>
    (txNext env cancelled ios it l = Some (Inr (True, it', ios', l')) \<longleftrightarrow>
      (\<exists>k ios1 l1 slot txs. idles env cancelled 0 (ios, l) k (ios1, l1) \<and> \<not> cancelled k \<and>
        recvOne env ios1 l1 = Some (Inr ((slot, txs, True), None, ios', l')) \<and>
        it' = it\<lparr>ti_slot := slot, ti_txs := txs\<rparr>)) \<and>
    (isRecoverableIOError e \<longleftrightarrow> ioe_timeout e \<or> ioe_eintr e \<or> ioe_eagain e \<or> ioe_deadline e \<or>
      (\<exists>p q. ioe_msg e = p @ ''would block'' @ q \<or> ioe_msg e = p @ ''interrupted'' @ q \<or>
        ioe_msg e = p @ ''timed out'' @ q)) \<and>
    (ti_done j \<longrightarrow> txNext env cancelled ios j l = Some (Inr (False, j, ios, l))) \<and>
    (\<not> cancelled 0 \<and> pendingBatches l = b # bs \<longrightarrow> txNext env cancelled ios it l =
      Some (Inr (True, it\<lparr>ti_slot := sb_slot b, ti_txs := sb_txs b\<rparr>, ios, l\<lparr>pendingBatches := bs\<rparr>)))"
proof (intro conjI)
  show "txNext env cancelled ios it l = Some (Inr (False, it', ios', l')) \<longleftrightarrow>
      (\<exists>k ios1 l1. idles env cancelled 0 (ios, l) k (ios1, l1) \<and>
        (cancelled k \<and> it' = it\<lparr>ti_done := True\<rparr> \<and> ios' = ios1 \<and> l' = l1 \<or>
         \<not> cancelled k \<and> (\<exists>r e l2. recvOne env ios1 l1 = Some (Inr (r, Some e, ios', l2)) \<and>
           \<not> isRecoverableIOError e \<and> it' = it\<lparr>ti_err := Some e, ti_done := True\<rparr> \<and>
           l' = l2\<lparr>lastIOErrKind := ioe_msg e\<rparr>)))" (is "_ \<longleftrightarrow> ?R")
  proof
    assume f: "txNext env cancelled ios it l = Some (Inr (False, it', ios', l'))"
    show ?R
    proof (cases rule: txNext_cases [OF assms, of env cancelled ios l])
      case (1 k ios1 l1)
      then show ?R using f by auto
    next
      case (2 k ios1 l1 r e ios2 l2)
      then have "it' = it\<lparr>ti_err := Some e, ti_done := True\<rparr>" "ios' = ios2" "l' = l2\<lparr>lastIOErrKind := ioe_msg e\<rparr>"
        using f by simp_all
      then show ?R using 2(1-4) by blast
    qed (use f in auto)
  next
    assume ?R
    then show "txNext env cancelled ios it l = Some (Inr (False, it', ios', l'))"
      using txNext_idles [OF assms] txLoop_cancelled txLoop_fatal by metis
  qed
  show "txNext env cancelled ios it l = Some (Inr (True, it', ios', l')) \<longleftrightarrow>
      (\<exists>k ios1 l1 slot txs. idles env cancelled 0 (ios, l) k (ios1, l1) \<and> \<not> cancelled k \<and>
        recvOne env ios1 l1 = Some (Inr ((slot, txs, True), None, ios', l')) \<and>
        it' = it\<lparr>ti_slot := slot, ti_txs := txs\<rparr>)" (is "_ \<longleftrightarrow> ?R")
  proof
    assume t: "txNext env cancelled ios it l = Some (Inr (True, it', ios', l'))"
    show ?R
    proof (cases rule: txNext_cases [OF assms, of env cancelled ios l])
      case (3 k ios1 l1 slot txs ios2 l2)
      then have "it' = it\<lparr>ti_slot := slot, ti_txs := txs\<rparr>" "ios' = ios2" "l' = l2" using t by simp_all
      then show ?R using 3(1-3) by blast
    qed (use t in auto)
  next
    assume ?R
    then show "txNext env cancelled ios it l = Some (Inr (True, it', ios', l'))"
      using txNext_idles [OF assms] txLoop_batch by metis
  qed
  show "isRecoverableIOError e \<longleftrightarrow> ioe_timeout e \<or> ioe_eintr e \<or> ioe_eagain e \<or> ioe_deadline e \<or>
      (\<exists>p q. ioe_msg e = p @ ''would block'' @ q \<or> ioe_msg e = p @ ''interrupted'' @ q \<or>
        ioe_msg e = p @ ''timed out'' @ q)"
    unfolding isRecoverableIOError_def contains_iff by blast
  show "ti_done j \<longrightarrow> txNext env cancelled ios j l = Some (Inr (False, j, ios, l))" by (simp add: txNext_def)
  show "\<not> cancelled 0 \<and> pendingBatches l = b # bs \<longrightarrow> txNext env cancelled ios it l =
      Some (Inr (True, it\<lparr>ti_slot := sb_slot b, ti_txs := sb_txs b\<rparr>, ios, l\<lparr>pendingBatches := bs\<rparr>))"
    using txNext_kept [OF assms] by blast
qed

section \<open>Reads that fail\<close>

lemma recvOne_fails:
  assumes "pendingBatches l = []" and "hasSocket l" and "l_acquire l \<noteq> None"
  shows "\<exists>l'. recvOne env (IoError e # ios) l = Some (Inr (no_result, Some e, ios, l')) \<and>
    pendingBatches l' = [] \<and> hasSocket l' \<and> l_acquire l' \<noteq> None"
proof -
  obtain h p where a: "acquire (w_pool (l_world l)) = Some (h, p)" using assms(3) by (auto simp: l_acquire_def)
  then have "attached h" by (auto simp: acquire_def Let_def split: if_splits)
  let ?l = "l\<lparr>l_world := (l_world l)\<lparr>w_pool := p\<rparr>\<rparr>"
  have "recvOne env (IoError e # ios) l = Some (Inr (no_result, Some e, ios, l_pool_release h ?l))"
    using assms(1,2) a by (simp add: recvOne_def recvBegin_def acquireBufferWithFallback_def l_acquire_def recvEnd_def)
  moreover have "l_acquire (l_pool_release h ?l) \<noteq> None"
    using \<open>attached h\<close> by (simp add: l_acquire_def l_pool_release_def release_handle_def Release_def pool_release_def acquire_def Let_def)
  ultimately show ?thesis using assms(1,2) by (simp add: l_pool_release_def)
qed

definition demo_timeout :: io_error where
  "demo_timeout = \<lparr>ioe_timeout = True, ioe_eintr = False, ioe_eagain = False, ioe_deadline = False, ioe_msg = ''i/o timeout''\<rparr>"

definition demo_closed :: io_error where
  "demo_closed = \<lparr>ioe_timeout = False, ioe_eintr = False, ioe_eagain = False, ioe_deadline = False, ioe_msg = ''closed''\<rparr>"

text \<open>
  A timeout is survived. Then a cancelled context ends the iterator without an error, and a closed socket with one.
\<close>

theorem iterator_outcomes_witness:
  "\<exists>l ios1 l1 l2. FromConn demo_options = Some l \<and>
     txNext demo_env (\<lambda>k. k = 1) [IoError demo_timeout, IoError demo_closed] Transactions l =
       Some (Inr (False, Transactions\<lparr>ti_done := True\<rparr>, ios1, l1)) \<and>
     txNext demo_env (\<lambda>_. False) [IoError demo_timeout, IoError demo_closed] Transactions l =
       Some (Inr (False, Transactions\<lparr>ti_err := Some demo_closed, ti_done := True\<rparr>, [], l2))"
proof -
  obtain l where l: "FromConn demo_options = Some l" "l_acquire l \<noteq> None" "pendingBatches l = []" "hasSocket l"
    by (rule demo_listener)
  from recvOne_fails [OF l(3,4,2), of demo_env demo_timeout "[IoError demo_closed]"] obtain l1 where
    r1: "recvOne demo_env [IoError demo_timeout, IoError demo_closed] l = Some (Inr (no_result, Some demo_timeout, [IoError demo_closed], l1))"
    and l1: "pendingBatches l1 = []" "hasSocket l1" "l_acquire l1 \<noteq> None" by blast
  from recvOne_fails [OF l1, of demo_env demo_closed "[]"] obtain l2 where
    r2: "recvOne demo_env [IoError demo_closed] l1 = Some (Inr (no_result, Some demo_closed, [], l2))" by blast
  have t: "isRecoverableIOError demo_timeout" "\<not> isRecoverableIOError demo_closed" "\<not> ti_done Transactions"
    by (simp_all add: isRecoverableIOError_def demo_timeout_def demo_closed_def Transactions_def)
  have i: "idles demo_env c 0 ([IoError demo_timeout, IoError demo_closed], l) 1 ([IoError demo_closed], l1)" if "\<not> c 0" for c
  proof -
    have "idle_turn demo_env ([IoError demo_timeout, IoError demo_closed], l) ([IoError demo_closed], l1)"
      using r1 t(1) by (auto simp: idle_turn_def no_result_def)
    from idles.turn [of c, OF that this idles.none] show ?thesis by simp
  qed
  have "txNext demo_env (\<lambda>k. k = 1) [IoError demo_timeout, IoError demo_closed] Transactions l =
       Some (Inr (False, Transactions\<lparr>ti_done := True\<rparr>, [IoError demo_closed], l1))"
    by (rule iterator_outcomes [OF t(3), of demo_env "\<lambda>k. k = 1", THEN conjunct1, THEN iffD2],
        intro exI conjI disjI1, rule i [of "\<lambda>k. k = 1"]) simp_all
  moreover have "txNext demo_env (\<lambda>_. False) [IoError demo_timeout, IoError demo_closed] Transactions l =
       Some (Inr (False, Transactions\<lparr>ti_err := Some demo_closed, ti_done := True\<rparr>, [], l2\<lparr>lastIOErrKind := ioe_msg demo_closed\<rparr>))"
    by (rule iterator_outcomes [OF t(3), of demo_env "\<lambda>_. False", THEN conjunct1, THEN iffD2],
        intro exI conjI disjI2, rule i [of "\<lambda>_. False"], simp, simp, rule r2, rule t(2), rule refl, rule refl)
  ultimately show ?thesis using l(1) by blast
qed

end
