(* ===== verification/Text_Format.thy ===== *)
theory Text_Format
  imports Prelude
begin

text \<open>
  What the sources use of the standard library to turn numbers and bytes into text and back:
  \<^verbatim>\<open>%d\<close> of \<^verbatim>\<open>fmt\<close> for unsigned values, \<^verbatim>\<open>strconv.Atoi\<close> on 64-bit integers and
  \<^verbatim>\<open>hex.EncodeToString\<close>.
\<close>

section \<open>Decimal numbers\<close>

definition digit_char :: "nat \<Rightarrow> char" where
  "digit_char d = char_of (48 + d)"

fun decimal :: "nat \<Rightarrow> string" where
  "decimal n = (if n < 10 then [digit_char n] else decimal (n div 10) @ [digit_char (n mod 10)])"

declare decimal.simps [simp del]

definition digit_value :: "char \<Rightarrow> nat option" where
  "digit_value c = (let v = (of_char c :: nat) in if 48 \<le> v \<and> v \<le> 57 then Some (v - 48) else None)"

fun digits_value :: "nat \<Rightarrow> string \<Rightarrow> nat option" where
  "digits_value acc [] = Some acc"
| "digits_value acc (c # cs) = Option.bind (digit_value c) (\<lambda>v. digits_value (acc * 10 + v) cs)"

text \<open>An optional sign, then at least one digit and nothing else, within 64 bits; \<open>None\<close> is an error.\<close>

definition Atoi :: "string \<Rightarrow> int option" where
  "Atoi s =
     (case s of
        [] \<Rightarrow> None
      | c # cs \<Rightarrow>
         (let neg = (c = CHR ''-''); ds = (if neg \<or> c = CHR ''+'' then cs else s) in
          if ds = [] then None
          else Option.bind (digits_value 0 ds) (\<lambda>n.
            (let v = (if neg then - int n else int n) in
             if - (2 ^ 63) \<le> v \<and> v < 2 ^ 63 then Some v else None))))"

lemma digit_roundtrip [simp]: "d < 10 \<Longrightarrow> digit_value (digit_char d) = Some d"
  by (simp add: digit_value_def digit_char_def Let_def of_char_of)

lemma digit_not_sign: "d < 10 \<Longrightarrow> digit_char d \<noteq> CHR ''-'' \<and> digit_char d \<noteq> CHR ''+''"
proof -
  assume "d < 10"
  moreover have "digit_value CHR ''-'' = None" "digit_value CHR ''+'' = None" by (simp_all add: digit_value_def)
  ultimately show ?thesis using digit_roundtrip by fastforce
qed

lemma digits_value_append: "digits_value acc (xs @ ys) = Option.bind (digits_value acc xs) (\<lambda>v. digits_value v ys)"
  by (induction xs arbitrary: acc) (auto split: bind_splits)

lemma decimal_value: "digits_value 0 (decimal n) = Some n"
proof (induction n rule: decimal.induct)
  case (1 n)
  then show ?case by (subst decimal.simps) (auto simp: digits_value_append)
qed

lemma decimal_head: "\<exists>d cs. d < 10 \<and> decimal n = digit_char d # cs"
proof (induction n rule: decimal.induct)
  case (1 n)
  then show ?case by (subst decimal.simps) fastforce
qed

lemma Atoi_decimal: "n < 2 ^ 63 \<Longrightarrow> Atoi (decimal n) = Some (int n)"
proof -
  assume n: "n < 2 ^ 63"
  obtain d cs where h: "d < 10" "decimal n = digit_char d # cs" using decimal_head by blast
  have "digits_value 0 (digit_char d # cs) = Some n" using decimal_value [of n] h(2) by simp
  moreover have "int n < 2 ^ 63" "- (2 ^ 63) \<le> int n" using n by simp_all
  ultimately show ?thesis using digit_not_sign [OF h(1)] h(2) by (simp add: Atoi_def del: digits_value.simps)
qed

lemma Atoi_range: "Atoi s = Some v \<Longrightarrow> - (2 ^ 63) \<le> v \<and> v < 2 ^ 63"
  by (auto simp: Atoi_def Let_def bind_eq_Some_conv split: list.splits if_splits)

section \<open>Hexadecimal bytes\<close>

definition hexDigit :: "byte \<Rightarrow> char" where
  "hexDigit d = ''0123456789abcdef'' ! unat d"

definition EncodeToString :: "byte list \<Rightarrow> string" where
  "EncodeToString bs = concat (map (\<lambda>b. [hexDigit (drop_bit 4 b), hexDigit (b AND 0x0F)]) bs)"

end
