(* ===== verification/Examples.thy ===== *)
theory Examples
  imports Delivered Pumpfun Iterator Text_Format
begin

text \<open>
  The two example programs, \<^verbatim>\<open>src/examples/pumpfun_creates/main.go\<close> and
  \<^verbatim>\<open>src/examples/listen/main.go\<close>: the choice of the port, binding, and the loop over the
  transaction iterator. What they print is a list of values: a card of the first program without its
  colours and the time of day, a line of the second. Their outer loop may run forever, so it is
  modelled by what the first \<open>n\<close> calls of \<^verbatim>\<open>Next\<close> make it print and where the loop then is; \<open>None\<close> is
  the panic of an index out of range.
\<close>

section \<open>The port\<close>

text \<open>Both programs listen on port 8001 unless they are given a text that is a number.\<close>

definition port_of :: "string \<Rightarrow> int" where
  "port_of v = (case Atoi v of Some p \<Rightarrow> p | None \<Rightarrow> 8001)"

definition listenPort :: "string \<Rightarrow> int" where
  "listenPort v = (if v \<noteq> [] then port_of v else 8001)"

text \<open>Indexing the arguments panics out of range; the guard of the source keeps it in range.\<close>

definition arg_at :: "string list \<Rightarrow> nat \<Rightarrow> string option" where
  "arg_at args i = (if i < length args then Some (args ! i) else None)"

definition pumpfunPort :: "string list \<Rightarrow> int option" where
  "pumpfunPort args = (if length args > 1 then map_option port_of (arg_at args 1) else Some 8001)"

text \<open>What the ports should be: the number a text spells, or 8001.\<close>

definition spelt :: "string \<Rightarrow> int" where
  "spelt v = (case Atoi v of Some p \<Rightarrow> p | None \<Rightarrow> 8001)"

definition argument_port :: "string list \<Rightarrow> int" where
  "argument_port args = (case args of _ # v # _ \<Rightarrow> spelt v | _ \<Rightarrow> 8001)"

lemma listenPort_eq: "listenPort v = spelt v"
  by (simp add: listenPort_def port_of_def spelt_def Atoi_def)

lemma pumpfunPort_eq: "pumpfunPort args = Some (argument_port args)"
  by (simp add: pumpfunPort_def arg_at_def port_of_def argument_port_def spelt_def split: list.split)

section \<open>Where the loop is\<close>

text \<open>
  After \<open>n\<close> calls of \<^verbatim>\<open>Next\<close> or fewer: the last call returned false and the program returns, it waits in a
  read, it does not return, or every call returned true and the loop goes on.
\<close>

datatype loop_state = Returned | Waiting | Hanging | Running

section \<open>The creation watcher\<close>

definition sigShort :: "string \<Rightarrow> string" where
  "sigShort sig =
     (if length sig \<ge> 8 then take 4 sig @ ''...'' @ drop (length sig - 4) sig else sig)"

record card =
  cd_slot :: u64
  cd_create :: pumpfunCreate
  cd_sig :: string
  cd_found :: u64

definition printCard :: "u64 \<Rightarrow> string \<Rightarrow> pumpfunCreate \<Rightarrow> u64 \<Rightarrow> card" where
  "printCard slot sig c found = \<lparr>cd_slot = slot, cd_create = c, cd_sig = sigShort sig, cd_found = found\<rparr>"

fun showTxs :: "(byte list \<Rightarrow> string) \<Rightarrow> byte list \<Rightarrow> u64 \<Rightarrow> VersionedTransaction list \<Rightarrow> u64
    \<Rightarrow> (card list \<times> u64) option" where
  "showTxs enc58 programID slot [] found = Some ([], found)"
| "showTxs enc58 programID slot (tx # txs) found =
     (case detectCreate enc58 tx programID of
        None \<Rightarrow> showTxs enc58 programID slot txs found
      | Some c \<Rightarrow>
         (let found = found + 1 in
          case Signatures tx of
            [] \<Rightarrow> None
          | sg # _ \<Rightarrow>
             map_option (\<lambda>(cards, n). (printCard slot (enc58 sg) c found # cards, n))
               (showTxs enc58 programID slot txs found)))"

text \<open>\<open>cancelled n k\<close>: whether the context is done at the \<open>k\<close>-th check while \<open>n\<close> more calls are looked at.\<close>

fun watch :: "environ \<Rightarrow> (byte list \<Rightarrow> string) \<Rightarrow> byte list \<Rightarrow> (nat \<Rightarrow> nat \<Rightarrow> bool) \<Rightarrow> nat \<Rightarrow> io_result list
    \<Rightarrow> TransactionIter \<Rightarrow> Listener \<Rightarrow> u64 \<Rightarrow> (card list \<times> loop_state) option" where
  "watch env enc58 programID cancelled 0 ios it l found = Some ([], Running)"
| "watch env enc58 programID cancelled (Suc n) ios it l found =
     (case txNext env (cancelled n) ios it l of
        None \<Rightarrow> Some ([], Hanging)
      | Some (Inl l) \<Rightarrow> Some ([], Waiting)
      | Some (Inr (False, it, ios, l)) \<Rightarrow> Some ([], Returned)
      | Some (Inr (True, it, ios, l)) \<Rightarrow>
         (case showTxs enc58 programID (ti_slot it) (ti_txs it) found of
            None \<Rightarrow> None
          | Some (cards, found) \<Rightarrow>
             map_option (\<lambda>(more, st). (cards @ more, st)) (watch env enc58 programID cancelled n ios it l found)))"

text \<open>
  The whole program: the program id must decode, the socket must bind, then the loop runs. \<open>dec58\<close> and
  \<open>enc58\<close> are the third-party base58 encoding. \<open>Inl\<close> is the exit with a fatal message.
\<close>

datatype fatal = BadProgramID | BindFailed "options_error + io_error"

definition pumpfunProgramID :: string where
  "pumpfunProgramID = ''6EF8rrecthR5Dkzon8Nwu78hRvfCKubJ14M5uBEwF6P''"

definition pumpfunMain :: "(string \<Rightarrow> byte list option) \<Rightarrow> (byte list \<Rightarrow> string) \<Rightarrow> sysenv \<Rightarrow> environ
    \<Rightarrow> string list \<Rightarrow> (nat \<Rightarrow> nat \<Rightarrow> bool) \<Rightarrow> nat \<Rightarrow> io_result list \<Rightarrow> sys_call list
    \<Rightarrow> (fatal + card list \<times> loop_state) option \<times> sys_call list" where
  "pumpfunMain dec58 enc58 sys env args cancelled n ios tr =
     (case pumpfunPort args of
        None \<Rightarrow> (None, tr)
      | Some port \<Rightarrow>
         (case dec58 pumpfunProgramID of
            None \<Rightarrow> (Some (Inl BadProgramID), tr)
          | Some programID \<Rightarrow>
             (case Bind sys port tr of
                (None, tr) \<Rightarrow> (None, tr)
              | (Some (Inl e), tr) \<Rightarrow> (Some (Inl (BindFailed e)), tr)
              | (Some (Inr l), tr) \<Rightarrow>
                 (map_option Inr (watch env enc58 programID cancelled n ios Transactions l 0), tr))))"

section \<open>The plain listener\<close>

definition listenLine :: "u64 \<Rightarrow> byte list \<Rightarrow> string" where
  "listenLine slot sg = ''slot='' @ decimal (unat slot) @ '' sig='' @ EncodeToString sg"

fun listenLines :: "u64 \<Rightarrow> VersionedTransaction list \<Rightarrow> string list" where
  "listenLines slot [] = []"
| "listenLines slot (tx # txs) =
     (if length (Signatures tx) > 0 then [listenLine slot (Signatures tx ! 0)] else [])
     @ listenLines slot txs"

fun listenLoop :: "environ \<Rightarrow> (nat \<Rightarrow> nat \<Rightarrow> bool) \<Rightarrow> nat \<Rightarrow> io_result list \<Rightarrow> TransactionIter \<Rightarrow> Listener
    \<Rightarrow> string list \<times> loop_state" where
  "listenLoop env cancelled 0 ios it l = ([], Running)"
| "listenLoop env cancelled (Suc n) ios it l =
     (case txNext env (cancelled n) ios it l of
        None \<Rightarrow> ([], Hanging)
      | Some (Inl l) \<Rightarrow> ([], Waiting)
      | Some (Inr (False, it, ios, l)) \<Rightarrow> ([], Returned)
      | Some (Inr (True, it, ios, l)) \<Rightarrow>
         (case listenLoop env cancelled n ios it l of
            (out, st) \<Rightarrow> (listenLines (ti_slot it) (ti_txs it) @ out, st)))"

definition listenMain :: "sysenv \<Rightarrow> environ \<Rightarrow> string \<Rightarrow> (nat \<Rightarrow> nat \<Rightarrow> bool) \<Rightarrow> nat \<Rightarrow> io_result list
    \<Rightarrow> sys_call list \<Rightarrow> (fatal + string list \<times> loop_state) option \<times> sys_call list" where
  "listenMain sys env v cancelled n ios tr =
     (case Bind sys (listenPort v) tr of
        (None, tr) \<Rightarrow> (None, tr)
      | (Some (Inl e), tr) \<Rightarrow> (Some (Inl (BindFailed e)), tr)
      | (Some (Inr l), tr) \<Rightarrow> (Some (Inr (listenLoop env cancelled n ios Transactions l)), tr))"

text \<open>What the iterator yields in \<open>n\<close> calls, and where it is then: the reference for both programs.\<close>

fun yields :: "environ \<Rightarrow> (nat \<Rightarrow> nat \<Rightarrow> bool) \<Rightarrow> nat \<Rightarrow> io_result list \<Rightarrow> TransactionIter \<Rightarrow> Listener
    \<Rightarrow> (u64 \<times> VersionedTransaction) list \<times> loop_state" where
  "yields env cancelled 0 ios it l = ([], Running)"
| "yields env cancelled (Suc n) ios it l =
     (case txNext env (cancelled n) ios it l of
        None \<Rightarrow> ([], Hanging)
      | Some (Inl l) \<Rightarrow> ([], Waiting)
      | Some (Inr (False, it, ios, l)) \<Rightarrow> ([], Returned)
      | Some (Inr (True, it, ios, l)) \<Rightarrow>
         (case yields env cancelled n ios it l of
            (ys, st) \<Rightarrow> (map (Pair (ti_slot it)) (ti_txs it) @ ys, st)))"

text \<open>The call that ends the loop, if one does.\<close>

lemma next_result_cases:
  obtains "txNext env stop ios it l = None" | l' where "txNext env stop ios it l = Some (Inl l')"
    | it' ios' l' where "txNext env stop ios it l = Some (Inr (False, it', ios', l'))"
    | it' ios' l' where "txNext env stop ios it l = Some (Inr (True, it', ios', l'))"
proof (cases "txNext env stop ios it l")
  case (Some res)
  show ?thesis
  proof (cases res)
    case (Inr p)
    obtain ok it' ios' l' where "p = (ok, it', ios', l')" by (metis prod_cases4)
    then show ?thesis using Some Inr that(3,4) by (cases ok) simp_all
  qed (use Some that(2) in simp)
qed (use that(1) in simp)

section \<open>Neither program fails on a delivered transaction\<close>

text \<open>A card without its number, for a transaction in which the detector finds a creation.\<close>

definition creation :: "(byte list \<Rightarrow> string) \<Rightarrow> byte list \<Rightarrow> u64 \<times> VersionedTransaction
    \<Rightarrow> (u64 \<times> pumpfunCreate \<times> string) option" where
  "creation enc58 programID = (\<lambda>(slot, tx).
     map_option (\<lambda>c. (slot, c, let s = enc58 (hd (Signatures tx)) in
         if length s < 8 then s else take 4 s @ ''...'' @ drop (length s - 4) s))
       (detectCreate enc58 tx programID))"

abbreviation unnumbered :: "card \<Rightarrow> u64 \<times> pumpfunCreate \<times> string" where
  "unnumbered cd \<equiv> (cd_slot cd, cd_create cd, cd_sig cd)"

lemma showTxs_cards:
  assumes "deliverable txs"
  shows "\<exists>cards. showTxs enc58 programID slot txs found = Some (cards, found + of_nat (length cards)) \<and>
    map cd_found cards = map (\<lambda>i. found + 1 + of_nat i) [0..<length cards] \<and>
    map unnumbered cards = List.map_filter (creation enc58 programID) (map (Pair slot) txs)"
  using assms
proof (induction txs arbitrary: found)
  case Nil
  then show ?case by (simp add: List.map_filter_def)
next
  case (Cons tx txs)
  have d: "deliverable txs" "Signatures tx \<noteq> []" using Cons.prems by (auto simp: deliverable_def)
  show ?case
  proof (cases "detectCreate enc58 tx programID")
    case None
    then show ?thesis using Cons.IH [OF d(1), of found] by (simp add: List.map_filter_def creation_def)
  next
    case (Some c)
    obtain sg sgs where sg: "Signatures tx = sg # sgs" using d(2) by (cases "Signatures tx") auto
    obtain cards where cs: "showTxs enc58 programID slot txs (found + 1) = Some (cards, found + 1 + of_nat (length cards))"
      "map cd_found cards = map (\<lambda>i. found + 1 + 1 + of_nat i) [0..<length cards]"
      "map unnumbered cards = List.map_filter (creation enc58 programID) (map (Pair slot) txs)"
      using Cons.IH [OF d(1), of "found + 1"] by blast
    have "map (\<lambda>i. found + 1 + of_nat i) [0..<Suc (length cards)] =
        (found + 1) # map (\<lambda>i. found + 1 + 1 + of_nat i) [0..<length cards]"
      by (simp add: map_upt_Suc ac_simps del: upt_Suc)
    then show ?thesis
      using Some sg cs
      by (intro exI [of _ "printCard slot (enc58 sg) c (found + 1) # cards"])
        (simp add: printCard_def sigShort_def List.map_filter_def creation_def Let_def ac_simps not_less del: upt_Suc)
  qed
qed

lemma upt_shift:
  fixes f :: u64
  shows "map (\<lambda>i. f + 1 + of_nat i) [0..<m + n] =
    map (\<lambda>i. f + 1 + of_nat i) [0..<m] @ map (\<lambda>i. (f + of_nat m) + 1 + of_nat i) [0..<n]"
  by (rule nth_equalityI) (auto simp: nth_append ac_simps simp del: upt_Suc)

lemma map_filter_append: "List.map_filter f (xs @ ys) = List.map_filter f xs @ List.map_filter f ys"
  by (simp add: List.map_filter_def)

lemma watch_cards:
  "kept_ok l \<Longrightarrow> yields env cancelled n ios it l = (ys, st) \<Longrightarrow>
   \<exists>cards. watch env enc58 programID cancelled n ios it l found = Some (cards, st) \<and>
     map cd_found cards = map (\<lambda>i. found + 1 + of_nat i) [0..<length cards] \<and>
     map unnumbered cards = List.map_filter (creation enc58 programID) ys"
proof (induction n arbitrary: ios it l found ys)
  case 0
  then show ?case by (simp add: List.map_filter_def)
next
  case (Suc n)
  show ?case
  proof (cases rule: next_result_cases [of env "cancelled n" ios it l])
    case (4 it' ios' l')
    note k = txNext_kept_ok [OF 4 Suc.prems(1)]
    obtain zs where zs: "yields env cancelled n ios' it' l' = (zs, st)" "ys = map (Pair (ti_slot it')) (ti_txs it') @ zs"
      using Suc.prems(2) 4 by (auto split: prod.splits)
    obtain cards where cs: "showTxs enc58 programID (ti_slot it') (ti_txs it') found = Some (cards, found + of_nat (length cards))"
      "map cd_found cards = map (\<lambda>i. found + 1 + of_nat i) [0..<length cards]"
      "map unnumbered cards = List.map_filter (creation enc58 programID) (map (Pair (ti_slot it')) (ti_txs it'))"
      using showTxs_cards [of "ti_txs it'"] k by blast
    obtain more where m: "watch env enc58 programID cancelled n ios' it' l' (found + of_nat (length cards)) = Some (more, st)"
      "map cd_found more = map (\<lambda>i. (found + of_nat (length cards)) + 1 + of_nat i) [0..<length more]"
      "map unnumbered more = List.map_filter (creation enc58 programID) zs"
      using Suc.IH [OF _ zs(1)] k by blast
    have "map cd_found (cards @ more) = map (\<lambda>i. found + 1 + of_nat i) [0..<length (cards @ more)]"
      using cs(2) m(2) upt_shift [of found "length cards" "length more"] by (simp del: upt_Suc)
    moreover have "map unnumbered (cards @ more) = List.map_filter (creation enc58 programID) ys"
      using cs(3) m(3) by (simp add: zs(2) map_filter_append)
    ultimately show ?thesis using 4 cs(1) m(1) by (intro exI [of _ "cards @ more"]) (simp del: upt_Suc)
  qed (use Suc.prems(2) in \<open>auto simp: List.map_filter_def\<close>)
qed

lemma listenLines_all:
  "deliverable txs \<Longrightarrow> listenLines slot txs = map (\<lambda>tx. listenLine slot (hd (Signatures tx))) txs"
  by (induction txs) (auto simp: deliverable_def hd_conv_nth)

lemma listenLoop_all:
  "kept_ok l \<Longrightarrow> yields env cancelled n ios it l = (ys, st) \<Longrightarrow>
   listenLoop env cancelled n ios it l = (map (\<lambda>(slot, tx). listenLine slot (hd (Signatures tx))) ys, st)"
proof (induction n arbitrary: ios it l ys)
  case (Suc n)
  show ?case
  proof (cases rule: next_result_cases [of env "cancelled n" ios it l])
    case (4 it' ios' l')
    note k = txNext_kept_ok [OF 4 Suc.prems(1)]
    obtain zs where zs: "yields env cancelled n ios' it' l' = (zs, st)" "ys = map (Pair (ti_slot it')) (ti_txs it') @ zs"
      using Suc.prems(2) 4 by (auto split: prod.splits)
    then show ?thesis using 4 k Suc.IH [OF _ zs(1)] listenLines_all by (simp add: comp_def)
  qed (use Suc.prems(2) in auto)
qed simp

lemma tuneSocket_extends: "\<exists>busyOK rest. tuneSocket sys opts fd tr = (busyOK, tr @ rest)"
  by (simp add: tuneSocket_calls)

text \<open>Binding with the default options returns, and its first system call opens the given port.\<close>

lemma Bind_default:
  obtains (Refused) e where "Bind sys port tr = (Some (Inl e), tr @ [ListenUDP port])"
  | (Bound) l rest where "Bind sys port tr = (Some (Inr l), tr @ ListenUDP port # rest)" "kept_ok l"
proof (cases "listen_answer sys tr port")
  case (Inl e)
  then show ?thesis using validate_default by (intro Refused [of "Inr e"]) (simp add: Bind_def BindWithOptions_def)
next
  case (Inr descriptor)
  obtain l0 where "newListener DefaultListenerOptions = Some l0"
    using validate_pool [OF validate_default] by (auto simp: newListener_def)
  then have "\<exists>l rest. BindWithOptions sys port DefaultListenerOptions tr = (Some (Inr l), tr @ ListenUDP port # rest)"
    using Inr validate_default tuneSocket_extends [of sys DefaultListenerOptions "the descriptor" "tr @ [ListenUDP port]"]
    by (cases descriptor) (auto simp: BindWithOptions_def)
  then obtain l rest where b: "BindWithOptions sys port DefaultListenerOptions tr = (Some (Inr l), tr @ ListenUDP port # rest)"
    by blast
  then have "kept_ok l" using reachable_kept [OF reachable.bound] by simp
  then show ?thesis using Bound b by (simp add: Bind_def)
qed


section \<open>A run of both programs\<close>

lemma recvOne_datagram:
  assumes "pendingBatches l = []" and "hasSocket l" and "l_acquire l \<noteq> None"
  shows "recvOne env (Datagram raw # ios) l = map_option (\<lambda>(r, l). Inr (r, None, ios, l)) (HandlePacket env raw l)"
proof -
  obtain h l1 where "l_acquire l = Some (h, l1)" using assms(3) by auto
  then show ?thesis
    using assms(1,2)
    by (simp add: recvOne_def recvBegin_def acquireBufferWithFallback_def recvEnd_def HandlePacket_def handlePacketLocked_def
        option.map_comp comp_def split_def)
qed

text \<open>The first packet on a listener that was just bound, for slot 0.\<close>

lemma bound_delivers:
  assumes "Bind sys port tr = (Some (Inr l), tr')"
  obtains l' where "recvOne demo_env [Datagram (demo_wire_of 0)] l = Some (Inr ((0, [demo_tx], True), None, [], l'))"
proof -
  have b: "BindWithOptions sys port DefaultListenerOptions tr = (Some (Inr l), tr')" using assms by (simp add: Bind_def)
  then obtain l0 bp where l0: "newListener DefaultListenerOptions = Some l0" "l = l0\<lparr>hasSocket := True, busyPollActive := bp\<rparr>"
    by (rule BindWithOptions_listener)
  obtain p where p: "newBufferPool DefaultPoolSize = Some p" "available p > 0"
    using newBufferPool_ok [of DefaultPoolSize] by (simp add: newBufferPool_def maxPoolCapacity_def DefaultPoolSize_def)
  then have l: "slots l = []" "recentlySeenSlots l = []" "lastSlot l = 0" "pendingBatches l = []" "hasSocket l"
    "w_pool (l_world l) = p"
    using l0 by (auto simp: newListener_def DefaultListenerOptions_def split: option.splits)
  have "ready {#} 0 l"
    using BindWithOptions_ok [OF b] l by (simp add: ready_def system_ok_def maxLiveSlots_def)
  moreover have s: "at_batch_start 0 (slotAcc 0 l)"
    using l by (simp add: slotAcc_def at_batch_start_def newSlotAccumulator_def)
  ultimately have m: "mid_slot {#} 0 [] l" by (simp add: mid_slot_def mid_batch_def at_batch_start_def)
  obtain d where d: "Push NewStreamingDecoder (enc_batch demo_batch) = (d, Inr (batch_txs demo_batch))"
    using Push_batch [OF wf_demo_batch, of "[]"] by auto
  have "\<exists>l'. HandlePacket demo_env (demo_wire_of 0) l = Some (hit_result 0 (fresh [] (batch_txs demo_batch)), l')"
    using packet_last [OF demo_env_fair m, of "enc_batch demo_batch" "demo_wire_of 0" d "batch_txs demo_batch" "batch_txs demo_batch"]
      s d p(2) l(6) demo_carries DecodeBatch_enc [OF wf_demo_batch, of "[]"]
      fresh_seen [of "batch_txs demo_batch" "batch_txs demo_batch" "[]"]
    by (auto simp: at_batch_start_def)
  moreover have "l_acquire l \<noteq> None"
    using p l(6) by (auto simp: l_acquire_def acquire_def available_def Let_def)
  ultimately show ?thesis using that recvOne_datagram [OF l(4,5)] fresh_demo by (auto simp: hit_result_def)
qed

lemma demo_yields:
  assumes "Bind sys port tr = (Some (Inr l), tr')"
  shows "yields demo_env (\<lambda>_ _. False) 1 [Datagram (demo_wire_of 0)] Transactions l = ([(0, demo_tx)], Running)"
proof -
  obtain l' where "recvOne demo_env [Datagram (demo_wire_of 0)] l = Some (Inr ((0, [demo_tx], True), None, [], l'))"
    by (rule bound_delivers [OF assms])
  from txLoop_batch [of "\<lambda>_. False" 0, OF _ this] show ?thesis
    by (simp add: txNext_def Transactions_def)
qed

lemma demo_line: "''slot='' @ decimal (unat (0 :: u64)) @ '' sig='' @ EncodeToString (hd (Signatures demo_tx)) =
  ''slot=0 sig='' @ concat (replicate 64 ''07'')"
proof -
  have "EncodeToString (replicate n 7) = concat (replicate n ''07'')" for n
    by (induction n) (simp_all add: EncodeToString_def hexDigit_def)
  then show ?thesis by (simp add: demo_tx_def decimal.simps digit_char_def char_of_def bit_0)
qed


end
