(* ===== verification/Spec2Isabelle.thy ===== *)
theory Spec2Isabelle
  imports Listener_Fec Listener_Stats Examples
begin

text \<open>
  A verification of the ShredStream SDK for Go. The SDK receives the UDP packets ("shreds") into which a
  Solana validator cuts the entries of a slot, restores lost packets from Reed-Solomon coding
  shreds, decodes the transactions and hands them to the user in batches.

  \<^bold>\<open>The program and its theories.\<close> A packet comes from the socket or from the user
  (\<^verbatim>\<open>listener.go\<close>), is copied into a buffer of a fixed pool (\<^verbatim>\<open>pool.go\<close>), parsed
  (\<^verbatim>\<open>parser.go\<close>, \<^verbatim>\<open>variant.go\<close>) and routed to the accumulator of its slot
  (\<^verbatim>\<open>accumulator.go\<close>). The accumulator keeps data shreds as pending, buffers coding shreds per FEC
  set, feeds consecutive payloads to the streaming decoder (\<^verbatim>\<open>decoder.go\<close>), restores missing data shreds
  with the erasure code (\<^verbatim>\<open>fec.go\<close>, \<^verbatim>\<open>internal/galois\<close>), flushes complete batches, and
  salvages what it can of incomplete ones when a batch times out or the slot is evicted.

  \<^item> \<open>Prelude\<close>: types, list and word lemmas, little-endian numbers, and \<open>go_loop\<close>, a Go
    loop whose body says whether it goes on, with an invariant and a termination rule.
  \<^item> \<open>Field_Interface\<close>: the locale \<open>char2_field\<close>, a finite field of characteristic 2 given by its
    operations, with the linear algebra proved once from the field laws.
  \<^item> \<open>Galois\<close> (\<^verbatim>\<open>internal/galois/gf256.go\<close>): the tables that \<^verbatim>\<open>init\<close> builds and the
    operations on them. They are multiplication, division and inverse of polynomials over GF(2)
    modulo 0x11D; the interpretation \<open>gf\<close> of the locale makes bytes a field.
  \<^item> \<open>Gf_Matrix\<close> (\<^verbatim>\<open>internal/galois/matrix.go\<close>): matrices as lists of rows, panics as errors;
    Gauss-Jordan inversion is correct and reports exactly the singular matrices.
  \<^item> \<open>Fec\<close> (\<^verbatim>\<open>fec.go\<close>): codec construction, encoding, erasure decoding and the LRU cache of codecs.
    Any subset of shards of sufficient size restores the codeword.
  \<^item> \<open>Saturating\<close>, \<open>Variant\<close>, \<open>Parser\<close> (\<^verbatim>\<open>saturating.go\<close>, \<^verbatim>\<open>variant.go\<close>,
    \<^verbatim>\<open>parser.go\<close>): the parser inverts the wire encoding of both kinds of shreds, and
    for arbitrary bytes its results stay within bounds and its errors are characterised.
  \<^item> \<open>Errors\<close> (\<^verbatim>\<open>error.go\<close>): the error values with their wrapping, texts and \<^verbatim>\<open>errors.Is\<close>, by which the
    listener sorts the parser's errors into its counters.
  \<^item> \<open>Decoder\<close>, \<open>Tx_Encoding\<close>, \<open>Tx_Typing\<close> (\<^verbatim>\<open>decoder.go\<close>): the locales \<open>stream_reader\<close>,
    \<open>slice_reader\<close> and \<open>typed_reader\<close> are what every decoder satisfies: it stays in its buffer, more
    bytes do not change its result, and its values are well-formed. Whole, concatenated and streamed
    batches decode to the encoded transactions; streaming refines decoding the whole.
  \<^item> \<open>Pool\<close>, \<open>Options\<close>, \<open>Tuning\<close> (\<^verbatim>\<open>pool.go\<close>, \<^verbatim>\<open>options.go\<close>, \<^verbatim>\<open>tuning*.go\<close>): the
    locale \<open>resource_pool\<close> gives every buffer to at most one owner, interpreted on the freelist pool;
    options with their validation; socket tuning as a function of the system calls made so far.
  \<^item> \<open>Fec_Set\<close>, \<open>Accumulator\<close> (\<^verbatim>\<open>accumulator.go\<close>): FEC sets, pending shreds and every operation of
    the slot accumulator. \<open>Accumulator_Inv\<close> shows the ownership of buffers, \<open>Accumulator_Term\<close>
    termination and its limit, \<open>Accumulator_Delivery\<close> that in-order and complete batches are
    delivered and nothing is delivered twice in a batch, \<open>Accumulator_Fec\<close> that lost shreds become
    pending again, and \<open>Fec_Delivery\<close> that a coding shred then delivers the batch.
  \<^item> \<open>Listener\<close> (\<^verbatim>\<open>listener.go\<close>): constructors, slot acceptance, eviction, packet handling, reads
    from the socket, both iterators, statistics. \<open>Listener_Inv\<close> states the accumulator's contract as
    the locale \<open>slot_component\<close>, interpreted on the accumulator (\<open>ac\<close>), and proves the listener's
    invariants for all states reachable by interleaved calls (\<open>lstep\<close>, \<open>reachable\<close>).
    \<open>Listener_Delivery\<close> composes parser, pool, accumulator and decoder end to end and shows what becomes of
    the packet that closes a slot, \<open>Listener_Fec\<close> adds lost packets and the erasure code, \<open>Iterator\<close> says
    exactly when and how a call of \<^verbatim>\<open>Next\<close> ends, \<open>Listener_Term\<close> shows that the calls return,
    \<open>Delivered\<close> what every delivered transaction satisfies, and \<open>Listener_Stats\<close> that the statistics
    count every packet once and lose nothing on eviction.
  \<^item> \<open>Text_Format\<close>, \<open>Pumpfun\<close>, \<open>Examples\<close> (\<^verbatim>\<open>examples/\<close>): the token-creation detector and the two
    example programs from the choice of the port to what they print, whether they return, wait or go on included.

  \<^bold>\<open>How the code is represented.\<close> Integers of fixed width are words, Go's \<^verbatim>\<open>int\<close> is
  \<open>nat\<close> or \<open>int\<close> (sums of lengths and counters below 2^63). A map is an association list with
  distinct keys; whatever depends on Go's random iteration order, and every reading of the clock, is
  taken from an \<open>environ\<close> that answers each reading anew, and the theorems hold for every environment
  that iterates over permutations (\<open>fair_env\<close>). Pool and codec cache, shared by all slots, are the
  \<open>world\<close> that the operations pass on. Buffers are indices into the pool, so aliasing and
  double release are visible. An error is a value of a sum type, a panic is \<open>None\<close> or an error of its own, and
  an operation that does not return is \<open>None\<close>: loops that need not end are \<open>go_loop\<close>s or a
  \<open>partial_function\<close>, all others are total functions with termination proofs. The only fuel is in
  \<open>watch\<close> and \<open>listenLoop\<close> of \<open>Examples\<close>: the main loops run as long as packets arrive. There it is the number
  of calls of \<^verbatim>\<open>Next\<close> looked at, running out of it is the state \<open>Running\<close>, distinct from returning,
  waiting and hanging, and the statements hold for every number. The mutex makes every listener operation one step; \<^verbatim>\<open>recvOne\<close>, which
  reads from the socket without it, is two steps (\<open>recvBegin\<close>, \<open>recvEnd\<close>) between which others run.

  \<^bold>\<open>Bounds.\<close> Termination needs that no batch ends at index 0xFFFFFFFF (\<open>no_max\<close>), that no FEC set
  reaches it and that the pending map is 65536 short of the whole index space; the first condition is
  shown to be necessary. Delivery theorems for consecutive shreds ask for indices below 2^32.

  \<^bold>\<open>What the theorems show to differ from the intention.\<close> A batch-complete shred with the
  largest index makes a later flush run forever (\<open>max_index_shred_hangs\<close>); cutting a batch right
  after the header of an entry with transactions makes streaming fail (\<open>streaming_spurious_tx_count_error\<close>), which only the flush
  repairs; the packet flagged as the last of its slot is discarded with its payload and batch end
  (\<open>closing_packet_discarded\<close>), and a recovered one is skipped, so the theorems on delivery and recovery
  are about batches that do not close their slot and say so; 64 live slots block every newer slot (\<open>full_slot_table_blocks\<close>); constructors without
  validation panic and a negative age is accepted (\<open>bind_never_panics\<close>); busy polling is
  reported active where nothing sets it (\<open>socket_tuning\<close>); a batch without transactions counts as
  a decode error (\<open>in_order_batch_delivered\<close>).

  \<^bold>\<open>Not modelled.\<close> The answers of the operating system and the sockets are parameters (\<open>sysenv\<close>,
  \<open>io_result\<close>), as is the third-party base58 encoding. Log lines, the terminal layout of a card with its colours and the
  time of day, and the signals behind the cancellation of the examples are pure I/O. The capacity hints of
  slices and the accessors of tables and codecs have no definition of their own. Error texts of the
  validation are constructors. The atomicity of single counters is assumed as the Go memory model
  gives it.
\<close>

end
